(* ===== verification/Redis.thy ===== *)
theory Redis
  imports Prelude
begin

text \<open>
  The storage service, as the code sees it. Redis is not part of the repository, so every
  definition that talks to it takes the server as a parameter: a function
  \<open>exec\<close> from a command and a server state to a reply and the next state.

  \<^item> \<open>rcmd\<close> has one constructor per command form that the Lua scripts and the Rust
    code issue; arguments that reach Redis as text are strings.
  \<^item> \<open>doc_step\<close> writes down what the Redis documentation says each command does to a
    keyspace with per-key expiry; it is the content of the hypothesis, not part of the model.
  \<^item> The locale \<open>redis_server\<close> is that hypothesis: \<open>exec\<close> follows the
    documentation, the clock only moves when time passes, and expired keys are gone.
  \<^item> \<open>mem_exec\<close> is an in-memory server with lazy expiry that satisfies it, used by the
    witnesses.

  The second half holds the Lua runtime: a script is a function of the server state that
  either raises (keeping the writes already made, as Redis does) or returns a value.
\<close>

section \<open>Keyspace and commands\<close>

datatype rval =
    VStr string
  | VHash "(string \<times> string) list"
  | VList "string list"
  | VZset "(string \<times> int) list"

type_synonym entry = "rval \<times> nat option"
type_synonym keyspace = "string \<Rightarrow> entry option"

datatype reply =
    RNil
  | RStatus
  | RInt int
  | RBulk string
  | RArr "string list"
  | RErr string

datatype rcmd =
    GET string
  | SET_PX string string string
  | SET_NX_PX string string string
  | SET_NX string string
  | INCR string
  | DECR string
  | PEXPIRE string string
  | PTTL string
  | EXISTS string
  | DEL string
  | HSET string "(string \<times> string) list"
  | HGET string string
  | HGETALL string
  | HINCRBY string string int
  | HEXISTS string string
  | HDEL string string
  | LLEN string
  | LRANGE string int int
  | RPOP string
  | LREM_1 string string
  | LPOS string string
  | LPUSH string string
  | ZREMRANGEBYSCORE string int
  | ZCARD string
  | ZADD string int string
  | ZSCORE string string
  | ZREM string string
  | TIME

type_synonym 's server = "rcmd \<Rightarrow> 's \<Rightarrow> reply \<times> 's"

abbreviation i64_max :: int where
  "i64_max \<equiv> 9223372036854775807"

abbreviation i64_min :: int where
  "i64_min \<equiv> - 9223372036854775808"

text \<open>Redis reads a numeric argument or value as a signed 64-bit decimal.\<close>

definition redis_int :: "string \<Rightarrow> int option" where
  "redis_int s = (case parse_int s of
      None \<Rightarrow> None
    | Some n \<Rightarrow> if i64_min \<le> n \<and> n \<le> i64_max then Some n else None)"

section \<open>Documented behaviour of the commands\<close>

definition err_type :: reply where
  "err_type = RErr ''WRONGTYPE''"

definition err_int :: reply where
  "err_int = RErr ''ERR value is not an integer or out of range''"

definition err_expire :: reply where
  "err_expire = RErr ''ERR invalid expire time''"

definition of_bool_int :: "bool \<Rightarrow> reply" where
  "of_bool_int b = RInt (if b then 1 else 0)"

definition put_hash :: "string \<Rightarrow> nat option \<Rightarrow> (string \<times> string) list \<Rightarrow> keyspace \<Rightarrow> keyspace" where
  "put_hash k e h m = m(k := (if h = [] then None else Some (VHash h, e)))"

definition put_list :: "string \<Rightarrow> nat option \<Rightarrow> string list \<Rightarrow> keyspace \<Rightarrow> keyspace" where
  "put_list k e xs m = m(k := (if xs = [] then None else Some (VList xs, e)))"

definition put_zset :: "string \<Rightarrow> nat option \<Rightarrow> (string \<times> int) list \<Rightarrow> keyspace \<Rightarrow> keyspace" where
  "put_zset k e z m = m(k := (if z = [] then None else Some (VZset z, e)))"

text \<open>Reading a key as a hash, list or sorted set: an absent key is an empty one without
  expiry, a key of another type is an error.\<close>

definition with_hash ::
  "keyspace \<Rightarrow> string \<Rightarrow> ((string \<times> string) list \<Rightarrow> nat option \<Rightarrow> reply \<times> keyspace) \<Rightarrow> reply \<times> keyspace" where
  "with_hash m k f = (case m k of
      None \<Rightarrow> f [] None
    | Some (VHash h, e) \<Rightarrow> f h e
    | Some _ \<Rightarrow> (err_type, m))"

definition with_list ::
  "keyspace \<Rightarrow> string \<Rightarrow> (string list \<Rightarrow> nat option \<Rightarrow> reply \<times> keyspace) \<Rightarrow> reply \<times> keyspace" where
  "with_list m k f = (case m k of
      None \<Rightarrow> f [] None
    | Some (VList xs, e) \<Rightarrow> f xs e
    | Some _ \<Rightarrow> (err_type, m))"

definition with_zset ::
  "keyspace \<Rightarrow> string \<Rightarrow> ((string \<times> int) list \<Rightarrow> nat option \<Rightarrow> reply \<times> keyspace) \<Rightarrow> reply \<times> keyspace" where
  "with_zset m k f = (case m k of
      None \<Rightarrow> f [] None
    | Some (VZset z, e) \<Rightarrow> f z e
    | Some _ \<Rightarrow> (err_type, m))"

definition with_ttl ::
  "string \<Rightarrow> nat \<Rightarrow> keyspace \<Rightarrow> (int \<Rightarrow> reply \<times> keyspace) \<Rightarrow> reply \<times> keyspace" where
  "with_ttl t now m f = (case redis_int t of
      None \<Rightarrow> (err_int, m)
    | Some n \<Rightarrow> if int now + n > i64_max then (err_expire, m) else f n)"

definition add_to_string :: "int \<Rightarrow> string \<Rightarrow> keyspace \<Rightarrow> reply \<times> keyspace" where
  "add_to_string d k m = (case m k of
      None \<Rightarrow> (RInt d, m(k \<mapsto> (VStr (show_int d), None)))
    | Some (VStr v, e) \<Rightarrow> (case redis_int v of
          None \<Rightarrow> (err_int, m)
        | Some n \<Rightarrow> if i64_min \<le> n + d \<and> n + d \<le> i64_max
                   then (RInt (n + d), m(k \<mapsto> (VStr (show_int (n + d)), e)))
                   else (err_int, m))
    | Some _ \<Rightarrow> (err_type, m))"

definition lrange :: "int \<Rightarrow> int \<Rightarrow> 'a list \<Rightarrow> 'a list" where
  "lrange start stop xs =
     (let n = int (length xs);
          a = (if start < 0 then max 0 (n + start) else start);
          b = (if stop < 0 then n + stop else min stop (n - 1))
      in if b < a then [] else take (nat (b - a + 1)) (drop (nat a) xs))"

fun index_of :: "'a \<Rightarrow> 'a list \<Rightarrow> nat option" where
  "index_of x [] = None"
| "index_of x (y # ys) = (if x = y then Some 0 else map_option Suc (index_of x ys))"

fun hset_all :: "(string \<times> string) list \<Rightarrow> (string \<times> string) list \<Rightarrow> (string \<times> string) list" where
  "hset_all [] h = h"
| "hset_all ((f, v) # fvs) h = hset_all fvs (AList.update f v h)"

fun doc_step :: "rcmd \<Rightarrow> nat \<Rightarrow> keyspace \<Rightarrow> reply \<times> keyspace" where
  "doc_step (GET k) now m = (case m k of
      None \<Rightarrow> (RNil, m)
    | Some (VStr v, _) \<Rightarrow> (RBulk v, m)
    | Some _ \<Rightarrow> (err_type, m))"
| "doc_step (SET_PX k v t) now m = with_ttl t now m (\<lambda>n.
      if n \<le> 0 then (err_expire, m)
      else (RStatus, m(k \<mapsto> (VStr v, Some (now + nat n)))))"
| "doc_step (SET_NX_PX k v t) now m = with_ttl t now m (\<lambda>n.
      if n \<le> 0 then (err_expire, m)
      else if m k \<noteq> None then (RNil, m)
      else (RStatus, m(k \<mapsto> (VStr v, Some (now + nat n)))))"
| "doc_step (SET_NX k v) now m =
      (if m k \<noteq> None then (RNil, m) else (RStatus, m(k \<mapsto> (VStr v, None))))"
| "doc_step (INCR k) now m = add_to_string 1 k m"
| "doc_step (DECR k) now m = add_to_string (- 1) k m"
| "doc_step (PEXPIRE k t) now m = with_ttl t now m (\<lambda>n. case m k of
      None \<Rightarrow> (RInt 0, m)
    | Some (v, _) \<Rightarrow>
        if n \<le> 0 then (RInt 1, m(k := None))
        else (RInt 1, m(k \<mapsto> (v, Some (now + nat n)))))"
| "doc_step (PTTL k) now m = (case m k of
      None \<Rightarrow> (RInt (- 2), m)
    | Some (_, None) \<Rightarrow> (RInt (- 1), m)
    | Some (_, Some e) \<Rightarrow> (RInt (int e - int now), m))"
| "doc_step (EXISTS k) now m = (of_bool_int (m k \<noteq> None), m)"
| "doc_step (DEL k) now m = (of_bool_int (m k \<noteq> None), m(k := None))"
| "doc_step (HSET k fvs) now m = with_hash m k (\<lambda>h e.
      (RInt (int (length (hset_all fvs h)) - int (length h)), put_hash k e (hset_all fvs h) m))"
| "doc_step (HGET k f) now m = with_hash m k (\<lambda>h e.
      (case map_of h f of None \<Rightarrow> RNil | Some v \<Rightarrow> RBulk v, m))"
| "doc_step (HGETALL k) now m = with_hash m k (\<lambda>h e. (RArr (concat (map (\<lambda>(f, v). [f, v]) h)), m))"
| "doc_step (HINCRBY k f d) now m = with_hash m k (\<lambda>h e.
      case redis_int (case map_of h f of None \<Rightarrow> ''0'' | Some v \<Rightarrow> v) of
        None \<Rightarrow> (err_int, m)
      | Some n \<Rightarrow> if i64_min \<le> n + d \<and> n + d \<le> i64_max
                 then (RInt (n + d), put_hash k e (AList.update f (show_int (n + d)) h) m)
                 else (err_int, m))"
| "doc_step (HEXISTS k f) now m = with_hash m k (\<lambda>h e. (of_bool_int (map_of h f \<noteq> None), m))"
| "doc_step (HDEL k f) now m = with_hash m k (\<lambda>h e.
      (of_bool_int (map_of h f \<noteq> None), put_hash k e (AList.delete f h) m))"
| "doc_step (LLEN k) now m = with_list m k (\<lambda>xs e. (RInt (int (length xs)), m))"
| "doc_step (LRANGE k a b) now m = with_list m k (\<lambda>xs e. (RArr (lrange a b xs), m))"
| "doc_step (RPOP k) now m = with_list m k (\<lambda>xs e.
      if xs = [] then (RNil, m) else (RBulk (last xs), put_list k e (butlast xs) m))"
| "doc_step (LREM_1 k v) now m = with_list m k (\<lambda>xs e.
      (of_bool_int (v \<in> set xs), put_list k e (remove1 v xs) m))"
| "doc_step (LPOS k v) now m = with_list m k (\<lambda>xs e.
      (case index_of v xs of None \<Rightarrow> RNil | Some i \<Rightarrow> RInt (int i), m))"
| "doc_step (LPUSH k v) now m = with_list m k (\<lambda>xs e.
      (RInt (int (length xs) + 1), put_list k e (v # xs) m))"
| "doc_step (ZREMRANGEBYSCORE k mx) now m = with_zset m k (\<lambda>z e.
      (RInt (int (length (filter (\<lambda>(_, sc). sc \<le> mx) z))),
       put_zset k e (filter (\<lambda>(_, sc). \<not> sc \<le> mx) z) m))"
| "doc_step (ZCARD k) now m = with_zset m k (\<lambda>z e. (RInt (int (length z)), m))"
| "doc_step (ZADD k sc v) now m = with_zset m k (\<lambda>z e.
      (of_bool_int (map_of z v = None), put_zset k e (AList.update v sc z) m))"
| "doc_step (ZSCORE k v) now m = with_zset m k (\<lambda>z e.
      (case map_of z v of None \<Rightarrow> RNil | Some sc \<Rightarrow> RBulk (show_int sc), m))"
| "doc_step (ZREM k v) now m = with_zset m k (\<lambda>z e.
      (of_bool_int (map_of z v \<noteq> None), put_zset k e (AList.delete v z) m))"
| "doc_step TIME now m =
      (RArr [show_nat (now div 1000), show_nat (now mod 1000 * 1000)], m)"

text \<open>Expiry: a key whose instant has come is gone.\<close>

definition expire :: "nat \<Rightarrow> keyspace \<Rightarrow> keyspace" where
  "expire t m k = (case m k of
      Some (v, Some e) \<Rightarrow> if e \<le> t then None else m k
    | _ \<Rightarrow> m k)"

definition live :: "nat \<Rightarrow> keyspace \<Rightarrow> bool" where
  "live t m \<longleftrightarrow> (\<forall>k v e. m k = Some (v, Some e) \<longrightarrow> t < e)"

lemma live_expire [simp]: "live t (expire t m)"
  by (auto simp: live_def expire_def split: option.splits if_splits)

lemma expire_live: "live t m \<Longrightarrow> expire t m = m"
  by (fastforce simp: live_def expire_def split: option.splits)

lemma expire_expire: "t \<le> t' \<Longrightarrow> expire t' (expire t m) = expire t' m"
  by (rule ext) (auto simp: expire_def split: option.splits)

lemma live_upd: "live t m \<Longrightarrow> (\<And>v e. x = Some (v, Some e) \<Longrightarrow> t < e) \<Longrightarrow> live t (m(k := x))"
  by (auto simp: live_def split: if_splits)

lemma liveD: "live t m \<Longrightarrow> m k = Some (v, Some e) \<Longrightarrow> t < e"
  by (auto simp: live_def)

lemma live_put [simp]:
  "live t m \<Longrightarrow> e = None \<or> (\<exists>v. m k = Some (v, e)) \<Longrightarrow> live t (put_hash k e h m)"
  "live t m \<Longrightarrow> e = None \<or> (\<exists>v. m k = Some (v, e)) \<Longrightarrow> live t (put_list k e xs m)"
  "live t m \<Longrightarrow> e = None \<or> (\<exists>v. m k = Some (v, e)) \<Longrightarrow> live t (put_zset k e z m)"
  unfolding put_hash_def put_list_def put_zset_def
  by (auto intro!: live_upd dest: liveD split: if_splits)

lemma live_with_hash:
  assumes "live t m" and "\<And>h e. e = None \<or> (\<exists>v. m k = Some (v, e)) \<Longrightarrow> live t (snd (f h e))"
  shows "live t (snd (with_hash m k f))"
  using assms unfolding with_hash_def by (auto split: option.splits rval.splits)

lemma live_with_list:
  assumes "live t m" and "\<And>xs e. e = None \<or> (\<exists>v. m k = Some (v, e)) \<Longrightarrow> live t (snd (f xs e))"
  shows "live t (snd (with_list m k f))"
  using assms unfolding with_list_def by (auto split: option.splits rval.splits)

lemma live_with_zset:
  assumes "live t m" and "\<And>z e. e = None \<or> (\<exists>v. m k = Some (v, e)) \<Longrightarrow> live t (snd (f z e))"
  shows "live t (snd (with_zset m k f))"
  using assms unfolding with_zset_def by (auto split: option.splits rval.splits)

lemma live_with_ttl:
  assumes "live t m" and "\<And>n. live t (snd (f n))"
  shows "live t (snd (with_ttl x now m f))"
  using assms unfolding with_ttl_def by (auto split: option.splits)

lemma live_add_to_string: "live t m \<Longrightarrow> live t (snd (add_to_string d k m))"
  unfolding add_to_string_def
  by (auto intro!: live_upd dest: liveD split: option.splits rval.splits)

text \<open>No documented command leaves a dead key behind.\<close>

lemma live_doc_step: "live now m \<Longrightarrow> live now (snd (doc_step c now m))"
proof (cases c)
  case (PEXPIRE k t)
  assume "live now m"
  with PEXPIRE show ?thesis
    by (auto intro!: live_with_ttl live_upd split: option.splits)
qed (auto intro!: live_with_hash live_with_list live_with_zset live_with_ttl live_upd
    live_add_to_string split: option.splits rval.splits)

section \<open>The server as a hypothesis\<close>

locale redis_server =
  fixes exec :: "'s server"
    and ks :: "'s \<Rightarrow> keyspace"
    and clock :: "'s \<Rightarrow> nat"
    and pass :: "nat \<Rightarrow> 's \<Rightarrow> 's"
  assumes exec_reply: "fst (exec c s) = fst (doc_step c (clock s) (ks s))"
    and exec_ks: "ks (snd (exec c s)) = snd (doc_step c (clock s) (ks s))"
    and exec_clock: "clock (snd (exec c s)) = clock s"
    and pass_clock: "clock (pass d s) = clock s + d"
    and pass_ks: "ks (pass d s) = expire (clock s + d) (ks s)"
    and ks_live: "live (clock s) (ks s)"
begin

lemmas exec_simps = exec_reply exec_ks exec_clock pass_clock pass_ks

end

text \<open>An in-memory server with lazy expiry: the clock moves, and a command first purges what
  has died. Its state is the current time and the stored entries, dead ones included.\<close>

type_synonym mem = "nat \<times> keyspace"

definition mem_ks :: "mem \<Rightarrow> keyspace" where
  "mem_ks s = expire (fst s) (snd s)"

definition mem_exec :: "mem server" where
  "mem_exec c s = (case doc_step c (fst s) (mem_ks s) of (r, m) \<Rightarrow> (r, (fst s, m)))"

definition mem_pass :: "nat \<Rightarrow> mem \<Rightarrow> mem" where
  "mem_pass d s = (fst s + d, snd s)"

definition mem_init :: mem where
  "mem_init = (0, Map.empty)"

interpretation mem: redis_server mem_exec mem_ks fst mem_pass
proof unfold_locales
  fix c s d
  show "fst (mem_exec c s) = fst (doc_step c (fst s) (mem_ks s))"
    and "fst (snd (mem_exec c s)) = fst s"
    by (simp_all add: mem_exec_def split: prod.splits)
  have "live (fst s) (mem_ks s)" by (simp add: mem_ks_def)
  then have "live (fst s) (snd (doc_step c (fst s) (mem_ks s)))" by (rule live_doc_step)
  then show "mem_ks (snd (mem_exec c s)) = snd (doc_step c (fst s) (mem_ks s))"
    by (simp add: mem_exec_def mem_ks_def [of "(_, _)"] split_beta expire_live)
  show "fst (mem_pass d s) = fst s + d"
    by (simp add: mem_pass_def)
  show "mem_ks (mem_pass d s) = expire (fst s + d) (mem_ks s)"
    by (simp add: mem_pass_def mem_ks_def expire_expire)
  show "live (fst s) (mem_ks s)"
    by (simp add: mem_ks_def)
qed

section \<open>The Lua runtime\<close>

text \<open>A script runs atomically and either raises or returns. A Redis error inside
  \<^verbatim>\<open>redis.call\<close> raises, an absent \<^verbatim>\<open>KEYS\<close> or \<^verbatim>\<open>ARGV\<close> slot is \<^verbatim>\<open>nil\<close>, and passing \<^verbatim>\<open>nil\<close> to
  \<^verbatim>\<open>redis.call\<close> or to the concatenation operator raises.\<close>

datatype lua_error = NilArgument | NilConcat | NilArith | RedisError string | OutOfFuel

type_synonym ('s, 'a) lua = "'s \<Rightarrow> (lua_error + 'a) \<times> 's"

definition lret :: "'a \<Rightarrow> ('s, 'a) lua" where
  "lret a s = (Inr a, s)"

definition lraise :: "lua_error \<Rightarrow> ('s, 'a) lua" where
  "lraise e s = (Inl e, s)"

definition lbind :: "('s, 'a) lua \<Rightarrow> ('a \<Rightarrow> ('s, 'b) lua) \<Rightarrow> ('s, 'b) lua" where
  "lbind m f s = (case m s of (Inl e, t) \<Rightarrow> (Inl e, t) | (Inr a, t) \<Rightarrow> f a t)"

definition lcall :: "'s server \<Rightarrow> rcmd \<Rightarrow> ('s, reply) lua" where
  "lcall exec c s = (case exec c s of (r, t) \<Rightarrow>
     ((case r of RErr e \<Rightarrow> Inl (RedisError e) | _ \<Rightarrow> Inr r), t))"

definition lua_arg :: "string list \<Rightarrow> nat \<Rightarrow> string option" where
  "lua_arg xs i = (if 1 \<le> i \<and> i \<le> length xs then Some (xs ! (i - 1)) else None)"

definition need :: "string option \<Rightarrow> (string \<Rightarrow> ('s, 'a) lua) \<Rightarrow> ('s, 'a) lua" where
  "need x f = (case x of None \<Rightarrow> lraise NilArgument | Some v \<Rightarrow> f v)"

definition lua_concat :: "string option \<Rightarrow> string option \<Rightarrow> (string \<Rightarrow> ('s, 'a) lua) \<Rightarrow> ('s, 'a) lua" where
  "lua_concat x y f = (case (x, y) of (Some a, Some b) \<Rightarrow> f (a @ b) | _ \<Rightarrow> lraise NilConcat)"

text \<open>\<^verbatim>\<open>tonumber(ARGV[i])\<close> used in arithmetic: a missing or non-numeric argument raises.\<close>

definition lua_num :: "string option \<Rightarrow> (int \<Rightarrow> ('s, 'a) lua) \<Rightarrow> ('s, 'a) lua" where
  "lua_num x f = (case Option.bind x parse_int of None \<Rightarrow> lraise NilArith | Some n \<Rightarrow> f n)"

definition call1 :: "'s server \<Rightarrow> (string \<Rightarrow> rcmd) \<Rightarrow> string option \<Rightarrow> ('s, reply) lua" where
  "call1 exec f a = need a (\<lambda>x. lcall exec (f x))"

definition call2 :: "'s server \<Rightarrow> (string \<Rightarrow> string \<Rightarrow> rcmd) \<Rightarrow> string option \<Rightarrow> string option \<Rightarrow> ('s, reply) lua" where
  "call2 exec f a b = need a (\<lambda>x. need b (\<lambda>y. lcall exec (f x y)))"

definition call3 ::
  "'s server \<Rightarrow> (string \<Rightarrow> string \<Rightarrow> string \<Rightarrow> rcmd) \<Rightarrow> string option \<Rightarrow> string option \<Rightarrow> string option \<Rightarrow> ('s, reply) lua" where
  "call3 exec f a b c = need a (\<lambda>x. need b (\<lambda>y. need c (\<lambda>z. lcall exec (f x y z))))"

text \<open>Replies as Lua values: a nil reply is \<^verbatim>\<open>false\<close>, a status or data reply is true, and
  \<^verbatim>\<open>reply == ARGV[i]\<close> compares bulk strings.\<close>

definition truthy :: "reply \<Rightarrow> bool" where
  "truthy r = (r \<noteq> RNil)"

definition bulk_eq :: "reply \<Rightarrow> string option \<Rightarrow> bool" where
  "bulk_eq r x = (case x of None \<Rightarrow> False | Some v \<Rightarrow> r = RBulk v)"

definition rint :: "reply \<Rightarrow> int" where
  "rint r = (case r of RInt n \<Rightarrow> n | _ \<Rightarrow> 0)"

lemmas reply_simps [lua_simps] = truthy_def bulk_eq_def rint_def of_bool_int_def
  err_type_def err_int_def err_expire_def

lemma lbind_run:
  "lbind m f s = (case fst (m s) of Inl e \<Rightarrow> (Inl e, snd (m s)) | Inr a \<Rightarrow> f a (snd (m s)))"
  by (simp add: lbind_def split: prod.splits sum.splits)

lemmas runtime_simps [lua_simps] = lret_def lraise_def lbind_run need_def lua_concat_def
  lua_num_def call1_def call2_def call3_def

lemma lua_arg_simps [simp, lua_simps]:
  "lua_arg (x # xs) (Suc 0) = Some x"
  "lua_arg (x # xs) 1 = Some x"
  "lua_arg [] i = None"
  "lua_arg (x # xs) (Suc (Suc i)) = lua_arg xs (Suc i)"
  by (auto simp: lua_arg_def)

lemma lua_arg_numeral [simp, lua_simps]:
  "lua_arg (x # xs) (numeral n) = (if numeral n = (1::nat) then Some x else lua_arg xs (pred_numeral n))"
  by (auto simp: lua_arg_def numeral_eq_Suc)

text \<open>One \<^verbatim>\<open>redis.call\<close> on a conforming server.\<close>

context redis_server
begin

lemma fst_lcall:
  "fst (lcall exec c s) = (case fst (doc_step c (clock s) (ks s)) of
     RErr e \<Rightarrow> Inl (RedisError e) | r \<Rightarrow> Inr r)"
  by (simp add: lcall_def split_beta flip: exec_reply split: reply.splits)

lemma ks_lcall: "ks (snd (lcall exec c s)) = snd (doc_step c (clock s) (ks s))"
  by (simp add: lcall_def split_beta exec_ks)

lemma clock_lcall: "clock (snd (lcall exec c s)) = clock s"
  by (simp add: lcall_def split_beta exec_clock)

lemmas lcall_simps = fst_lcall ks_lcall clock_lcall

end

text \<open>A TTL that the server accepts, and the value of a counter key.\<close>

definition ttl_ok :: "nat \<Rightarrow> nat \<Rightarrow> bool" where
  "ttl_ok now t \<longleftrightarrow> 0 < t \<and> int now + int t \<le> i64_max"

definition counter :: "keyspace \<Rightarrow> string \<Rightarrow> int option" where
  "counter m k = (case m k of
      None \<Rightarrow> Some 0
    | Some (VStr v, _) \<Rightarrow> redis_int v
    | Some _ \<Rightarrow> None)"

lemma redis_int_show_nat [simp]: "int n \<le> i64_max \<Longrightarrow> redis_int (show_nat n) = Some (int n)"
  by (simp add: redis_int_def flip: show_int_of_nat)

lemma redis_int_show_int [simp]: "i64_min \<le> n \<Longrightarrow> n \<le> i64_max \<Longrightarrow> redis_int (show_int n) = Some n"
  by (simp add: redis_int_def)

lemma redis_int_range: "redis_int v = Some n \<Longrightarrow> i64_min \<le> n \<and> n \<le> i64_max"
  by (auto simp: redis_int_def split: option.splits if_splits)

lemma with_ttl_ok [redis_simps]:
  "ttl_ok now t \<Longrightarrow> with_ttl (show_nat t) now m f = f (int t)"
  by (simp add: with_ttl_def ttl_ok_def)

lemma doc_ttl [redis_simps]:
  assumes "ttl_ok now t"
  shows "doc_step (SET_PX k v (show_nat t)) now m = (RStatus, m(k \<mapsto> (VStr v, Some (now + t))))"
    and "doc_step (SET_NX_PX k v (show_nat t)) now m =
      (if m k \<noteq> None then (RNil, m) else (RStatus, m(k \<mapsto> (VStr v, Some (now + t)))))"
    and "doc_step (PEXPIRE k (show_nat t)) now m = (case m k of
        None \<Rightarrow> (RInt 0, m)
      | Some (v, _) \<Rightarrow> (RInt 1, m(k \<mapsto> (v, Some (now + t)))))"
  using assms by (simp_all add: with_ttl_ok) (auto simp: ttl_ok_def split: option.splits)

lemma doc_ttl_bad:
  assumes "\<not> ttl_ok now t"
  shows "\<exists>e. doc_step (SET_PX k v (show_nat t)) now m = (RErr e, m)"
    and "\<exists>e. doc_step (SET_NX_PX k v (show_nat t)) now m = (RErr e, m)"
    and "(\<exists>e. doc_step (PEXPIRE k (show_nat t)) now m = (RErr e, m)) \<or>
         t = 0 \<and> (\<exists>n. doc_step (PEXPIRE k (show_nat t)) now m = (RInt n, m(k := None)))"
proof -
  have range: "0 < t \<Longrightarrow> \<not> int now + int t \<le> i64_max"
    using assms by (simp add: ttl_ok_def)
  then have zero: "int now + int t \<le> i64_max \<Longrightarrow> t = 0"
    by auto
  have r: "t = 0 \<Longrightarrow> redis_int (show_nat t) = Some 0"
    by simp
  from zero r show "\<exists>e. doc_step (SET_PX k v (show_nat t)) now m = (RErr e, m)"
    and "\<exists>e. doc_step (SET_NX_PX k v (show_nat t)) now m = (RErr e, m)"
    by (auto simp: with_ttl_def err_int_def err_expire_def redis_int_def show_int_of_nat [symmetric]
        split: option.splits if_splits)
  from zero r show "(\<exists>e. doc_step (PEXPIRE k (show_nat t)) now m = (RErr e, m)) \<or>
         t = 0 \<and> (\<exists>n. doc_step (PEXPIRE k (show_nat t)) now m = (RInt n, m(k := None)))"
    by (auto simp: with_ttl_def err_int_def err_expire_def redis_int_def show_int_of_nat [symmetric]
        split: option.splits if_splits)
qed

lemma doc_pexpire_zero [redis_simps]:
  assumes "int now \<le> i64_max"
  shows "doc_step (PEXPIRE k (show_nat 0)) now m = (of_bool_int (m k \<noteq> None), m(k := None))"
proof -
  have "redis_int (show_nat 0) = Some 0" using redis_int_show_nat [of 0] by simp
  with assms show ?thesis by (auto simp: with_ttl_def of_bool_int_def split: option.splits)
qed

lemmas doc_plain [redis_simps] =
  doc_step.simps(1) doc_step.simps(4) doc_step.simps(8-10) doc_step.simps(11-28)

declare doc_step.simps [simp del]

text \<open>Counters: an increment in range returns the next value and keeps the key's expiry.\<close>

definition key_expiry :: "keyspace \<Rightarrow> string \<Rightarrow> nat option" where
  "key_expiry m k = Option.bind (m k) snd"

lemma counter_range: "counter m k = Some n \<Longrightarrow> i64_min \<le> n \<and> n \<le> i64_max"
  by (auto simp: counter_def dest: redis_int_range split: option.splits rval.splits)

lemma add_to_string_counter:
  assumes "counter m k = Some n" "i64_min \<le> n + d" "n + d \<le> i64_max"
  shows "add_to_string d k m = (RInt (n + d), m(k \<mapsto> (VStr (show_int (n + d)), key_expiry m k)))"
  using assms unfolding counter_def add_to_string_def key_expiry_def
  by (auto split: option.splits rval.splits)

lemma doc_incr [redis_simps]:
  "counter m k = Some n \<Longrightarrow> n < i64_max \<Longrightarrow>
   doc_step (INCR k) now m = (RInt (n + 1), m(k \<mapsto> (VStr (show_int (n + 1)), key_expiry m k)))"
  using add_to_string_counter [of m k n 1] counter_range [of m k n]
  by (simp add: doc_step.simps)

lemma doc_incr_bad:
  assumes "counter m k = None \<or> counter m k = Some i64_max"
  shows "\<exists>e. doc_step (INCR k) now m = (RErr e, m)"
  using assms unfolding doc_step.simps add_to_string_def counter_def
  by (auto simp: err_int_def err_type_def split: option.splits rval.splits if_splits)

lemma doc_decr [redis_simps]:
  "counter m k = Some n \<Longrightarrow> i64_min < n \<Longrightarrow>
   doc_step (DECR k) now m = (RInt (n - 1), m(k \<mapsto> (VStr (show_int (n - 1)), key_expiry m k)))"
  using add_to_string_counter [of m k n "- 1"] counter_range [of m k n]
  by (simp add: doc_step.simps)

lemma key_expiry_upd [simp]:
  "key_expiry (m(k := x)) k' = (if k = k' then Option.bind x snd else key_expiry m k')"
  by (simp add: key_expiry_def)

lemma counter_upd [simp]:
  "counter (m(k := x)) k' = (if k = k' then counter (\<lambda>_. x) k else counter m k')"
  by (auto simp: counter_def)

lemma counter_str: "counter (\<lambda>_. Some (VStr v, e)) k = redis_int v"
  by (simp add: counter_def)

end
