(* ===== verification/Core.thy ===== *)
theory Core
  imports Prelude
begin

text \<open>
  The backend-neutral vocabulary of \<^verbatim>\<open>crates/core\<close>: errors, lock options, fencing tokens,
  safety policies, and the SQL generator of the Postgres fencing adapter.

  The text of an error message is kept up to its interpolated values
  (\<^verbatim>\<open>"ttl {:?} is below the {:?} floor"\<close> is the constant part only); the constructor and its
  key and fence fields are exact. A Rust \<^verbatim>\<open>assert!\<close> that fails is a panic, the left side of
  \<open>panic + 'a\<close>.
\<close>

section \<open>Errors\<close>

datatype error =
    Timeout string
  | Held string
  | Lost string u64
  | InvalidConfig string
  | Backend string

type_synonym 'a result = "error + 'a"

datatype panic = Panic string

definition error_display :: "error \<Rightarrow> string" where
  "error_display e = (case e of
      Timeout key \<Rightarrow> ''timed out acquiring lock `'' @ key @ ''`''
    | Held key \<Rightarrow> ''lock `'' @ key @ ''` is already held''
    | Lost key fence \<Rightarrow> ''lock `'' @ key @ ''` was lost while held: the lease expired or was revoked; '' @
        ''writes after this point must be rejected via fencing token '' @ show_nat (unat fence)
    | InvalidConfig m \<Rightarrow> ''invalid configuration: '' @ m
    | Backend m \<Rightarrow> ''backend error: '' @ m)"

section \<open>Fencing tokens\<close>

datatype FencingToken = FencingToken (fence_value: u64)

definition ZERO :: FencingToken where
  "ZERO = FencingToken 0"

definition supersedes :: "FencingToken \<Rightarrow> FencingToken \<Rightarrow> bool" where
  "supersedes t last_seen = (fence_value t > fence_value last_seen)"

text \<open>\<^verbatim>\<open>FencingToken\<close> derives \<^verbatim>\<open>Ord\<close>: tokens are ordered by their counter.\<close>

instantiation FencingToken :: linorder
begin

definition less_eq_FencingToken :: "FencingToken \<Rightarrow> FencingToken \<Rightarrow> bool" where
  "a \<le> b \<longleftrightarrow> fence_value a \<le> fence_value b"

definition less_FencingToken :: "FencingToken \<Rightarrow> FencingToken \<Rightarrow> bool" where
  "a < b \<longleftrightarrow> fence_value a < fence_value b"

instance
  by standard (auto simp: less_eq_FencingToken_def less_FencingToken_def intro: FencingToken.expand)

end

lemma supersedes_less: "supersedes t u \<longleftrightarrow> u < t"
  by (simp add: supersedes_def less_FencingToken_def)

lemma supersedes_trans: "supersedes a b \<Longrightarrow> supersedes b c \<Longrightarrow> supersedes a c"
  by (simp add: supersedes_less)

definition fence_display :: "FencingToken \<Rightarrow> string" where
  "fence_display t = ''fence#'' @ show_nat (unat (fence_value t))"

definition fence_debug :: "FencingToken \<Rightarrow> string" where
  "fence_debug t = ''FencingToken('' @ show_nat (unat (fence_value t)) @ '')''"

lemma fence_text_inject: "fence_display a = fence_display b \<longleftrightarrow> a = b" "fence_debug a = fence_debug b \<longleftrightarrow> a = b"
  by (auto simp: fence_display_def fence_debug_def word_unat_eq_iff intro: FencingToken.expand)

section \<open>Owner identity\<close>

text \<open>A wrapped UUID. The UUID type, its text form and the generator belong to the \<^verbatim>\<open>uuid\<close> crate; here they are a type variable,
  an argument \<open>to_text\<close> and the UUID drawn.\<close>

datatype 'u OwnerId = OwnerId (as_uuid: 'u)

definition owner_generate :: "'u \<Rightarrow> 'u OwnerId" where
  "owner_generate now_v7 = OwnerId now_v7"

definition owner_from_uuid :: "'u \<Rightarrow> 'u OwnerId" where
  "owner_from_uuid i = OwnerId i"

definition owner_display :: "('u \<Rightarrow> string) \<Rightarrow> 'u OwnerId \<Rightarrow> string" where
  "owner_display to_text a = to_text (as_uuid a)"

definition owner_debug :: "('u \<Rightarrow> string) \<Rightarrow> 'u OwnerId \<Rightarrow> string" where
  "owner_debug to_text a = ''OwnerId('' @ to_text (as_uuid a) @ '')''"

text \<open>An owner survives being written as a UUID, and its texts name it.\<close>

lemma owner_roundtrip: "owner_from_uuid (as_uuid a) = a" "as_uuid (owner_from_uuid i) = i"
  by (simp_all add: owner_from_uuid_def)

lemma owner_text_inject:
  "inj to_text \<Longrightarrow> owner_display to_text a = owner_display to_text b \<longleftrightarrow> a = b"
  "inj to_text \<Longrightarrow> owner_debug to_text a = owner_debug to_text b \<longleftrightarrow> a = b"
  by (auto simp: owner_display_def owner_debug_def dest: injD intro: OwnerId.expand)

section \<open>Safety policies and lock options\<close>

datatype SafetyPolicy = Cowardly | Balanced | Aggressive

definition max_transient_failures :: "SafetyPolicy \<Rightarrow> u32" where
  "max_transient_failures p = (case p of Cowardly \<Rightarrow> 0 | Balanced \<Rightarrow> 2 | Aggressive \<Rightarrow> - 1)"

definition MIN_TTL :: duration where
  "MIN_TTL = from_millis 10"

record LockOptions =
  lo_ttl :: duration
  lo_watchdog :: "bool option"
  lo_safety_policy :: SafetyPolicy

definition default_options :: LockOptions where
  "default_options = \<lparr>lo_ttl = from_secs 30, lo_watchdog = None, lo_safety_policy = Balanced\<rparr>"

definition with_ttl_opt :: "duration \<Rightarrow> LockOptions \<Rightarrow> LockOptions" where
  "with_ttl_opt d o' = o'\<lparr>lo_ttl := d\<rparr>"

definition with_safety_policy :: "SafetyPolicy \<Rightarrow> LockOptions \<Rightarrow> LockOptions" where
  "with_safety_policy p o' = o'\<lparr>lo_safety_policy := p\<rparr>"

definition with_watchdog :: "bool \<Rightarrow> LockOptions \<Rightarrow> LockOptions" where
  "with_watchdog b o' = o'\<lparr>lo_watchdog := Some b\<rparr>"

definition validate :: "LockOptions \<Rightarrow> unit result" where
  "validate o' = (if lo_ttl o' < MIN_TTL then Inl (InvalidConfig ''ttl is below the floor'') else Inr ())"

lemma validate_ok: "validate o' = Inr u \<longleftrightarrow> MIN_TTL \<le> lo_ttl o'"
  by (auto simp: validate_def)

lemma validate_err: "validate o' = Inl e \<Longrightarrow> lo_ttl o' < MIN_TTL \<and> (\<exists>m. e = InvalidConfig m)"
  by (auto simp: validate_def split: if_splits)

lemma MIN_TTL_millis: "MIN_TTL \<le> d \<Longrightarrow> 10 \<le> as_millis d"
  using as_millis_mono [of MIN_TTL d] by (simp add: MIN_TTL_def)

section \<open>Postgres fencing adapter\<close>

definition ascii_alnum :: "char \<Rightarrow> bool" where
  "ascii_alnum c = (let n = of_char c :: nat in
     48 \<le> n \<and> n \<le> 57 \<or> 65 \<le> n \<and> n \<le> 90 \<or> 97 \<le> n \<and> n \<le> 122)"

definition ident_char :: "char \<Rightarrow> bool" where
  "ident_char c = (ascii_alnum c \<or> c = CHR ''_'' \<or> c = CHR ''.'')"

definition assert_identifier :: "string \<Rightarrow> panic + unit" where
  "assert_identifier s =
     (if s \<noteq> [] \<and> list_all ident_char s then Inr ()
      else Inl (Panic ''identifier must be [A-Za-z0-9_.]''))"

definition ensure_fence_column :: "string \<Rightarrow> panic + string" where
  "ensure_fence_column table = rbind (assert_identifier table) (\<lambda>_.
     Inr (''ALTER TABLE '' @ table @ '' ADD COLUMN IF NOT EXISTS last_fence BIGINT NOT NULL DEFAULT 0''))"

fun join :: "string \<Rightarrow> string list \<Rightarrow> string" where
  "join sep [] = []"
| "join sep [x] = x"
| "join sep (x # y # ys) = x @ sep @ join sep (y # ys)"

fun set_parts :: "nat \<Rightarrow> string list \<Rightarrow> string list" where
  "set_parts i [] = []"
| "set_parts i (a # as) = (a @ '' = $'' @ show_nat (i + 2)) # set_parts (Suc i) as"

definition fenced_update :: "string \<Rightarrow> string \<Rightarrow> string list \<Rightarrow> panic + string \<times> nat" where
  "fenced_update table id_col assignments =
     rbind (assert_identifier table) (\<lambda>_.
     rbind (assert_identifier id_col) (\<lambda>_.
     if list_ex (\<lambda>a. a = []) assignments then Inl (Panic ''empty assignment'')
     else
       let fence_idx = length assignments + 2 in
       Inr (''UPDATE '' @ table @ '' SET '' @ join '', '' (set_parts 0 assignments)
              @ '', last_fence = $'' @ show_nat fence_idx
              @ '' WHERE '' @ id_col @ '' = $1 AND $'' @ show_nat fence_idx @ '' > last_fence'',
            fence_idx)))"

definition fenced_select :: "string \<Rightarrow> string \<Rightarrow> string list \<Rightarrow> panic + string" where
  "fenced_select table id_col value_cols =
     rbind (assert_identifier table) (\<lambda>_.
     rbind (assert_identifier id_col) (\<lambda>_.
     let cols = (if value_cols = [] then ''last_fence''
                 else join '', '' value_cols @ '', last_fence'')
     in Inr (''SELECT '' @ cols @ '' FROM '' @ table @ '' WHERE '' @ id_col
              @ '' = $1 AND $2 > last_fence'')))"

lemma assert_identifier_ok:
  "assert_identifier s = Inr u \<longleftrightarrow> s \<noteq> [] \<and> list_all ident_char s"
  by (auto simp: assert_identifier_def)

lemma set_parts_nth:
  "j < length as \<Longrightarrow> set_parts i as ! j = as ! j @ '' = $'' @ show_nat (i + j + 2)"
  by (induction as arbitrary: i j) (auto simp: nth_Cons split: nat.splits)

lemma length_set_parts [simp]: "length (set_parts i as) = length as"
  by (induction as arbitrary: i) auto

end
