(* ===== verification/Link.thy ===== *)
theory Link
  imports Redis Core
begin

text \<open>
  What lies between a Rust caller and the server. An asynchronous script call can reach the
  server and be answered, never reach it, or run and have its answer lost; the caller sees the
  last two as the same error. Which one happens is an argument (\<open>delivery\<close>) of every
  operation, so a theorem about an operation covers all of them.

  The polling loops of the code (\<^verbatim>\<open>try_lock_..._for\<close>) run against an environment that is a list of
  \<open>attempt\<close>s: for each round the identity it uses, what other clients and time do to the
  server before it, how its call is delivered and the instant read after it. \<open>None\<close> is "still
  polling when the list ends".
\<close>

datatype delivery = Delivered | NotSent | ReplyLost

definition invoke :: "delivery \<Rightarrow> string \<Rightarrow> ('s, 'a) lua \<Rightarrow> 's \<Rightarrow> 'a result \<times> 's" where
  "invoke d msg P s = (case d of
      NotSent \<Rightarrow> (Inl (Backend msg), s)
    | ReplyLost \<Rightarrow> (Inl (Backend msg), snd (P s))
    | Delivered \<Rightarrow> (case P s of (Inl _, t) \<Rightarrow> (Inl (Backend msg), t) | (Inr a, t) \<Rightarrow> (Inr a, t)))"

text \<open>A single command sent outside a script (\<^verbatim>\<open>redis::cmd\<close>).\<close>

definition query :: "'s server \<Rightarrow> delivery \<Rightarrow> string \<Rightarrow> rcmd \<Rightarrow> 's \<Rightarrow> reply result \<times> 's" where
  "query exec d msg c = invoke d msg (lcall exec c)"

lemma invoke_cases:
  obtains (not_sent) "invoke d msg P s = (Inl (Backend msg), s)"
  | (failed) "invoke d msg P s = (Inl (Backend msg), snd (P s))"
  | (ok) a where "d = Delivered" "fst (P s) = Inr a" "invoke d msg P s = (Inr a, snd (P s))"
proof (cases d)
  case Delivered
  obtain r t where P: "P s = (r, t)" by (cases "P s")
  show ?thesis
  proof (cases r)
    case (Inl e)
    with Delivered P show ?thesis by (intro failed) (simp add: invoke_def)
  next
    case (Inr a)
    with Delivered P show ?thesis by (intro ok) (simp_all add: invoke_def)
  qed
next
  case NotSent
  then show ?thesis by (intro not_sent) (simp add: invoke_def)
next
  case ReplyLost
  then show ?thesis by (intro failed) (simp add: invoke_def)
qed

lemma invoke_Inr:
  "fst (invoke d msg P s) = Inr a \<Longrightarrow> d = Delivered \<and> fst (P s) = Inr a \<and> snd (invoke d msg P s) = snd (P s)"
  by (rule invoke_cases [of d msg P s]) auto

lemma invoke_InrD: "invoke d msg P s = (Inr a, t) \<Longrightarrow> d = Delivered \<and> fst (P s) = Inr a \<and> t = snd (P s)"
  using invoke_Inr [of d msg P s a] by simp

lemma invoke_Inl: "fst (invoke d msg P s) = Inl e \<Longrightarrow> e = Backend msg"
  by (rule invoke_cases [of d msg P s]) auto

lemma invoke_state: "snd (invoke d msg P s) \<in> {s, snd (P s)}"
  by (rule invoke_cases [of d msg P s]) auto

lemma invoke_Delivered:
  "fst (P s) = Inr a \<Longrightarrow> invoke Delivered msg P s = (Inr a, snd (P s))"
  by (simp add: invoke_def split_beta)

lemma invoke_Delivered_error:
  "fst (P s) = Inl e \<Longrightarrow> invoke Delivered msg P s = (Inl (Backend msg), snd (P s))"
  by (simp add: invoke_def split_beta)

section \<open>Polling loops\<close>

record 's attempt =
  at_token :: string
  at_delivery :: delivery
  at_elapsed :: bool
  at_now :: nat
  at_env :: "'s \<Rightarrow> 's"

text \<open>Instants: the platform's monotonic clock counts signed 64-bit seconds. \<^verbatim>\<open>checked_add\<close> past its
  end (with \<^verbatim>\<open>Duration::MAX\<close>) gives no instant; the operator \<^verbatim>\<open>+\<close> panics there.\<close>

definition INSTANT_LIMIT :: nat where
  "INSTANT_LIMIT = 2 ^ 63 * 1000000000"

definition instant_checked_add :: "nat \<Rightarrow> duration \<Rightarrow> nat option" where
  "instant_checked_add now wait = (if now + wait < INSTANT_LIMIT then Some (now + wait) else None)"

definition instant_add :: "nat \<Rightarrow> duration \<Rightarrow> panic + nat" where
  "instant_add now wait =
     (case instant_checked_add now wait of
        None \<Rightarrow> Inl (Panic ''overflow when adding duration to instant'')
      | Some t \<Rightarrow> Inr t)"

text \<open>The shared shape: return on success, return on any error but \<^verbatim>\<open>Held\<close>, time out once the
  instant read after a failed attempt (\<open>at\<close>) has reached the deadline, otherwise sleep and retry.
  Each element of the list is the environment of one attempt; a list that runs out is a wait
  that is still going on.\<close>

fun poll_loop ::
  "('a \<Rightarrow> 's \<Rightarrow> 'h result \<times> 's) \<Rightarrow> ('a \<Rightarrow> nat) \<Rightarrow> string \<Rightarrow> nat \<Rightarrow> 'a list \<Rightarrow> 's \<Rightarrow> ('h result \<times> 's) option" where
  "poll_loop try at key deadline [] s = None"
| "poll_loop try at key deadline (a # as) s =
     (case try a s of
        (Inr h, t) \<Rightarrow> Some (Inr h, t)
      | (Inl (Held _), t) \<Rightarrow>
          if at a \<ge> deadline then Some (Inl (Timeout key), t)
          else poll_loop try at key deadline as t
      | (Inl e, t) \<Rightarrow> Some (Inl e, t))"

text \<open>The whole call: the deadline is computed first, and may panic.\<close>

definition poll_for ::
  "('a \<Rightarrow> 's \<Rightarrow> 'h result \<times> 's) \<Rightarrow> ('a \<Rightarrow> nat) \<Rightarrow> string \<Rightarrow> nat \<Rightarrow> duration \<Rightarrow> 'a list \<Rightarrow> 's \<Rightarrow>
   panic + ('h result \<times> 's) option" where
  "poll_for try at key now wait as s = map_sum id (\<lambda>deadline. poll_loop try at key deadline as s) (instant_add now wait)"

text \<open>The loop ends: once an attempt reads an instant at or past the deadline it returns.\<close>

lemma poll_loop_returns:
  "\<exists>a \<in> set as. deadline \<le> at a \<Longrightarrow> \<exists>r. poll_loop try at key deadline as s = Some r"
proof (induction as arbitrary: s)
  case (Cons a as)
  then show ?case
    by (cases "try a s") (auto split: sum.splits error.splits)
qed simp

text \<open>What it returns: a handle from one of its attempts, that attempt's own error, or a
  timeout after an attempt that found the lock held.\<close>

lemma poll_loop_result:
  assumes "poll_loop try at key deadline as s = Some (r, t)"
  shows "\<exists>a \<in> set as. \<exists>u. snd (try a u) = t \<and>
     (fst (try a u) = r \<or>
      r = Inl (Timeout key) \<and> deadline \<le> at a \<and> (\<exists>k. fst (try a u) = Inl (Held k)))"
  using assms
proof (induction as arbitrary: s)
  case (Cons a as)
  let ?r = "try a s"
  show ?case
  proof (cases "poll_loop try at key deadline as (snd ?r) = Some (r, t)")
    case True
    then show ?thesis using Cons.IH by fastforce
  next
    case False
    with Cons.prems have "snd ?r = t \<and> (fst ?r = r \<or>
        r = Inl (Timeout key) \<and> deadline \<le> at a \<and> (\<exists>k. fst ?r = Inl (Held k)))"
      by (auto split: prod.splits sum.splits error.splits if_splits)
    then show ?thesis by force
  qed
qed simp

lemma poll_loop_not_held:
  assumes "poll_loop try at key deadline as s = Some (r, t)"
  shows "r \<noteq> Inl (Held k)"
  using assms by (induction as arbitrary: s) (auto split: prod.splits sum.splits error.splits if_splits)

lemma map_sum_eq_Inr: "map_sum f g x = Inr y \<longleftrightarrow> (\<exists>z. x = Inr z \<and> g z = y)"
  by (cases x) auto

lemma instant_add_Inr: "instant_add now wait = Inr dl \<longleftrightarrow> now + wait < INSTANT_LIMIT \<and> dl = now + wait"
  by (auto simp: instant_add_def instant_checked_add_def)

lemma instant_add_panics: "INSTANT_LIMIT \<le> now + wait \<Longrightarrow> instant_add now wait = Inl (Panic ''overflow when adding duration to instant'')"
  by (simp add: instant_add_def instant_checked_add_def)

end
