(* ===== verification/Single.thy ===== *)
theory Single
  imports Link
begin

text \<open>
  The single-instance Redis mutex of \<^verbatim>\<open>crates/redis/src/single.rs\<close> and its scripts
  \<^verbatim>\<open>acquire.lua\<close>, \<^verbatim>\<open>release.lua\<close> and \<^verbatim>\<open>extend.lua\<close>: the lock manager's operations, the
  handle with its released, poisoned and lost flags, and the watchdog.

  Owner identities are UUIDs drawn by a library; every acquisition takes the token it draws as
  an argument. A handle record stands for the shared state behind all clones of a handle. The
  metrics and trace calls have no effect on any modelled state and are left out.
\<close>

section \<open>Scripts\<close>

definition acquire_lua :: "'s server \<Rightarrow> string list \<Rightarrow> string list \<Rightarrow> ('s, int \<times> int) lua" where
  "acquire_lua exec KEYS ARGV =
     lbind (call3 exec SET_NX_PX (lua_arg KEYS 1) (lua_arg ARGV 1) (lua_arg ARGV 2)) (\<lambda>r.
     if truthy r then
       lbind (call1 exec INCR (lua_arg KEYS 2)) (\<lambda>fence.
       lbind (call2 exec PEXPIRE (lua_arg KEYS 2) (lua_arg ARGV 3)) (\<lambda>_.
       lret (1, rint fence)))
     else
       lbind (call1 exec GET (lua_arg KEYS 1)) (\<lambda>v.
       if bulk_eq v (lua_arg ARGV 1) then
         lbind (call2 exec PEXPIRE (lua_arg KEYS 1) (lua_arg ARGV 2)) (\<lambda>_.
         lbind (call1 exec INCR (lua_arg KEYS 2)) (\<lambda>fence.
         lbind (call2 exec PEXPIRE (lua_arg KEYS 2) (lua_arg ARGV 3)) (\<lambda>_.
         lret (2, rint fence))))
       else lret (0, 0)))"

definition release_lua :: "'s server \<Rightarrow> string list \<Rightarrow> string list \<Rightarrow> ('s, int) lua" where
  "release_lua exec KEYS ARGV =
     lbind (call1 exec GET (lua_arg KEYS 1)) (\<lambda>v.
     if bulk_eq v (lua_arg ARGV 1)
     then lbind (call1 exec DEL (lua_arg KEYS 1)) (\<lambda>n. lret (rint n))
     else lret 0)"

definition extend_lua :: "'s server \<Rightarrow> string list \<Rightarrow> string list \<Rightarrow> ('s, int) lua" where
  "extend_lua exec KEYS ARGV =
     lbind (call1 exec GET (lua_arg KEYS 1)) (\<lambda>v.
     if bulk_eq v (lua_arg ARGV 1) then
       lbind (call2 exec PEXPIRE (lua_arg KEYS 1) (lua_arg ARGV 2)) (\<lambda>_.
       lbind (call2 exec PEXPIRE (lua_arg KEYS 2) (lua_arg ARGV 3)) (\<lambda>_.
       lret 1))
     else lret 0)"

section \<open>Lock manager\<close>

definition fence_key_for :: "string \<Rightarrow> string" where
  "fence_key_for key = ''{'' @ key @ ''}:fence''"

definition FENCE_TTL_MULTIPLIER :: u64 where
  "FENCE_TTL_MULTIPLIER = 10"

text \<open>The argument text that \<^verbatim>\<open>.arg(ttl.as_millis() as u64)\<close> and its product with the multiplier
  send: decimal renderings of 64-bit values, the product wrapping as in a release build.\<close>

definition ttl_arg :: "duration \<Rightarrow> string" where
  "ttl_arg d = show_nat (unat (as_millis_u64 d))"

definition fence_ttl_arg :: "duration \<Rightarrow> string" where
  "fence_ttl_arg d = show_nat (unat (as_millis_u64 d * FENCE_TTL_MULTIPLIER))"

record RedisLockManager =
  default_ttl :: duration
  watchdog_default :: bool

record HandleShared =
  hs_key :: string
  hs_fence_key :: string
  hs_token :: string
  hs_fence :: FencingToken
  hs_released :: bool
  hs_poisoned :: bool
  hs_lost :: bool
  hs_ttl :: duration
  hs_policy :: SafetyPolicy
  hs_watchdog :: bool

text \<open>\<open>hs_watchdog\<close> records whether \<^verbatim>\<open>spawn_watchdog\<close> was called for the handle.\<close>

definition new_handle :: "RedisLockManager \<Rightarrow> string \<Rightarrow> string \<Rightarrow> LockOptions \<Rightarrow> u64 \<Rightarrow> HandleShared" where
  "new_handle mgr token key options fence =
     \<lparr>hs_key = key, hs_fence_key = fence_key_for key, hs_token = token,
      hs_fence = FencingToken fence, hs_released = False, hs_poisoned = False, hs_lost = False,
      hs_ttl = lo_ttl options, hs_policy = lo_safety_policy options,
      hs_watchdog = (case lo_watchdog options of None \<Rightarrow> watchdog_default mgr | Some b \<Rightarrow> b)\<rparr>"

definition try_lock_with ::
  "'s server \<Rightarrow> delivery \<Rightarrow> RedisLockManager \<Rightarrow> string \<Rightarrow> string \<Rightarrow> LockOptions \<Rightarrow> 's \<Rightarrow> HandleShared result \<times> 's" where
  "try_lock_with exec d mgr token key options s =
     (case validate options of
        Inl e \<Rightarrow> (Inl e, s)
      | Inr _ \<Rightarrow>
          (case invoke d ''acquire script failed''
             (acquire_lua exec [key, fence_key_for key]
               [token, ttl_arg (lo_ttl options), fence_ttl_arg (lo_ttl options)]) s of
             (Inl e, t) \<Rightarrow> (Inl e, t)
           | (Inr (status, fence), t) \<Rightarrow>
               if status = 1 \<or> status = 2 then
                 (Inr (new_handle mgr token key options (of_int fence)), t)
               else (Inl (Held key), t)))"

definition try_lock ::
  "'s server \<Rightarrow> delivery \<Rightarrow> RedisLockManager \<Rightarrow> string \<Rightarrow> string \<Rightarrow> 's \<Rightarrow> HandleShared result \<times> 's" where
  "try_lock exec d mgr token key =
     try_lock_with exec d mgr token key (with_ttl_opt (default_ttl mgr) default_options)"

text \<open>One round of \<^verbatim>\<open>try_lock_for\<close>: a timed-out attempt may still have run on the server, so its
  state change stays while its answer is dropped.\<close>

fun try_lock_for_loop ::
  "'s server \<Rightarrow> RedisLockManager \<Rightarrow> string \<Rightarrow> LockOptions \<Rightarrow> nat option \<Rightarrow> 's attempt list \<Rightarrow> 's \<Rightarrow> (HandleShared result \<times> 's) option" where
  "try_lock_for_loop exec mgr key options deadline [] s = None"
| "try_lock_for_loop exec mgr key options deadline (a # as) s =
     (let (r, t) = try_lock_with exec (at_delivery a) mgr (at_token a) key options (at_env a s) in
      if at_elapsed a \<and> is_ok (validate options) then Some (Inl (Timeout key), t)
      else case r of
        Inr h \<Rightarrow> Some (Inr h, t)
      | Inl (Held _) \<Rightarrow>
          (case deadline of
             Some dl \<Rightarrow> if dl \<le> at_now a then Some (Inl (Timeout key), t)
                       else try_lock_for_loop exec mgr key options deadline as t
           | None \<Rightarrow> try_lock_for_loop exec mgr key options deadline as t)
      | Inl e \<Rightarrow> Some (Inl e, t))"

definition try_lock_for ::
  "'s server \<Rightarrow> RedisLockManager \<Rightarrow> nat \<Rightarrow> string \<Rightarrow> LockOptions \<Rightarrow> duration \<Rightarrow> 's attempt list \<Rightarrow> 's \<Rightarrow> (HandleShared result \<times> 's) option" where
  "try_lock_for exec mgr now key options wait as s =
     try_lock_for_loop exec mgr key options (instant_checked_add now wait) as s"

definition build_handle_from_parts :: "string \<Rightarrow> string \<Rightarrow> u64 \<Rightarrow> duration \<Rightarrow> HandleShared" where
  "build_handle_from_parts key token fence ttl =
     \<lparr>hs_key = key, hs_fence_key = fence_key_for key, hs_token = token,
      hs_fence = FencingToken fence, hs_released = False, hs_poisoned = False, hs_lost = False,
      hs_ttl = ttl, hs_policy = Balanced, hs_watchdog = False\<rparr>"

definition probe_held :: "'s server \<Rightarrow> delivery \<Rightarrow> string \<Rightarrow> 's \<Rightarrow> bool result \<times> 's" where
  "probe_held exec d key s =
     (case query exec d ''probe failed'' (EXISTS key) s of
        (Inl e, t) \<Rightarrow> (Inl e, t)
      | (Inr n, t) \<Rightarrow> (Inr (rint n > 0), t))"

text \<open>Rust's \<^verbatim>\<open>s.parse::<u64>().ok()\<close> on the stored counter, with 0 when absent or unreadable.\<close>

definition parse_u64 :: "string \<Rightarrow> u64 option" where
  "parse_u64 s = (case parse_nat s of
      None \<Rightarrow> None
    | Some n \<Rightarrow> if n < 2 ^ 64 then Some (of_nat n) else None)"

definition version_of :: "reply \<Rightarrow> u64" where
  "version_of r = (case r of RBulk v \<Rightarrow> (case parse_u64 v of None \<Rightarrow> 0 | Some n \<Rightarrow> n) | _ \<Rightarrow> 0)"

text \<open>A \<^verbatim>\<open>redis::pipe()\<close> sends its commands in order but not atomically: other clients may run
  between them (\<open>mid\<close>).\<close>

definition probe_state ::
  "'s server \<Rightarrow> delivery \<Rightarrow> ('s \<Rightarrow> 's) \<Rightarrow> string \<Rightarrow> 's \<Rightarrow> (bool \<times> u64) result \<times> 's" where
  "probe_state exec d mid key =
     invoke d ''probe failed''
       (lbind (lcall exec (EXISTS key)) (\<lambda>held s.
        lbind (lcall exec (GET (fence_key_for key))) (\<lambda>v.
        lret (rint held > 0, version_of v)) (mid s)))"

definition describe_key ::
  "'s server \<Rightarrow> delivery \<Rightarrow> ('s \<Rightarrow> 's) \<Rightarrow> ('s \<Rightarrow> 's) \<Rightarrow> string \<Rightarrow> 's \<Rightarrow> (bool \<times> u64 \<times> u64) result \<times> 's" where
  "describe_key exec d mid mid' key =
     invoke d ''describe failed''
       (lbind (lcall exec (EXISTS key)) (\<lambda>held s.
        lbind (lcall exec (GET (fence_key_for key))) (\<lambda>v s.
        lbind (lcall exec (PTTL key)) (\<lambda>t.
        lret (rint held > 0, version_of v, if rint t > 0 then of_int (rint t) else 0))
          (mid' s)) (mid s)))"

text \<open>\<^verbatim>\<open>SCAN\<close> hands out the keyspace in batches of its own choosing; the answers it gives, with how
  each \<^verbatim>\<open>PTTL\<close> call is delivered, are the environment of the loop. An answer is the next cursor and
  a batch, or an error.\<close>

type_synonym scan_answer = "(u64 \<times> string list) option"

fun scan_batch ::
  "'s server \<Rightarrow> (string \<Rightarrow> delivery) \<Rightarrow> string list \<Rightarrow> (string \<times> u64) list \<Rightarrow> 's \<Rightarrow> (string \<times> u64) list \<times> 's" where
  "scan_batch exec d [] out s = (out, s)"
| "scan_batch exec d (key # keys) out s =
     (case query exec (d key) ''pttl'' (PTTL key) s of
        (r, t) \<Rightarrow>
          let ttl = (case r of Inl _ \<Rightarrow> - 2 | Inr v \<Rightarrow> rint v) in
          scan_batch exec d keys (if 0 < ttl then out @ [(key, of_int ttl)] else out) t)"

fun scan_held ::
  "'s server \<Rightarrow> (string \<Rightarrow> delivery) \<Rightarrow> scan_answer list \<Rightarrow> (string \<times> u64) list \<Rightarrow> 's \<Rightarrow>
   ((string \<times> u64) list result \<times> 's) option" where
  "scan_held exec d [] out s = None"
| "scan_held exec d (a # as) out s =
     (case a of
        None \<Rightarrow> Some (Inl (Backend ''scan failed''), s)
      | Some (next, batch) \<Rightarrow>
          (case scan_batch exec d batch out s of
             (out', t) \<Rightarrow> if next = 0 then Some (Inr out', t) else scan_held exec d as out' t))"

definition force_unlock :: "'s server \<Rightarrow> delivery \<Rightarrow> string \<Rightarrow> 's \<Rightarrow> bool result \<times> 's" where
  "force_unlock exec d key s =
     (case query exec d ''force unlock failed'' (DEL key) s of
        (Inl e, t) \<Rightarrow> (Inl e, t)
      | (Inr n, t) \<Rightarrow> (Inr (rint n > 0), t))"

definition unlock_with_token :: "'s server \<Rightarrow> delivery \<Rightarrow> string \<Rightarrow> string \<Rightarrow> 's \<Rightarrow> bool result \<times> 's" where
  "unlock_with_token exec d key token s =
     (case invoke d ''unlock failed'' (release_lua exec [key, fence_key_for key] [token]) s of
        (Inl e, t) \<Rightarrow> (Inl e, t)
      | (Inr n, t) \<Rightarrow> (Inr (n = 1), t))"

definition extend_with_token ::
  "'s server \<Rightarrow> delivery \<Rightarrow> string \<Rightarrow> string \<Rightarrow> duration \<Rightarrow> 's \<Rightarrow> bool result \<times> 's" where
  "extend_with_token exec d key token ttl s =
     (if ttl < MIN_TTL then (Inl (InvalidConfig ''extend ttl is below the floor''), s)
      else case invoke d ''extend failed''
             (extend_lua exec [key, fence_key_for key] [token, ttl_arg ttl, fence_ttl_arg ttl]) s of
        (Inl e, t) \<Rightarrow> (Inl e, t)
      | (Inr n, t) \<Rightarrow> (Inr (n = 1), t))"

section \<open>Handles\<close>

definition mark_released :: "HandleShared \<Rightarrow> bool \<times> HandleShared" where
  "mark_released h = (\<not> hs_released h, h\<lparr>hs_released := True\<rparr>)"

definition mark_lost :: "HandleShared \<Rightarrow> HandleShared" where
  "mark_lost h = h\<lparr>hs_poisoned := True, hs_lost := True\<rparr>"

definition fire_extend :: "'s server \<Rightarrow> delivery \<Rightarrow> HandleShared \<Rightarrow> duration \<Rightarrow> 's \<Rightarrow> bool result \<times> 's" where
  "fire_extend exec d h ttl s =
     (case invoke d ''extend script failed''
        (extend_lua exec [hs_key h, hs_fence_key h] [hs_token h, ttl_arg ttl, fence_ttl_arg ttl]) s of
        (Inl e, t) \<Rightarrow> (Inl e, t)
      | (Inr n, t) \<Rightarrow> (Inr (n = 1), t))"

definition disarm :: "HandleShared \<Rightarrow> HandleShared" where
  "disarm h = snd (mark_released h)"

definition run_release :: "'s server \<Rightarrow> delivery \<Rightarrow> HandleShared \<Rightarrow> 's \<Rightarrow> int result \<times> 's" where
  "run_release exec d h =
     invoke d ''release script failed'' (release_lua exec [hs_key h, hs_fence_key h] [hs_token h])"

definition handle_lost :: "HandleShared \<Rightarrow> error" where
  "handle_lost h = Lost (hs_key h) (fence_value (hs_fence h))"

definition handle_extend ::
  "'s server \<Rightarrow> delivery \<Rightarrow> duration \<Rightarrow> HandleShared \<Rightarrow> 's \<Rightarrow> unit result \<times> HandleShared \<times> 's" where
  "handle_extend exec d ttl h s =
     (if ttl < MIN_TTL then (Inl (InvalidConfig ''extend ttl is below the floor''), h, s)
      else if hs_released h then (Inl (handle_lost h), h, s)
      else case fire_extend exec d h ttl s of
        (Inl e, t) \<Rightarrow> (Inl e, h, t)
      | (Inr True, t) \<Rightarrow> (Inr (), h, t)
      | (Inr False, t) \<Rightarrow> (Inl (handle_lost h), mark_lost h, t))"

definition handle_release ::
  "'s server \<Rightarrow> delivery \<Rightarrow> HandleShared \<Rightarrow> 's \<Rightarrow> unit result \<times> HandleShared \<times> 's" where
  "handle_release exec d h s =
     (case mark_released h of
        (False, h') \<Rightarrow> (Inr (), h', s)
      | (True, h') \<Rightarrow>
          (case run_release exec d h' s of
             (Inl e, t) \<Rightarrow> (Inl e, h', t)
           | (Inr n, t) \<Rightarrow> if n = 1 then (Inr (), h', t) else (Inl (handle_lost h'), h', t)))"

text \<open>Dropping the last clone: a detached release unless one already ran, and only when a
  runtime is available to run it; its outcome is discarded.\<close>

definition handle_drop :: "'s server \<Rightarrow> delivery \<Rightarrow> bool \<Rightarrow> HandleShared \<Rightarrow> 's \<Rightarrow> 's" where
  "handle_drop exec d runtime h s =
     (case mark_released h of
        (False, _) \<Rightarrow> s
      | (True, h') \<Rightarrow> if runtime
          then snd (invoke d ''detached release''
                 (release_lua exec [hs_key h', hs_fence_key h'] [hs_token h']) s)
          else s)"

section \<open>Watchdog\<close>

text \<open>One wake-up of the renewal task. Its own state is the consecutive-failure counter and
  whether it still runs; \<open>alive\<close> is the outcome of upgrading its weak reference.\<close>

record watchdog =
  wd_failures :: u32
  wd_running :: bool

definition spawn_watchdog :: watchdog where
  "spawn_watchdog = \<lparr>wd_failures = 0, wd_running = True\<rparr>"

definition watchdog_tick ::
  "'s server \<Rightarrow> delivery \<Rightarrow> bool \<Rightarrow> watchdog \<Rightarrow> HandleShared \<Rightarrow> 's \<Rightarrow> watchdog \<times> HandleShared \<times> 's" where
  "watchdog_tick exec d alive w h s =
     (if \<not> wd_running w then (w, h, s)
      else if \<not> alive \<or> hs_released h then (w\<lparr>wd_running := False\<rparr>, h, s)
      else case fire_extend exec d h (hs_ttl h) s of
        (Inr True, t) \<Rightarrow> (w\<lparr>wd_failures := 0\<rparr>, h, t)
      | (Inr False, t) \<Rightarrow> (w\<lparr>wd_running := False\<rparr>, mark_lost h, t)
      | (Inl _, t) \<Rightarrow>
          (let n = wd_failures w + 1 in
           if n > max_transient_failures (hs_policy h)
           then (w\<lparr>wd_failures := n, wd_running := False\<rparr>, mark_lost h, t)
           else (w\<lparr>wd_failures := n\<rparr>, h, t)))"

lemma new_handle_simps [simp]:
  "hs_key (new_handle mgr tok k opts f) = k"
  "hs_fence_key (new_handle mgr tok k opts f) = fence_key_for k"
  "hs_token (new_handle mgr tok k opts f) = tok"
  "hs_fence (new_handle mgr tok k opts f) = FencingToken f"
  "\<not> hs_released (new_handle mgr tok k opts f)"
  "\<not> hs_poisoned (new_handle mgr tok k opts f)"
  "\<not> hs_lost (new_handle mgr tok k opts f)"
  "hs_ttl (new_handle mgr tok k opts f) = lo_ttl opts"
  "hs_policy (new_handle mgr tok k opts f) = lo_safety_policy opts"
  by (simp_all add: new_handle_def)

section \<open>What the scripts do\<close>

context redis_server
begin

lemma acquire_free:
  fixes k fk tok t ft n s
  assumes "k \<noteq> fk" "ks s k = None" "ttl_ok (clock s) t" "ttl_ok (clock s) ft"
    and "counter (ks s) fk = Some n" "n < i64_max"
  defines "r \<equiv> acquire_lua exec [k, fk] [tok, show_nat t, show_nat ft] s"
  shows "fst r = Inr (1, n + 1)"
    and "ks (snd r) = (ks s)(k \<mapsto> (VStr tok, Some (clock s + t)),
           fk \<mapsto> (VStr (show_int (n + 1)), Some (clock s + ft)))"
    and "clock (snd r) = clock s"
  using assms(1-6) unfolding r_def acquire_lua_def
  by (simp_all add: lua_simps lcall_simps redis_simps key_expiry_def fun_upd_twist)

lemma acquire_bad_ttl:
  assumes "\<not> ttl_ok (clock s) t"
  shows "(\<exists>e. fst (acquire_lua exec [k, fk] [tok, show_nat t, ft] s) = Inl e) \<and>
    ks (snd (acquire_lua exec [k, fk] [tok, show_nat t, ft] s)) = ks s"
proof -
  obtain e where "doc_step (SET_NX_PX k tok (show_nat t)) (clock s) (ks s) = (RErr e, ks s)"
    using doc_ttl_bad(2) [OF assms] by blast
  then show ?thesis
    unfolding acquire_lua_def by (simp add: lua_simps lcall_simps)
qed

text \<open>A key held under another token, or by another kind of lock, is left alone.\<close>

lemma acquire_other:
  fixes k fk tok t ft s
  assumes "ks s k = Some (v, e)" "v \<noteq> VStr tok"
  defines "r \<equiv> acquire_lua exec [k, fk] [tok, show_nat t, ft] s"
  shows "ks (snd r) = ks s" and "fst r \<in> {Inr (0, 0)} \<union> range Inl"
proof -
  have "ks (snd r) = ks s \<and> fst r \<in> {Inr (0, 0)} \<union> range Inl"
  proof (cases "ttl_ok (clock s) t")
    case True
    with assms(1,2) show ?thesis unfolding r_def acquire_lua_def
      by (cases v) (auto simp: lua_simps lcall_simps redis_simps)
  next
    case False
    then show ?thesis using acquire_bad_ttl [OF False, of k fk tok ft] by (auto simp: r_def)
  qed
  then show "ks (snd r) = ks s" and "fst r \<in> {Inr (0, 0)} \<union> range Inl" by auto
qed

lemma acquire_clock: "clock (snd (acquire_lua exec KEYS ARGV s)) = clock s"
  unfolding acquire_lua_def
  by (simp add: lua_simps clock_lcall split: option.splits sum.splits)

lemma release_clock: "clock (snd (release_lua exec KEYS ARGV s)) = clock s"
  unfolding release_lua_def
  by (simp add: lua_simps clock_lcall split: option.splits sum.splits)

lemma extend_clock: "clock (snd (extend_lua exec KEYS ARGV s)) = clock s"
  unfolding extend_lua_def
  by (simp add: lua_simps clock_lcall split: option.splits sum.splits)

lemmas script_clock = acquire_clock release_clock extend_clock

text \<open>Release and extend are guarded by the stored token.\<close>

lemma release_own:
  assumes "ks s k = Some (VStr tok, e)"
  shows "fst (release_lua exec [k, fk] [tok] s) = Inr 1"
    and "ks (snd (release_lua exec [k, fk] [tok] s)) = (ks s)(k := None)"
  using assms unfolding release_lua_def
  by (simp_all add: lua_simps lcall_simps redis_simps)

lemma release_not_own:
  assumes "\<nexists>e. ks s k = Some (VStr tok, e)"
  shows "fst (release_lua exec (k # KEYS) (tok # ARGV) s) \<in> {Inr 0} \<union> range Inl"
    and "ks (snd (release_lua exec (k # KEYS) (tok # ARGV) s)) = ks s"
  using assms unfolding release_lua_def
  by (auto simp: lua_simps lcall_simps redis_simps split: option.splits rval.splits)

lemma extend_own:
  assumes "k \<noteq> fk" "ks s k = Some (VStr tok, e)" "ttl_ok (clock s) t" "ttl_ok (clock s) ft"
  shows "fst (extend_lua exec [k, fk] [tok, show_nat t, show_nat ft] s) = Inr 1"
    and "ks (snd (extend_lua exec [k, fk] [tok, show_nat t, show_nat ft] s)) =
      (ks s)(k \<mapsto> (VStr tok, Some (clock s + t)),
             fk := map_option (\<lambda>(v, _). (v, Some (clock s + ft))) (ks s fk))"
  using assms unfolding extend_lua_def
  by (auto simp: lua_simps lcall_simps redis_simps fun_upd_idem split: option.splits)

lemma extend_not_own:
  assumes "\<nexists>e. ks s k = Some (VStr tok, e)"
  shows "fst (extend_lua exec (k # KEYS) (tok # ARGV) s) \<in> {Inr 0} \<union> range Inl"
    and "ks (snd (extend_lua exec (k # KEYS) (tok # ARGV) s)) = ks s"
  using assms unfolding extend_lua_def
  by (auto simp: lua_simps lcall_simps redis_simps split: option.splits rval.splits)

lemma acquire_own:
  fixes k fk tok t ft n s
  assumes "k \<noteq> fk" "ks s k = Some (VStr tok, e)" "ttl_ok (clock s) t" "ttl_ok (clock s) ft"
    and "counter (ks s) fk = Some n" "n < i64_max"
  defines "r \<equiv> acquire_lua exec [k, fk] [tok, show_nat t, show_nat ft] s"
  shows "fst r = Inr (2, n + 1)"
    and "ks (snd r) = (ks s)(k \<mapsto> (VStr tok, Some (clock s + t)),
           fk \<mapsto> (VStr (show_int (n + 1)), Some (clock s + ft)))"
  using assms(1-6) unfolding r_def acquire_lua_def
  by (simp_all add: lua_simps lcall_simps redis_simps key_expiry_def fun_upd_twist)

text \<open>Conversely, whatever the arguments, a grant means the key was free or ours, the counter
  was readable and moved by one, and the key now carries our token for the lease.\<close>

lemma acquire_grant:
  fixes k fk tok t ft s
  defines "r \<equiv> acquire_lua exec [k, fk] [tok, show_nat t, show_nat ft] s"
  assumes grant: "fst r = Inr (st, f)" "st = 1 \<or> st = 2" and "k \<noteq> fk"
  shows "ttl_ok (clock s) t"
    and "ks s k = None \<or> (\<exists>e. ks s k = Some (VStr tok, e))"
    and "counter (ks s) fk = Some (f - 1)" and "f \<le> i64_max"
    and "ks (snd r) k = Some (VStr tok, Some (clock s + t))"
    and "ks (snd r) fk \<noteq> None \<Longrightarrow> counter (ks (snd r)) fk = Some f"
    and "ttl_ok (clock s) ft \<Longrightarrow> ks (snd r) fk = Some (VStr (show_int f), Some (clock s + ft))"
proof -
  show t: "ttl_ok (clock s) t"
    using acquire_bad_ttl [of s t k fk tok "show_nat ft"] grant(1) by (auto simp: r_def)
  show free: "ks s k = None \<or> (\<exists>e. ks s k = Some (VStr tok, e))"
  proof (rule ccontr)
    assume "\<not> ?thesis"
    then obtain v e where "ks s k = Some (v, e)" "v \<noteq> VStr tok"
      by (metis not_None_eq surj_pair)
    from acquire_other(2) [OF this, of fk t "show_nat ft"] grant show False
      by (auto simp: r_def)
  qed
  have incr_ok: "\<exists>n. counter (ks s) fk = Some n \<and> n < i64_max"
  proof (rule ccontr)
    assume neg: "\<not> ?thesis"
    let ?m = "(ks s)(k \<mapsto> (VStr tok, Some (clock s + t)))"
    have "counter ?m fk = None \<or> counter ?m fk = Some i64_max"
      using neg counter_range [of "ks s" fk] \<open>k \<noteq> fk\<close> by (cases "counter (ks s) fk") force+
    then obtain e where "doc_step (INCR fk) (clock s) ?m = (RErr e, ?m)"
      using doc_incr_bad by blast
    with grant free t \<open>k \<noteq> fk\<close> show False
      unfolding r_def acquire_lua_def by (auto simp: lua_simps lcall_simps redis_simps)
  qed
  then obtain n where n: "counter (ks s) fk = Some n" "n < i64_max" by blast
  let ?m = "(ks s)(k \<mapsto> (VStr tok, Some (clock s + t)),
      fk \<mapsto> (VStr (show_int (n + 1)), key_expiry (ks s) fk))"
  obtain m' where pex: "(\<exists>e. doc_step (PEXPIRE fk (show_nat ft)) (clock s) ?m = (RErr e, ?m)) \<or>
     (\<exists>j. doc_step (PEXPIRE fk (show_nat ft)) (clock s) ?m = (RInt j, m')) \<and> m' k = ?m k \<and>
       (m' fk = None \<or> counter m' fk = Some (n + 1))"
    using doc_ttl_bad(3) [of "clock s" ft fk ?m] \<open>k \<noteq> fk\<close> n counter_range [OF n(1)]
    by (cases "ttl_ok (clock s) ft") (auto simp: redis_simps counter_str)
  have all: "f = n + 1 \<and> ks (snd r) k = Some (VStr tok, Some (clock s + t)) \<and>
      (ks (snd r) fk = None \<or> counter (ks (snd r)) fk = Some (n + 1))"
    using free
  proof
    assume "ks s k = None"
    with grant t \<open>k \<noteq> fk\<close> n pex show ?thesis
      unfolding r_def acquire_lua_def by (auto simp: lua_simps lcall_simps redis_simps)
  next
    assume "\<exists>e. ks s k = Some (VStr tok, e)"
    with grant t \<open>k \<noteq> fk\<close> n pex show ?thesis
      unfolding r_def acquire_lua_def by (auto simp: lua_simps lcall_simps redis_simps)
  qed
  with n show "counter (ks s) fk = Some (f - 1)" "f \<le> i64_max"
    "ks (snd r) k = Some (VStr tok, Some (clock s + t))"
    "ks (snd r) fk \<noteq> None \<Longrightarrow> counter (ks (snd r)) fk = Some f" by auto
  show "ks (snd r) fk = Some (VStr (show_int f), Some (clock s + ft))" if "ttl_ok (clock s) ft"
    using free acquire_own(2) [OF \<open>k \<noteq> fk\<close> _ t that n] acquire_free(2) [OF \<open>k \<noteq> fk\<close> _ t that n] all n
    by (auto simp: r_def)
qed

text \<open>An extension by the owner, answered or not, either sets the lease to the requested
  length, leaves it alone, or (a requested length of zero) ends it; a reported success excludes
  the middle case.\<close>

lemma extend_effect:
  fixes k fk tok t ft s
  defines "r \<equiv> extend_lua exec [k, fk] [tok, show_nat t, show_nat ft] s"
  assumes own: "ks s k = Some (VStr tok, e)" and "k \<noteq> fk"
  shows "ks (snd r) k = Some (VStr tok, Some (clock s + t)) \<and> 0 < t \<or>
     ks (snd r) k = ks s k \<and> (\<exists>err. fst r = Inl err) \<or> ks (snd r) k = None \<and> t = 0"
proof (cases "ttl_ok (clock s) t")
  case True
  let ?m = "(ks s)(k \<mapsto> (VStr tok, Some (clock s + t)))"
  have "(\<exists>err. doc_step (PEXPIRE fk (show_nat ft)) (clock s) ?m = (RErr err, ?m)) \<or>
     (\<exists>j m'. doc_step (PEXPIRE fk (show_nat ft)) (clock s) ?m = (RInt j, m') \<and> m' k = ?m k)"
    using doc_ttl_bad(3) [of "clock s" ft fk ?m] \<open>k \<noteq> fk\<close>
    by (cases "ttl_ok (clock s) ft") (auto simp: redis_simps split: option.splits)
  with True own have "ks (snd r) k = Some (VStr tok, Some (clock s + t))"
    unfolding r_def extend_lua_def by (auto simp: lua_simps lcall_simps redis_simps)
  with True show ?thesis by (simp add: ttl_ok_def)
next
  case False
  let ?m = "(ks s)(k := None)"
  have "(\<exists>err. doc_step (PEXPIRE fk (show_nat ft)) (clock s) ?m = (RErr err, ?m)) \<or>
     (\<exists>j m'. doc_step (PEXPIRE fk (show_nat ft)) (clock s) ?m = (RInt j, m') \<and> m' k = ?m k)"
    using doc_ttl_bad(3) [of "clock s" ft fk ?m] \<open>k \<noteq> fk\<close>
    by (cases "ttl_ok (clock s) ft") (auto simp: redis_simps split: option.splits)
  with doc_ttl_bad(3) [OF False, of k "ks s"] own show ?thesis
    unfolding r_def extend_lua_def by (auto simp: lua_simps lcall_simps redis_simps)
qed

text \<open>The fence counter never goes back while its key exists, whatever happens to the call.\<close>

lemma acquire_counter:
  fixes k fk tok t ft s
  defines "s' \<equiv> snd (acquire_lua exec [k, fk] [tok, show_nat t, show_nat ft] s)"
  assumes "k \<noteq> fk" and c: "counter (ks s) fk = Some c" and "ks s' fk \<noteq> None"
  shows "\<exists>c' \<ge> c. counter (ks s') fk = Some c'"
proof -
  consider (bad) "\<not> ttl_ok (clock s) t"
    | (other) v e where "ks s k = Some (v, e)" "v \<noteq> VStr tok"
    | (ours) "ttl_ok (clock s) t" "ks s k = None \<or> (\<exists>e. ks s k = Some (VStr tok, e))"
    by (metis not_None_eq surj_pair)
  then show ?thesis
  proof cases
    case bad
    with acquire_bad_ttl c show ?thesis unfolding s'_def by fastforce
  next
    case other
    with acquire_other(1) c show ?thesis unfolding s'_def by fastforce
  next
    case ours
    let ?m = "(ks s)(k \<mapsto> (VStr tok, Some (clock s + t)))"
    show ?thesis
    proof (cases "c < i64_max")
      case True
      let ?m' = "?m(fk \<mapsto> (VStr (show_int (c + 1)), key_expiry (ks s) fk))"
      have rng: "i64_min \<le> c + 1" using counter_range [OF c] by simp
      obtain m' where "(\<exists>e. doc_step (PEXPIRE fk (show_nat ft)) (clock s) ?m' = (RErr e, ?m')) \<or>
          (\<exists>j. doc_step (PEXPIRE fk (show_nat ft)) (clock s) ?m' = (RInt j, m')) \<and>
          (m' fk = None \<or> counter m' fk = Some (c + 1))"
        using doc_ttl_bad(3) [of "clock s" ft fk ?m'] True rng
        by (cases "ttl_ok (clock s) ft") (auto simp: redis_simps counter_str)
      with ours True c rng assms(2,4) have "counter (ks s') fk = Some (c + 1)"
        unfolding s'_def acquire_lua_def
        by (auto simp: lua_simps lcall_simps redis_simps counter_str)
      then show ?thesis by auto
    next
      case False
      with counter_range [OF c] c \<open>k \<noteq> fk\<close> obtain e where
        "doc_step (INCR fk) (clock s) ?m = (RErr e, ?m)"
        using doc_incr_bad [of ?m fk "clock s"] by force
      with ours c assms(2) have "counter (ks s') fk = Some c"
        unfolding s'_def acquire_lua_def by (auto simp: lua_simps lcall_simps redis_simps)
      then show ?thesis by auto
    qed
  qed
qed

lemma pexpire_other: "k \<noteq> k' \<Longrightarrow> snd (doc_step (PEXPIRE k t) now m) k' = m k'"
  by (auto simp: doc_step.simps with_ttl_def split: option.splits)

lemma pexpire_counter:
  "snd (doc_step (PEXPIRE k t) now m) k \<noteq> None \<Longrightarrow> counter (snd (doc_step (PEXPIRE k t) now m)) k = counter m k"
  by (auto simp: doc_step.simps with_ttl_def counter_def split: option.splits rval.splits if_splits)

lemma extend_counter:
  fixes k fk tok a b s
  defines "s' \<equiv> snd (extend_lua exec [k, fk] [tok, a, b] s)"
  assumes "k \<noteq> fk" and "ks s' fk \<noteq> None"
  shows "counter (ks s') fk = counter (ks s) fk"
proof -
  let ?m = "snd (doc_step (PEXPIRE k a) (clock s) (ks s))"
  have other: "counter ?m fk = counter (ks s) fk"
    using pexpire_other [OF \<open>k \<noteq> fk\<close>, of a "clock s" "ks s"] by (simp add: counter_def)
  show ?thesis
  proof (cases "\<exists>e. ks s k = Some (VStr tok, e)")
    case True
    then have "ks s' \<in> {?m, snd (doc_step (PEXPIRE fk b) (clock s) ?m)}"
      unfolding s'_def extend_lua_def
      by (cases "fst (doc_step (PEXPIRE k a) (clock s) (ks s))";
          cases "fst (doc_step (PEXPIRE fk b) (clock s) ?m)")
        (auto simp: lua_simps lcall_simps redis_simps)
    with assms(3) other pexpire_counter show ?thesis by auto
  next
    case False
    then show ?thesis unfolding s'_def by (simp add: extend_not_own(2))
  qed
qed

lemma acquire_frame:
  assumes "x \<noteq> k" "x \<noteq> fk"
  shows "ks (snd (acquire_lua exec [k, fk] [tok, a, b] s)) x = ks s x"
proof -
  have f: "snd (doc_step (SET_NX_PX k v t) now m) x = m x" "snd (doc_step (INCR fk) now m) x = m x" for v t now m
    using assms by (auto simp: doc_step.simps with_ttl_def add_to_string_def split: option.splits rval.splits)
  show ?thesis
    using assms unfolding acquire_lua_def
    by (auto simp: lua_simps ks_lcall f pexpire_other doc_plain split: sum.splits option.splits rval.splits)
qed

lemma release_counter:
  "k \<noteq> fk \<Longrightarrow> ks (snd (release_lua exec [k, fk'] [tok] s)) fk = ks s fk"
  unfolding release_lua_def
  by (auto simp: lua_simps lcall_simps redis_simps split: option.splits rval.splits)

end

lemma fence_key_neq [simp]: "fence_key_for k \<noteq> k" "k \<noteq> fence_key_for k"
  by (auto simp: fence_key_for_def dest: arg_cong [where f = length])

lemma fence_key_inject [simp]: "fence_key_for k = fence_key_for k' \<longleftrightarrow> k = k'"
  by (simp add: fence_key_for_def)

section \<open>Operations on a server that answers\<close>

text \<open>A lease the server can represent: at least the floor, and far enough from the end of the
  signed 64-bit millisecond clock for the counter's tenfold TTL to fit.\<close>

definition lease_ok :: "duration \<Rightarrow> nat \<Rightarrow> bool" where
  "lease_ok ttl now \<longleftrightarrow> MIN_TTL \<le> ttl \<and> int now + 10 * int (as_millis ttl) \<le> i64_max"

lemma ttl_arg_eq: "as_millis ttl < 2 ^ 64 \<Longrightarrow> ttl_arg ttl = show_nat (as_millis ttl)"
  by (simp add: ttl_arg_def unat_as_millis_u64)

lemma fence_ttl_arg_eq:
  "10 * as_millis ttl < 2 ^ 64 \<Longrightarrow> fence_ttl_arg ttl = show_nat (10 * as_millis ttl)"
  by (simp add: fence_ttl_arg_def FENCE_TTL_MULTIPLIER_def as_millis_u64_def unat_word_ariths unat_of_nat)

lemma lease_okD:
  assumes "lease_ok ttl now"
  shows "MIN_TTL \<le> ttl" "ttl_ok now (as_millis ttl)" "ttl_ok now (10 * as_millis ttl)"
    "ttl_arg ttl = show_nat (as_millis ttl)" "fence_ttl_arg ttl = show_nat (10 * as_millis ttl)"
    "as_millis ttl < 2 ^ 64"
  using assms MIN_TTL_millis [of ttl]
  by (auto simp: lease_ok_def ttl_ok_def intro!: ttl_arg_eq fence_ttl_arg_eq)

context redis_server
begin

lemma try_lock_with_free:
  fixes mgr tok
  assumes "lease_ok (lo_ttl opts) (clock s)" "ks s k = None"
    and "counter (ks s) (fence_key_for k) = Some n" "n < i64_max"
  defines "r \<equiv> try_lock_with exec Delivered mgr tok k opts s"
  shows "fst r = Inr (new_handle mgr tok k opts (of_int (n + 1)))"
    and "ks (snd r) = (ks s)(k \<mapsto> (VStr tok, Some (clock s + as_millis (lo_ttl opts))),
       fence_key_for k \<mapsto> (VStr (show_int (n + 1)), Some (clock s + 10 * as_millis (lo_ttl opts))))"
    and "clock (snd r) = clock s"
proof -
  note l = lease_okD [OF assms(1)]
  note a = acquire_free [OF fence_key_neq(2) assms(2) l(2,3) assms(3,4), of tok]
  have "validate opts = Inr ()" using l(1) by (simp add: validate_def)
  then have r: "r = (Inr (new_handle mgr tok k opts (of_int (n + 1))),
      snd (acquire_lua exec [k, fence_key_for k] [tok, ttl_arg (lo_ttl opts), fence_ttl_arg (lo_ttl opts)] s))"
    using a(1) l(4,5) by (simp add: r_def try_lock_with_def invoke_Delivered)
  from r show "fst r = Inr (new_handle mgr tok k opts (of_int (n + 1)))" by simp
  from r a(2,3) l(4,5) show "ks (snd r) = (ks s)(k \<mapsto> (VStr tok, Some (clock s + as_millis (lo_ttl opts))),
       fence_key_for k \<mapsto> (VStr (show_int (n + 1)), Some (clock s + 10 * as_millis (lo_ttl opts))))"
    and "clock (snd r) = clock s" by simp_all
qed

lemma fire_extend_own:
  assumes "lease_ok ttl (clock s)" "hs_fence_key h = fence_key_for (hs_key h)"
    and "ks s (hs_key h) = Some (VStr (hs_token h), e)"
  shows "fst (fire_extend exec Delivered h ttl s) = Inr True"
    and "ks (snd (fire_extend exec Delivered h ttl s)) (hs_key h) =
      Some (VStr (hs_token h), Some (clock s + as_millis ttl))"
    and "clock (snd (fire_extend exec Delivered h ttl s)) = clock s"
proof -
  note l = lease_okD [OF assms(1)]
  note x = extend_own [OF fence_key_neq(2) assms(3) l(2,3)]
  have "fire_extend exec Delivered h ttl s = (Inr True,
     snd (extend_lua exec [hs_key h, hs_fence_key h] [hs_token h, ttl_arg ttl, fence_ttl_arg ttl] s))"
    using x(1) l(4,5) assms(2) by (simp add: fire_extend_def invoke_Delivered)
  with x(2) l(4,5) assms(2) extend_clock show "fst (fire_extend exec Delivered h ttl s) = Inr True"
    and "ks (snd (fire_extend exec Delivered h ttl s)) (hs_key h) =
      Some (VStr (hs_token h), Some (clock s + as_millis ttl))"
    and "clock (snd (fire_extend exec Delivered h ttl s)) = clock s" by simp_all
qed

end

end
