(* ===== verification/Mutex.thy ===== *)
theory Mutex
  imports Single
begin

text \<open>
  Any number of clients of one mutex key, interleaving the operations of \<^verbatim>\<open>single.rs\<close> with the
  passing of time, lost messages and traffic on other keys. A configuration holds the server,
  what every client may believe about its lease, the fences handed out so far (newest first) and
  whether the fence counter has ever disappeared after a grant.

  A client's belief is the instant, on the server's clock, up to which it may consider itself
  the holder: the moment of the grant or of the last confirmed extension plus the lease it
  asked for; an extension whose outcome is unknown can only shorten it, and a release drops it.
  Force-unlock, which skips the ownership check on purpose, is not a step.
\<close>

record 's mutex_cfg =
  srv :: 's
  belief :: "string \<Rightarrow> nat option"
  issued :: "u64 list"
  lapsed :: bool

definition note_lapse :: "('s \<Rightarrow> keyspace) \<Rightarrow> string \<Rightarrow> 's mutex_cfg \<Rightarrow> 's mutex_cfg" where
  "note_lapse ks k c =
     c\<lparr>lapsed := lapsed c \<or> issued c \<noteq> [] \<and> ks (srv c) (fence_key_for k) = None\<rparr>"

definition lease_end :: "('s \<Rightarrow> nat) \<Rightarrow> 's mutex_cfg \<Rightarrow> duration \<Rightarrow> nat" where
  "lease_end clock c ttl = clock (srv c) + as_millis ttl"

inductive mutex_step ::
  "'s server \<Rightarrow> ('s \<Rightarrow> keyspace) \<Rightarrow> ('s \<Rightarrow> nat) \<Rightarrow> (nat \<Rightarrow> 's \<Rightarrow> 's) \<Rightarrow> string \<Rightarrow> 's mutex_cfg \<Rightarrow> 's mutex_cfg \<Rightarrow> bool"
  for exec ks clock pass k where
  grant: "try_lock_with exec d mgr tok k opts (srv c) = (Inr h, s') \<Longrightarrow> belief c tok = None \<Longrightarrow>
    as_millis (lo_ttl opts) < 2 ^ 64 \<Longrightarrow>
    mutex_step exec ks clock pass k c (note_lapse ks k (c\<lparr>srv := s',
      belief := (belief c)(tok \<mapsto> lease_end clock c (lo_ttl opts)),
      issued := fence_value (hs_fence h) # issued c\<rparr>))"
| no_grant: "try_lock_with exec d mgr tok k opts (srv c) = (Inl e, s') \<Longrightarrow> belief c tok = None \<Longrightarrow>
    mutex_step exec ks clock pass k c (note_lapse ks k (c\<lparr>srv := s'\<rparr>))"
| extended: "fire_extend exec d h ttl (srv c) = (Inr True, s') \<Longrightarrow>
    hs_key h = k \<Longrightarrow> hs_fence_key h = fence_key_for k \<Longrightarrow> as_millis ttl < 2 ^ 64 \<Longrightarrow>
    mutex_step exec ks clock pass k c (note_lapse ks k (c\<lparr>srv := s',
      belief := (belief c)(hs_token h \<mapsto> lease_end clock c ttl)\<rparr>))"
| not_extended: "fire_extend exec d h ttl (srv c) = (r, s') \<Longrightarrow> r \<noteq> Inr True \<Longrightarrow>
    hs_key h = k \<Longrightarrow> hs_fence_key h = fence_key_for k \<Longrightarrow> as_millis ttl < 2 ^ 64 \<Longrightarrow>
    mutex_step exec ks clock pass k c (note_lapse ks k (c\<lparr>srv := s',
      belief := (belief c)(hs_token h :=
        map_option (min (lease_end clock c ttl)) (belief c (hs_token h)))\<rparr>))"
| release: "handle_release exec d h (srv c) = (r, h', s') \<Longrightarrow>
    hs_key h = k \<Longrightarrow> hs_fence_key h = fence_key_for k \<Longrightarrow>
    mutex_step exec ks clock pass k c (note_lapse ks k (c\<lparr>srv := s',
      belief := (belief c)(hs_token h := None)\<rparr>))"
| dropped: "handle_drop exec d rt h (srv c) = s' \<Longrightarrow>
    hs_key h = k \<Longrightarrow> hs_fence_key h = fence_key_for k \<Longrightarrow>
    mutex_step exec ks clock pass k c (note_lapse ks k (c\<lparr>srv := s',
      belief := (belief c)(hs_token h := None)\<rparr>))"
| unlocked: "unlock_with_token exec d k tok (srv c) = (r, s') \<Longrightarrow>
    mutex_step exec ks clock pass k c (note_lapse ks k (c\<lparr>srv := s',
      belief := (belief c)(tok := None)\<rparr>))"
| time: "mutex_step exec ks clock pass k c (note_lapse ks k (c\<lparr>srv := pass dt (srv c)\<rparr>))"
| other_keys: "clock s' = clock (srv c) \<Longrightarrow> ks s' k = ks (srv c) k \<Longrightarrow>
    ks s' (fence_key_for k) = ks (srv c) (fence_key_for k) \<Longrightarrow>
    mutex_step exec ks clock pass k c (c\<lparr>srv := s'\<rparr>)"

definition mutex_init :: "('s \<Rightarrow> keyspace) \<Rightarrow> string \<Rightarrow> 's mutex_cfg \<Rightarrow> bool" where
  "mutex_init ks k c \<longleftrightarrow> belief c = Map.empty \<and> issued c = [] \<and>
     (\<exists>n \<ge> 0. counter (ks (srv c)) (fence_key_for k) = Some n)"

inductive mutex_reach ::
  "'s server \<Rightarrow> ('s \<Rightarrow> keyspace) \<Rightarrow> ('s \<Rightarrow> nat) \<Rightarrow> (nat \<Rightarrow> 's \<Rightarrow> 's) \<Rightarrow> string \<Rightarrow> 's mutex_cfg \<Rightarrow> bool"
  for exec ks clock pass k where
  start: "mutex_init ks k c \<Longrightarrow> mutex_reach exec ks clock pass k c"
| step: "mutex_reach exec ks clock pass k c \<Longrightarrow> mutex_step exec ks clock pass k c c' \<Longrightarrow>
    mutex_reach exec ks clock pass k c'"

text \<open>The inductive invariants: a belief that has not run out is backed by the stored key, and
  the counter bounds every fence handed out.\<close>

definition backed :: "('s \<Rightarrow> keyspace) \<Rightarrow> ('s \<Rightarrow> nat) \<Rightarrow> string \<Rightarrow> 's mutex_cfg \<Rightarrow> bool" where
  "backed ks clock k c \<longleftrightarrow> (\<forall>tok b. belief c tok = Some b \<and> clock (srv c) < b \<longrightarrow>
     (\<exists>e. ks (srv c) k = Some (VStr tok, Some e) \<and> b \<le> e))"

definition fences_counted :: "('s \<Rightarrow> keyspace) \<Rightarrow> string \<Rightarrow> 's mutex_cfg \<Rightarrow> bool" where
  "fences_counted ks k c \<longleftrightarrow> lapsed c \<or>
     (\<exists>n \<ge> 0. counter (ks (srv c)) (fence_key_for k) = Some n \<and>
        (\<forall>f \<in> set (issued c). 1 \<le> uint f \<and> uint f \<le> n) \<and> sorted_wrt (>) (issued c))"

lemma note_lapse_simps [simp]:
  "srv (note_lapse ks k c) = srv c" "belief (note_lapse ks k c) = belief c"
  "issued (note_lapse ks k c) = issued c"
  by (simp_all add: note_lapse_def)

lemma backed_note_lapse [simp]: "backed ks clock k (note_lapse ks k c) = backed ks clock k c"
  by (simp add: backed_def)

context redis_server
begin

text \<open>Each operation, reduced to the script it may have run.\<close>

abbreviation acq_state :: "string \<Rightarrow> string \<Rightarrow> duration \<Rightarrow> 's \<Rightarrow> 's" where
  "acq_state k tok ttl s \<equiv>
     snd (acquire_lua exec [k, fence_key_for k] [tok, ttl_arg ttl, fence_ttl_arg ttl] s)"

abbreviation rel_state :: "string \<Rightarrow> string \<Rightarrow> 's \<Rightarrow> 's" where
  "rel_state k tok s \<equiv> snd (release_lua exec [k, fence_key_for k] [tok] s)"

abbreviation ext_state :: "string \<Rightarrow> string \<Rightarrow> duration \<Rightarrow> 's \<Rightarrow> 's" where
  "ext_state k tok ttl s \<equiv>
     snd (extend_lua exec [k, fence_key_for k] [tok, ttl_arg ttl, fence_ttl_arg ttl] s)"

lemma rel_state_ks:
  "ks (rel_state k tok s) = (if \<exists>e. ks s k = Some (VStr tok, e) then (ks s)(k := None) else ks s)"
  using release_own(2) release_not_own(2) by auto

lemma try_lock_with_grant:
  assumes "try_lock_with exec d mgr tok k opts s = (Inr h, s')"
  shows "\<exists>st f. (st = 1 \<or> st = 2) \<and> hs_fence h = FencingToken (of_int f) \<and>
    s' = acq_state k tok (lo_ttl opts) s \<and>
    fst (acquire_lua exec [k, fence_key_for k]
      [tok, ttl_arg (lo_ttl opts), fence_ttl_arg (lo_ttl opts)] s) = Inr (st, f)"
proof -
  let ?P = "acquire_lua exec [k, fence_key_for k]
    [tok, ttl_arg (lo_ttl opts), fence_ttl_arg (lo_ttl opts)]"
  from assms obtain st f t where i: "invoke d ''acquire script failed'' ?P s = (Inr (st, f), t)"
    and "st = 1 \<or> st = 2" "s' = t" "hs_fence h = FencingToken (of_int f)"
    by (auto simp: try_lock_with_def split: sum.splits prod.splits if_splits)
  moreover from i have "fst (?P s) = Inr (st, f) \<and> t = snd (?P s)"
    using invoke_Inr [of d "''acquire script failed''" ?P s "(st, f)"] by simp
  ultimately show ?thesis by blast
qed

lemma try_lock_with_state:
  assumes "try_lock_with exec d mgr tok k opts s = (r, s')"
  shows "s' = s \<or> s' = acq_state k tok (lo_ttl opts) s"
proof -
  have "snd (try_lock_with exec d mgr tok k opts s) \<in> {s, acq_state k tok (lo_ttl opts) s}"
    using invoke_state [of d "''acquire script failed''"
      "acquire_lua exec [k, fence_key_for k] [tok, ttl_arg (lo_ttl opts), fence_ttl_arg (lo_ttl opts)]" s]
    by (auto simp: try_lock_with_def split: sum.splits prod.splits)
  with assms show ?thesis by auto
qed

lemma fire_extend_state:
  assumes "fire_extend exec d h ttl s = (r, s')" "hs_fence_key h = fence_key_for (hs_key h)"
  shows "s' = s \<or> s' = ext_state (hs_key h) (hs_token h) ttl s"
  using assms invoke_state [of d "''extend script failed''"
    "extend_lua exec [hs_key h, hs_fence_key h] [hs_token h, ttl_arg ttl, fence_ttl_arg ttl]" s]
  by (auto simp: fire_extend_def split: sum.splits prod.splits)

lemma fire_extend_True:
  assumes "fire_extend exec d h ttl s = (Inr True, s')" "hs_fence_key h = fence_key_for (hs_key h)"
  shows "s' = ext_state (hs_key h) (hs_token h) ttl s \<and>
    fst (extend_lua exec [hs_key h, fence_key_for (hs_key h)]
      [hs_token h, ttl_arg ttl, fence_ttl_arg ttl] s) = Inr 1"
  using assms invoke_Inr [of d "''extend script failed''"
    "extend_lua exec [hs_key h, hs_fence_key h] [hs_token h, ttl_arg ttl, fence_ttl_arg ttl]" s 1]
  by (auto simp: fire_extend_def split: sum.splits prod.splits)

lemma handle_release_state:
  assumes "handle_release exec d h s = (r, h', s')" "hs_fence_key h = fence_key_for (hs_key h)"
  shows "s' = s \<or> s' = rel_state (hs_key h) (hs_token h) s"
  using assms invoke_state [of d "''release script failed''"
    "release_lua exec [hs_key h, hs_fence_key h] [hs_token h]" s]
  by (auto simp: handle_release_def mark_released_def run_release_def
      split: sum.splits prod.splits if_splits bool.splits)

lemma handle_drop_state:
  assumes "hs_fence_key h = fence_key_for (hs_key h)"
  shows "handle_drop exec d rt h s = s \<or> handle_drop exec d rt h s = rel_state (hs_key h) (hs_token h) s"
  using assms invoke_state [of d "''detached release''"
    "release_lua exec [hs_key h, hs_fence_key h] [hs_token h]" s]
  by (auto simp: handle_drop_def mark_released_def split: bool.splits)

lemma unlock_with_token_state:
  assumes "unlock_with_token exec d k tok s = (r, s')"
  shows "s' = s \<or> s' = rel_state k tok s"
  using assms invoke_state [of d "''unlock failed''" "release_lua exec [k, fence_key_for k] [tok]" s]
  by (auto simp: unlock_with_token_def split: sum.splits prod.splits)

text \<open>Beliefs stay backed.\<close>

lemma backedD:
  "backed ks clock k c \<Longrightarrow> belief c tok = Some b \<Longrightarrow> clock (srv c) < b \<Longrightarrow>
   \<exists>e. ks (srv c) k = Some (VStr tok, Some e) \<and> b \<le> e"
  by (auto simp: backed_def)

lemma backed_release:
  assumes "backed ks clock k c" and "s' = srv c \<or> s' = rel_state k tok (srv c)"
  shows "backed ks clock k (c\<lparr>srv := s', belief := (belief c)(tok := None)\<rparr>)"
  unfolding backed_def
proof (intro allI impI)
  fix u b
  let ?c = "c\<lparr>srv := s', belief := (belief c)(tok := None)\<rparr>"
  assume *: "belief ?c u = Some b \<and> clock (srv ?c) < b"
  have clk: "clock s' = clock (srv c)" using assms(2) by (auto simp: script_clock)
  from * clk have u: "u \<noteq> tok" "belief c u = Some b" "clock (srv c) < b" by (auto split: if_splits)
  then obtain e where e: "ks (srv c) k = Some (VStr u, Some e)" "b \<le> e"
    using backedD [OF assms(1)] by blast
  with u(1) have "ks s' k = ks (srv c) k"
    using assms(2) release_not_own(2) [of "srv c" k tok] by auto
  with e show "\<exists>e. ks (srv ?c) k = Some (VStr u, Some e) \<and> b \<le> e" by simp
qed

lemma backed_no_grant:
  assumes "backed ks clock k c" "belief c tok = None"
    and "s' = srv c \<or> s' = acq_state k tok ttl (srv c)"
  shows "backed ks clock k (c\<lparr>srv := s'\<rparr>)"
  unfolding backed_def
proof (intro allI impI)
  fix u b
  assume *: "belief (c\<lparr>srv := s'\<rparr>) u = Some b \<and> clock (srv (c\<lparr>srv := s'\<rparr>)) < b"
  have "clock s' = clock (srv c)" using assms(3) by (auto simp: script_clock)
  with * obtain e where e: "ks (srv c) k = Some (VStr u, Some e)" "b \<le> e"
    using backedD [OF assms(1), of u b] by auto
  have "u \<noteq> tok" using * assms(2) by auto
  then have "ks s' k = ks (srv c) k"
    using assms(3) acquire_other(1) [OF e(1), of tok] unfolding ttl_arg_def by auto
  with e show "\<exists>e. ks (srv (c\<lparr>srv := s'\<rparr>)) k = Some (VStr u, Some e) \<and> b \<le> e" by simp
qed

lemma backed_grant:
  assumes "backed ks clock k c" "as_millis ttl < 2 ^ 64" "s' = acq_state k tok ttl (srv c)"
    and g: "fst (acquire_lua exec [k, fence_key_for k] [tok, ttl_arg ttl, fence_ttl_arg ttl] (srv c)) =
      Inr (st, f)" "st = 1 \<or> st = 2"
  shows "backed ks clock k (c\<lparr>srv := s', belief := (belief c)(tok \<mapsto> lease_end clock c ttl),
    issued := x\<rparr>)"
  unfolding backed_def
proof (intro allI impI)
  fix u b
  let ?c = "c\<lparr>srv := s', belief := (belief c)(tok \<mapsto> lease_end clock c ttl), issued := x\<rparr>"
  assume *: "belief ?c u = Some b \<and> clock (srv ?c) < b"
  note g' = g [unfolded ttl_arg_eq [OF assms(2)] fence_ttl_arg_def]
  note grant = acquire_grant [OF g' fence_key_neq(2)]
  have new: "ks s' k = Some (VStr tok, Some (clock (srv c) + as_millis ttl))"
    using grant(5) assms(3) by (simp add: ttl_arg_eq [OF assms(2)] fence_ttl_arg_def)
  show "\<exists>e. ks (srv ?c) k = Some (VStr u, Some e) \<and> b \<le> e"
  proof (cases "u = tok")
    case True
    with * new show ?thesis by (simp add: lease_end_def)
  next
    case False
    with * have "belief c u = Some b" "clock (srv c) < b"
      using assms(3) by (auto simp: script_clock)
    then obtain e where "ks (srv c) k = Some (VStr u, Some e)"
      using backedD [OF assms(1)] by blast
    with grant(2) False show ?thesis by auto
  qed
qed

text \<open>An extension: the other clients' beliefs rest on an untouched key, our own is at most
  the lease now stored.\<close>

lemma backed_extend:
  assumes "backed ks clock k c" "as_millis ttl < 2 ^ 64"
    and s': "s' = srv c \<and> \<not> ok \<or> s' = ext_state k tok ttl (srv c) \<and>
      (ok \<longrightarrow> fst (extend_lua exec [k, fence_key_for k] [tok, ttl_arg ttl, fence_ttl_arg ttl] (srv c)) = Inr 1)"
    and b': "b' = (if ok then Some (lease_end clock c ttl)
               else map_option (min (lease_end clock c ttl)) (belief c tok))"
  shows "backed ks clock k (c\<lparr>srv := s', belief := (belief c)(tok := b')\<rparr>)"
  unfolding backed_def
proof (intro allI impI)
  fix u b
  let ?c = "c\<lparr>srv := s', belief := (belief c)(tok := b')\<rparr>"
  assume *: "belief ?c u = Some b \<and> clock (srv ?c) < b"
  have clk: "clock s' = clock (srv c)" using s' by (auto simp: script_clock)
  note args = ttl_arg_eq [OF assms(2)] fence_ttl_arg_def
  show "\<exists>e. ks (srv ?c) k = Some (VStr u, Some e) \<and> b \<le> e"
  proof (cases "u = tok")
    case False
    with * clk obtain e where e: "ks (srv c) k = Some (VStr u, Some e)" "b \<le> e"
      using backedD [OF assms(1), of u b] by auto
    with False have "ks s' k = ks (srv c) k"
      using s' extend_not_own(2) [of "srv c" k tok] by auto
    with e show ?thesis by simp
  next
    case True
    show ?thesis
    proof (cases "\<exists>e. ks (srv c) k = Some (VStr tok, e)")
      case own: True
      then obtain e where e: "ks (srv c) k = Some (VStr tok, e)" by blast
      have old: "\<not> ok \<Longrightarrow> \<exists>b0 e0. belief c tok = Some b0 \<and> b \<le> b0 \<and> b \<le> lease_end clock c ttl \<and>
          e = Some e0 \<and> b0 \<le> e0"
        using * True b' clk e backedD [OF assms(1), of tok] by auto
      have new: "ok \<Longrightarrow> b = lease_end clock c ttl" using * True b' by simp
      from extend_effect [OF e fence_key_neq(2), of "as_millis ttl"
          "unat (as_millis_u64 ttl * FENCE_TTL_MULTIPLIER)"] s' old new * clk e True
      show ?thesis by (cases ok) (auto simp: args lease_end_def)
    next
      case False
      then have "\<not> ok"
        using s' extend_not_own(1) [of "srv c" k tok "[fence_key_for k]" "[ttl_arg ttl, fence_ttl_arg ttl]"]
        by auto
      with * b' True clk False show ?thesis
        using backedD [OF assms(1), of tok] by auto
    qed
  qed
qed

lemma backed_time:
  assumes "backed ks clock k c"
  shows "backed ks clock k (c\<lparr>srv := pass dt (srv c)\<rparr>)"
  using assms unfolding backed_def by (fastforce simp: pass_clock pass_ks expire_def)

lemma mutex_step_backed:
  assumes "mutex_step exec ks clock pass k c c'" "backed ks clock k c"
  shows "backed ks clock k c'"
  using assms
proof (induction rule: mutex_step.induct)
  case (grant d mgr tok opts c h s')
  then show ?case
    using try_lock_with_grant [OF grant(1)] by (auto intro!: backed_grant)
next
  case (no_grant d mgr tok opts c e s')
  then show ?case
    using try_lock_with_state [OF no_grant(1)] by (auto intro!: backed_no_grant)
next
  case (extended d h ttl c s')
  then show ?case
    using fire_extend_True [OF extended(1)]
    by (auto intro!: backed_extend [where ok = True])
next
  case (not_extended d h ttl c r s')
  then show ?case
    using fire_extend_state [OF not_extended(1)]
    by (auto intro!: backed_extend [where ok = False])
next
  case (release d h c r h' s')
  then show ?case
    using handle_release_state [OF release(1)] by (auto intro!: backed_release)
next
  case (dropped d rt h c s')
  then show ?case
    using handle_drop_state [of h d rt "srv c"] by (auto intro!: backed_release)
next
  case (unlocked d tok c r s')
  then show ?case
    using unlock_with_token_state [OF unlocked(1)] by (auto intro!: backed_release)
next
  case (time c dt)
  then show ?case by (simp add: backed_time)
next
  case (other_keys s' c)
  then show ?case by (simp add: backed_def)
qed

lemma mutex_reach_backed: "mutex_reach exec ks clock pass k c \<Longrightarrow> backed ks clock k c"
  by (induction rule: mutex_reach.induct)
    (auto simp: mutex_init_def backed_def intro: mutex_step_backed [unfolded backed_def, rule_format])

text \<open>The counter stays above every fence handed out.\<close>

lemma counted_step:
  assumes "fences_counted ks k c"
    and "\<And>n. counter (ks (srv c)) (fence_key_for k) = Some n \<Longrightarrow> ks s' (fence_key_for k) \<noteq> None \<Longrightarrow>
      \<exists>n' \<ge> n. counter (ks s') (fence_key_for k) = Some n'"
  shows "fences_counted ks k (note_lapse ks k (c\<lparr>srv := s'\<rparr>))"
    and "fences_counted ks k (note_lapse ks k (c\<lparr>srv := s', belief := x\<rparr>))"
proof -
  let ?fk = "fence_key_for k"
  show "fences_counted ks k (note_lapse ks k (c\<lparr>srv := s'\<rparr>))"
  proof (cases "ks s' ?fk = None")
    case True
    then have "counter (ks s') ?fk = Some 0" by (simp add: counter_def)
    with True assms(1) show ?thesis
      by (cases "issued c") (auto simp: fences_counted_def note_lapse_def)
  next
    case False
    with assms show ?thesis unfolding fences_counted_def note_lapse_def by force
  qed
  then show "fences_counted ks k (note_lapse ks k (c\<lparr>srv := s', belief := x\<rparr>))"
    by (simp add: fences_counted_def note_lapse_def)
qed

lemma counted_grant:
  assumes "fences_counted ks k c" "s' = acq_state k tok ttl (srv c)"
    and g: "fst (acquire_lua exec [k, fence_key_for k] [tok, ttl_arg ttl, fence_ttl_arg ttl] (srv c)) =
      Inr (st, f)" "st = 1 \<or> st = 2"
  shows "fences_counted ks k (note_lapse ks k (c\<lparr>srv := s', belief := x, issued := of_int f # issued c\<rparr>))"
proof -
  note grant = acquire_grant [OF g [unfolded ttl_arg_def fence_ttl_arg_def] fence_key_neq(2)]
  have f: "0 \<le> f - 1 \<Longrightarrow> uint (of_int f :: u64) = f"
    using grant(4) by (simp add: uint_word_of_int_eq take_bit_int_eq_self)
  have "ks s' (fence_key_for k) \<noteq> None \<Longrightarrow> counter (ks s') (fence_key_for k) = Some f"
    using grant(6) assms(2) by (simp add: ttl_arg_def fence_ttl_arg_def)
  with assms(1) grant(3) f show ?thesis
    unfolding fences_counted_def note_lapse_def by (force simp: word_less_def)
qed

lemma mutex_step_counted:
  assumes "mutex_step exec ks clock pass k c c'" "fences_counted ks k c"
  shows "fences_counted ks k c'"
  using assms
proof (induction rule: mutex_step.induct)
  case (grant d mgr tok opts c h s')
  then show ?case
    using try_lock_with_grant [OF grant(1)] by (auto intro!: counted_grant)
next
  case (no_grant d mgr tok opts c e s')
  then show ?case
    using try_lock_with_state [OF no_grant(1)]
    by (auto intro!: counted_step intro: acquire_counter simp: ttl_arg_def fence_ttl_arg_def)
next
  case (extended d h ttl c s')
  then show ?case
    using fire_extend_True [OF extended(1)] by (auto intro!: counted_step simp: extend_counter)
next
  case (not_extended d h ttl c r s')
  then show ?case
    using fire_extend_state [OF not_extended(1)] by (auto intro!: counted_step simp: extend_counter)
next
  case (release d h c r h' s')
  then show ?case
    using handle_release_state [OF release(1)]
    by (auto intro!: counted_step simp: counter_def release_counter)
next
  case (dropped d rt h c s')
  then show ?case
    using handle_drop_state [of h d rt "srv c"]
    by (auto intro!: counted_step simp: counter_def release_counter)
next
  case (unlocked d tok c r s')
  then show ?case
    using unlock_with_token_state [OF unlocked(1)]
    by (auto intro!: counted_step simp: counter_def release_counter)
next
  case (time c dt)
  then show ?case
    by (intro counted_step) (auto simp: pass_ks counter_def expire_def split: option.splits if_splits)
next
  case (other_keys s' c)
  then show ?case by (simp add: fences_counted_def counter_def)
qed

lemma mutex_reach_counted: "mutex_reach exec ks clock pass k c \<Longrightarrow> fences_counted ks k c"
proof (induction rule: mutex_reach.induct)
  case (start c)
  then show ?case by (auto simp: mutex_init_def fences_counted_def)
next
  case (step c c')
  then show ?case by (blast intro: mutex_step_counted)
qed

end

section \<open>Properties\<close>

text \<open>Property C1. Mutual exclusion of the Redis mutex. However the operations of any number of
  clients interleave with time and with lost messages, at any reachable moment at most one token
  has a lease that has not run out: two clients that both still believe in theirs are the
  same.\<close>

theorem mutex_mutual_exclusion:
  assumes "redis_server exec ks clock pass" and "mutex_reach exec ks clock pass k c"
    and "belief c t1 = Some b1" "clock (srv c) < b1"
    and "belief c t2 = Some b2" "clock (srv c) < b2"
  shows "t1 = t2"
proof -
  have "backed ks clock k c"
    using assms(1,2) by (rule redis_server.mutex_reach_backed)
  then have "\<exists>e. ks (srv c) k = Some (VStr t1, Some e)" "\<exists>e. ks (srv c) k = Some (VStr t2, Some e)"
    using redis_server.backedD [OF assms(1)] assms(3-6) by blast+
  then show ?thesis by auto
qed

text \<open>A run for the witnesses: one grant of key \<open>k\<close> to \<open>t1\<close> on a fresh
  in-memory server, with default options.\<close>

definition ex_mgr :: RedisLockManager where
  "ex_mgr = \<lparr>default_ttl = from_secs 30, watchdog_default = False\<rparr>"

definition ex_cfg0 :: "mem mutex_cfg" where
  "ex_cfg0 = \<lparr>srv = mem_init, belief = Map.empty, issued = [], lapsed = False\<rparr>"

definition ex_grant :: "HandleShared result \<times> mem" where
  "ex_grant = try_lock_with mem_exec Delivered ex_mgr ''t1'' ''k'' default_options mem_init"

definition ex_cfg1 :: "mem mutex_cfg" where
  "ex_cfg1 = note_lapse mem_ks ''k'' (ex_cfg0\<lparr>srv := snd ex_grant,
     belief := (belief ex_cfg0)(''t1'' \<mapsto> lease_end fst ex_cfg0 (lo_ttl default_options)),
     issued := 1 # issued ex_cfg0\<rparr>)"

lemma ex_init:
  "lease_ok (lo_ttl default_options) (fst mem_init)" "mem_ks mem_init k = None"
  "counter (mem_ks mem_init) k = Some 0"
  by (simp_all add: lease_ok_def default_options_def MIN_TTL_def from_secs_def from_millis_def
      as_millis_def mem_init_def mem_ks_def expire_def counter_def)

lemma ex_grant_simps:
  "fst ex_grant = Inr (new_handle ex_mgr ''t1'' ''k'' default_options 1)"
  "mem_ks (snd ex_grant) = (mem_ks mem_init)(''k'' \<mapsto> (VStr ''t1'', Some 30000),
     fence_key_for ''k'' \<mapsto> (VStr (show_int 1), Some 300000))"
  "fst (snd ex_grant) = 0"
  using mem.try_lock_with_free [OF ex_init, of ex_mgr "''t1''"]
  by (simp_all add: ex_grant_def default_options_def from_secs_def as_millis_def mem_init_def)

lemma ex_cfg0_init: "mutex_init mem_ks ''k'' ex_cfg0"
  by (simp add: mutex_init_def ex_cfg0_def ex_init)

lemma ex_cfg1_step: "mutex_step mem_exec mem_ks fst mem_pass ''k'' ex_cfg0 ex_cfg1"
proof -
  have g: "try_lock_with mem_exec Delivered ex_mgr ''t1'' ''k'' default_options (srv ex_cfg0) =
      (Inr (new_handle ex_mgr ''t1'' ''k'' default_options 1), snd ex_grant)"
    using ex_grant_simps(1) by (metis ex_cfg0_def ex_grant_def mutex_cfg.select_convs(1) prod.collapse)
  show ?thesis
    using mutex_step.grant [OF g, where clock = fst and ks = mem_ks and pass = mem_pass]
    by (simp add: ex_cfg1_def ex_cfg0_def default_options_def from_secs_def as_millis_def)
qed

lemma ex_cfg1_reach: "mutex_reach mem_exec mem_ks fst mem_pass ''k'' ex_cfg1"
  using mutex_reach.step [OF mutex_reach.start [OF ex_cfg0_init] ex_cfg1_step] .

lemma ex_cfg1_simps:
  "belief ex_cfg1 ''t1'' = Some 30000" "fst (srv ex_cfg1) = 0" "issued ex_cfg1 = [1]" "\<not> lapsed ex_cfg1"
  by (simp_all add: ex_cfg1_def note_lapse_def ex_cfg0_def ex_grant_simps lease_end_def mem_init_def
      default_options_def from_secs_def as_millis_def)

theorem mutex_mutual_exclusion_witness:
  "{t. \<exists>b. belief ex_cfg1 t = Some b \<and> fst (srv ex_cfg1) < b} = {''t1''}"
proof -
  have B: "fst (srv ex_cfg1) < 30000" unfolding ex_cfg1_simps(2) by simp
  have "t = ''t1''" if "belief ex_cfg1 t = Some b" "fst (srv ex_cfg1) < b" for t b
    by (rule mutex_mutual_exclusion [OF mem.redis_server_axioms ex_cfg1_reach that ex_cfg1_simps(1) B])
  with B ex_cfg1_simps(1) show ?thesis by blast
qed

text \<open>Property C6. Fencing tokens grow. As long as the fence counter of the key has not
  disappeared since a grant, every fence handed out is strictly greater than all earlier
  ones.\<close>

theorem mutex_fences_increase:
  assumes "redis_server exec ks clock pass" and "mutex_reach exec ks clock pass k c" and "\<not> lapsed c"
  shows "sorted_wrt (\<lambda>new old. supersedes (FencingToken new) (FencingToken old)) (issued c)"
proof -
  have "fences_counted ks k c"
    using assms(1,2) by (rule redis_server.mutex_reach_counted)
  with assms(3) show ?thesis
    by (auto simp: fences_counted_def supersedes_def)
qed

theorem mutex_fences_increase_witness:
  "issued ex_cfg1 = [1] \<and>
   sorted_wrt (\<lambda>new old. supersedes (FencingToken new) (FencingToken old)) (issued ex_cfg1)"
  using mutex_fences_increase [OF mem.redis_server_axioms ex_cfg1_reach ex_cfg1_simps(4)]
    ex_cfg1_simps(3) by simp

text \<open>What a release does, on every branch. A release on a handle that was already
  released or disarmed succeeds without touching the server; otherwise the delivered release
  removes the key and succeeds exactly when the key still carries the handle's token, and leaves
  the server's data alone and reports \<open>Lost\<close> when it carries another string or is gone.
  Every release marks the handle.\<close>

theorem handle_release_branches:
  assumes "redis_server exec ks clock pass"
    and "ks s (hs_key h) = None \<or> (\<exists>v e. ks s (hs_key h) = Some (VStr v, e))"
  shows "case handle_release exec Delivered h s of (r, h', s') \<Rightarrow>
      h' = h\<lparr>hs_released := True\<rparr> \<and>
      (if hs_released h then r = Inr () \<and> s' = s
       else if \<exists>e. ks s (hs_key h) = Some (VStr (hs_token h), e)
            then r = Inr () \<and> ks s' = (ks s)(hs_key h := None)
       else r = Inl (Lost (hs_key h) (fence_value (hs_fence h))) \<and> ks s' = ks s)"
proof -
  let ?P = "release_lua exec [hs_key h, hs_fence_key h] [hs_token h]"
  note own = redis_server.release_own [OF assms(1), of s "hs_key h" "hs_token h"]
  note foreign = redis_server.release_not_own [OF assms(1), of s "hs_key h" "hs_token h"]
  show ?thesis
  proof (cases "\<exists>e. ks s (hs_key h) = Some (VStr (hs_token h), e)")
    case True
    then obtain e where e: "ks s (hs_key h) = Some (VStr (hs_token h), e)" by blast
    then show ?thesis
      using own(1) [OF e] own(2) [OF e]
      by (auto simp: handle_release_def mark_released_def run_release_def invoke_Delivered)
  next
    case False
    have "fst (?P s) = Inr 0"
      using assms(2) False unfolding release_lua_def
      by (auto simp: lua_simps redis_server.lcall_simps [OF assms(1)] redis_simps)
    with False foreign(2) [OF False] show ?thesis
      by (auto simp: handle_release_def mark_released_def run_release_def invoke_Delivered handle_lost_def)
  qed
qed

theorem handle_release_branches_witness:
  "fst (handle_release mem_exec Delivered (new_handle ex_mgr ''t1'' ''k'' default_options 1) (snd ex_grant)) = Inr () \<and>
   fst (handle_release mem_exec Delivered (new_handle ex_mgr ''t2'' ''k'' default_options 7) (snd ex_grant)) =
     Inl (Lost ''k'' 7)"
  using handle_release_branches [OF mem.redis_server_axioms, of "snd ex_grant" "new_handle ex_mgr ''t1'' ''k'' default_options 1"]
    handle_release_branches [OF mem.redis_server_axioms, of "snd ex_grant" "new_handle ex_mgr ''t2'' ''k'' default_options 7"]
  by (auto simp: ex_grant_simps split: prod.splits)

text \<open>Property C33. The fence counter restarts. If a granted key is then left alone for ten times
  its lease, the counter key expires together with the lock, and the next grant gets fence 1
  again, however large the earlier fence was: fences are not monotonic across an idle
  period.\<close>

theorem fence_counter_restarts:
  assumes srv: "redis_server exec ks clock pass"
    and first: "try_lock_with exec d1 mgr1 tok1 k opts1 s = (Inr h1, s1)"
    and wait: "lease_ok (lo_ttl opts1) (clock s)" "10 * as_millis (lo_ttl opts1) \<le> dt"
    and second: "try_lock_with exec d2 mgr2 tok2 k opts2 (pass dt s1) = (Inr h2, s2)"
  shows "hs_fence h2 = FencingToken 1"
proof -
  note l = lease_okD [OF wait(1)]
  obtain st f where g: "st = 1 \<or> st = 2" "s1 = snd (acquire_lua exec [k, fence_key_for k]
      [tok1, show_nat (as_millis (lo_ttl opts1)), show_nat (10 * as_millis (lo_ttl opts1))] s)"
    "fst (acquire_lua exec [k, fence_key_for k]
      [tok1, show_nat (as_millis (lo_ttl opts1)), show_nat (10 * as_millis (lo_ttl opts1))] s) = Inr (st, f)"
    using redis_server.try_lock_with_grant [OF srv first] l(4,5) by auto
  have "ks s1 (fence_key_for k) = Some (VStr (show_int f), Some (clock s + 10 * as_millis (lo_ttl opts1)))"
    using redis_server.acquire_grant(7) [OF srv g(3,1) fence_key_neq(2) l(3)] g(2) by simp
  moreover have "clock s1 = clock s"
    using g(2) by (simp add: redis_server.acquire_clock [OF srv])
  ultimately have "ks (pass dt s1) (fence_key_for k) = None"
    using wait(2) by (simp add: redis_server.pass_ks [OF srv] expire_def)
  then have c: "counter (ks (pass dt s1)) (fence_key_for k) = Some 0" by (simp add: counter_def)
  obtain st' f' where g': "st' = 1 \<or> st' = 2" "hs_fence h2 = FencingToken (of_int f')"
    "fst (acquire_lua exec [k, fence_key_for k]
      [tok2, ttl_arg (lo_ttl opts2), fence_ttl_arg (lo_ttl opts2)] (pass dt s1)) = Inr (st', f')"
    using redis_server.try_lock_with_grant [OF srv second] by auto
  have "counter (ks (pass dt s1)) (fence_key_for k) = Some (f' - 1)"
    by (rule redis_server.acquire_grant(3) [OF srv g'(3) [unfolded ttl_arg_def fence_ttl_arg_def] g'(1) fence_key_neq(2)])
  with c g'(2) show ?thesis by simp
qed

definition ex_regrant :: "HandleShared result \<times> mem" where
  "ex_regrant = try_lock_with mem_exec Delivered ex_mgr ''t2'' ''k'' default_options
     (mem_pass 300000 (snd ex_grant))"

lemma ex_regrant_simps: "ex_regrant = (Inr (new_handle ex_mgr ''t2'' ''k'' default_options 1), snd ex_regrant)"
proof -
  have "mem_ks (mem_pass 300000 (snd ex_grant)) x = None" for x
    by (simp add: mem.pass_ks ex_grant_simps expire_def ex_init)
  then have "fst ex_regrant = Inr (new_handle ex_mgr ''t2'' ''k'' default_options (of_int (0 + 1)))"
    unfolding ex_regrant_def
    by (intro mem.try_lock_with_free(1))
      (simp_all add: counter_def mem.pass_clock ex_grant_simps lease_ok_def default_options_def
        MIN_TTL_def from_secs_def from_millis_def as_millis_def)
  then show ?thesis by (simp add: prod_eq_iff)
qed

theorem fence_counter_restarts_witness:
  "hs_fence (projr (fst ex_grant)) = FencingToken 1 \<and> hs_fence (projr (fst ex_regrant)) = FencingToken 1"
proof -
  have "ex_grant = (Inr (new_handle ex_mgr ''t1'' ''k'' default_options 1), snd ex_grant)"
    by (simp add: prod_eq_iff ex_grant_simps)
  from fence_counter_restarts [OF mem.redis_server_axioms this [unfolded ex_grant_def]
      ex_init(1) _ ex_regrant_simps [unfolded ex_regrant_def ex_grant_def]]
  show ?thesis
    using ex_regrant_simps
    by (simp add: ex_grant_simps default_options_def from_secs_def as_millis_def) (metis fst_conv new_handle_simps(4) sum.sel(2))
qed

text \<open>A polling acquisition with a deadline answers as soon as one attempt hits its own time limit or
  is followed by a reading of the clock at or past the deadline, and the answer is never \<open>Held\<close>.\<close>

lemma try_lock_for_answers:
  assumes "instant_checked_add now wait = Some dl"
    and "\<exists>a \<in> set as. dl \<le> at_now a \<or> at_elapsed a"
  shows "\<exists>r t. try_lock_for exec mgr now key opts wait as s = Some (r, t) \<and> (\<forall>k. r \<noteq> Inl (Held k))"
  using assms(2) unfolding try_lock_for_def assms(1)
proof (induction as arbitrary: s)
  case (Cons a as)
  obtain r t where r: "try_lock_with exec (at_delivery a) mgr (at_token a) key opts (at_env a s) = (r, t)"
    by fastforce
  have "\<not> is_ok (validate opts) \<longrightarrow> (\<forall>k. r \<noteq> Inl (Held k))"
    using r by (auto simp: try_lock_with_def validate_def split: if_splits)
  with Cons r show ?case
    by (cases "at_elapsed a"; cases "dl \<le> at_now a") (auto split: sum.splits error.splits)
qed simp

text \<open>An unreadable fence counter leaks the lock. If the counter key of a free lock
  holds something that is not a 64-bit decimal (as happens when a lock is taken under the name
  of another lock's counter key), an acquisition reports a backend error to its caller and yet
  leaves the key taken under the caller's token for the whole lease.\<close>

theorem unreadable_counter_leaks_lock:
  assumes srv: "redis_server exec ks clock pass"
    and "lease_ok (lo_ttl opts) (clock s)" "ks s k = None" "counter (ks s) (fence_key_for k) = None"
  shows "fst (try_lock_with exec Delivered mgr tok k opts s) = Inl (Backend ''acquire script failed'') \<and>
    ks (snd (try_lock_with exec Delivered mgr tok k opts s)) k =
      Some (VStr tok, Some (clock s + as_millis (lo_ttl opts)))"
proof -
  note l = lease_okD [OF assms(2)]
  let ?m = "(ks s)(k \<mapsto> (VStr tok, Some (clock s + as_millis (lo_ttl opts))))"
  have "counter ?m (fence_key_for k) = None"
    using assms(4) fence_key_neq [of k] by simp
  then obtain e where e: "doc_step (INCR (fence_key_for k)) (clock s) ?m = (RErr e, ?m)"
    using doc_incr_bad by blast
  let ?r = "acquire_lua exec [k, fence_key_for k] [tok, ttl_arg (lo_ttl opts), fence_ttl_arg (lo_ttl opts)] s"
  have r: "fst ?r = Inl (RedisError e) \<and> ks (snd ?r) = ?m"
    using assms(3) e l(2) unfolding acquire_lua_def l(4)
    by (simp add: lua_simps redis_server.lcall_simps [OF srv] redis_simps)
  have "validate opts = Inr ()" using l(1) by (simp add: validate_def)
  with r show ?thesis
    by (simp add: try_lock_with_def invoke_def split_beta split: sum.splits)
qed

theorem unreadable_counter_leaks_lock_witness:
  "mem_ks (snd (try_lock_with mem_exec Delivered ex_mgr ''t2'' ''a'' default_options
     (snd (try_lock_with mem_exec Delivered ex_mgr ''t1'' (fence_key_for ''a'') default_options mem_init)))) ''a'' =
   Some (VStr ''t2'', Some 30000)"
proof -
  let ?s = "snd (try_lock_with mem_exec Delivered ex_mgr ''t1'' (fence_key_for ''a'') default_options mem_init)"
  note f = mem.try_lock_with_free(2,3) [OF ex_init, of ex_mgr "''t1''" "fence_key_for ''a''"]
  have "mem_ks ?s ''a'' = None" "counter (mem_ks ?s) (fence_key_for ''a'') = None" "fst ?s = 0"
    using f by (simp_all add: ex_init fence_key_for_def counter_def redis_int_def parse_int_def
        parse_nat_def digit_val_def mem_init_def mem_ks_def expire_def)
  then show ?thesis
    using unreadable_counter_leaks_lock [OF mem.redis_server_axioms, of default_options ?s "''a''" ex_mgr "''t2''"]
      ex_init(1) by (simp add: mem_init_def default_options_def from_secs_def as_millis_def)
qed

end
