(* ===== verification/Watchdog.thy ===== *)
theory Watchdog
  imports Single
begin

text \<open>
  The renewal task over many wake-ups: how many consecutive renewal errors each safety policy
  tolerates, and that a watchdog whose renewals arrive in time keeps the lease for ever.
\<close>

fun watchdog_ticks ::
  "'s server \<Rightarrow> delivery list \<Rightarrow> watchdog \<times> HandleShared \<times> 's \<Rightarrow> watchdog \<times> HandleShared \<times> 's" where
  "watchdog_ticks exec [] x = x"
| "watchdog_ticks exec (d # ds) (w, h, s) = watchdog_ticks exec ds (watchdog_tick exec d True w h s)"

text \<open>Rounds of waiting while other clients act (\<open>env\<close>) and then renewing with an
  answered call.\<close>

fun watchdog_rounds ::
  "'s server \<Rightarrow> ('s \<Rightarrow> 's) list \<Rightarrow> watchdog \<times> HandleShared \<times> 's \<Rightarrow> watchdog \<times> HandleShared \<times> 's" where
  "watchdog_rounds exec [] x = x"
| "watchdog_rounds exec (env # envs) (w, h, s) =
     watchdog_rounds exec envs (watchdog_tick exec Delivered True w h (env s))"

text \<open>What the holder relies on between two renewals: less than one lease of time passes, and
  nobody touches the key while its holder's lease runs. Competing acquisitions and foreign
  releases are such environments (\<open>acquire_other\<close>, \<open>release_not_own\<close>).\<close>

definition quiet ::
  "('s \<Rightarrow> keyspace) \<Rightarrow> ('s \<Rightarrow> nat) \<Rightarrow> string \<Rightarrow> nat \<Rightarrow> ('s \<Rightarrow> 's) \<Rightarrow> bool" where
  "quiet ks clock k lease env \<longleftrightarrow>
     (\<forall>s. clock (env s) < clock s + lease \<and>
        (\<forall>v e. ks s k = Some (v, Some e) \<longrightarrow> clock (env s) < e \<longrightarrow> ks (env s) k = Some (v, Some e)))"

lemma fire_extend_error: "d \<noteq> Delivered \<Longrightarrow> \<exists>e. fst (fire_extend exec d h ttl s) = Inl e"
  by (cases d) (auto simp: fire_extend_def invoke_def)

lemma watchdog_tick_stopped: "\<not> wd_running w \<Longrightarrow> watchdog_tick exec d alive w h s = (w, h, s)"
  by (simp add: watchdog_tick_def)

lemma watchdog_ticks_stopped: "\<not> wd_running w \<Longrightarrow> watchdog_ticks exec ds (w, h, s) = (w, h, s)"
  by (induction ds) (simp_all add: watchdog_tick_stopped)

lemma watchdog_tick_error:
  assumes "d \<noteq> Delivered" "wd_running w" "\<not> hs_released h"
  shows "\<exists>t. watchdog_tick exec d True w h s =
    (if wd_failures w + 1 > max_transient_failures (hs_policy h)
     then (w\<lparr>wd_failures := wd_failures w + 1, wd_running := False\<rparr>, mark_lost h, t)
     else (w\<lparr>wd_failures := wd_failures w + 1\<rparr>, h, t))"
  using fire_extend_error [OF assms(1), of exec h "hs_ttl h" s] assms(2,3)
  by (auto simp: watchdog_tick_def Let_def split: prod.splits)

lemma watchdog_errors_tolerated:
  assumes "\<forall>d \<in> set ds. d \<noteq> Delivered" "wd_running w" "\<not> hs_released h" "\<not> hs_poisoned h"
    and "unat (wd_failures w) + length ds \<le> unat (max_transient_failures (hs_policy h))"
  shows "\<exists>s'. watchdog_ticks exec ds (w, h, s) = (w\<lparr>wd_failures := wd_failures w + of_nat (length ds)\<rparr>, h, s')"
  using assms
proof (induction ds arbitrary: w s)
  case (Cons d ds)
  have lt: "unat (wd_failures w) + 1 \<le> unat (max_transient_failures (hs_policy h))"
    using Cons.prems(5) by simp
  moreover have "unat (max_transient_failures (hs_policy h)) < 2 ^ LENGTH(32)"
    by (rule unsigned_less)
  ultimately have unat: "unat (wd_failures w + 1) = unat (wd_failures w) + 1"
    by (simp add: unat_word_ariths)
  then have "\<not> wd_failures w + 1 > max_transient_failures (hs_policy h)"
    using lt by (simp add: word_less_nat_alt)
  then obtain t where "watchdog_tick exec d True w h s = (w\<lparr>wd_failures := wd_failures w + 1\<rparr>, h, t)"
    using watchdog_tick_error [of d w h exec s] Cons.prems by auto
  moreover have "\<exists>s'. watchdog_ticks exec ds (w\<lparr>wd_failures := wd_failures w + 1\<rparr>, h, t) =
      (w\<lparr>wd_failures := wd_failures w + 1 + of_nat (length ds)\<rparr>, h, s')"
    using Cons.IH [of "w\<lparr>wd_failures := wd_failures w + 1\<rparr>" t] Cons.prems unat by simp
  ultimately show ?case by (simp add: algebra_simps)
qed simp

lemma watchdog_aggressive_tolerates:
  assumes "\<forall>d \<in> set ds. d \<noteq> Delivered" "wd_running w" "\<not> hs_released h" "hs_policy h = Aggressive"
  shows "\<exists>w' s'. watchdog_ticks exec ds (w, h, s) = (w', h, s') \<and> wd_running w'"
  using assms
proof (induction ds arbitrary: w s)
  case (Cons d ds)
  have "\<not> wd_failures w + 1 > max_transient_failures (hs_policy h)"
    using Cons.prems(4) by (simp add: max_transient_failures_def word_not_simps)
  then obtain t where "watchdog_tick exec d True w h s = (w\<lparr>wd_failures := wd_failures w + 1\<rparr>, h, t)"
    using watchdog_tick_error [of d w h exec s] Cons.prems by auto
  with Cons show ?case by simp
qed simp

lemma watchdog_surrenders:
  assumes "\<forall>d \<in> set ds. d \<noteq> Delivered" "\<not> hs_released h" "\<not> hs_poisoned h" "hs_policy h \<noteq> Aggressive"
    and "unat (max_transient_failures (hs_policy h)) < length ds"
  shows "hs_poisoned (fst (snd (watchdog_ticks exec ds (spawn_watchdog, h, s))))"
proof -
  let ?m = "unat (max_transient_failures (hs_policy h))"
  have small: "?m \<le> 2"
    using assms(4) by (cases "hs_policy h") (simp_all add: max_transient_failures_def)
  obtain d rest where split: "ds = take ?m ds @ d # rest" "length (take ?m ds) = ?m"
    using assms(5) id_take_nth_drop by (metis length_take min.absorb4 nat_less_le)
  obtain s1 where ticks: "watchdog_ticks exec (take ?m ds) (spawn_watchdog, h, s) =
      (spawn_watchdog\<lparr>wd_failures := of_nat ?m\<rparr>, h, s1)"
    using watchdog_errors_tolerated [of "take ?m ds" spawn_watchdog h exec s] assms(1-3) split(2)
    by (auto simp: spawn_watchdog_def dest: in_set_takeD)
  have append: "watchdog_ticks exec (xs @ ys) x = watchdog_ticks exec ys (watchdog_ticks exec xs x)" for xs ys x
    by (induction exec xs x rule: watchdog_ticks.induct) simp_all
  have d: "d \<noteq> Delivered" using assms(1) split(1) by (metis in_set_conv_decomp)
  have over: "max_transient_failures (hs_policy h) < of_nat ?m + 1"
    using assms(4) by (cases "hs_policy h") (simp_all add: max_transient_failures_def)
  obtain w s2 where "watchdog_tick exec d True (spawn_watchdog\<lparr>wd_failures := of_nat ?m\<rparr>) h s1 =
      (w, mark_lost h, s2)" "\<not> wd_running w"
    using watchdog_tick_error [OF d, of "spawn_watchdog\<lparr>wd_failures := of_nat ?m\<rparr>" h exec s1] assms(2) over
    by (auto simp: spawn_watchdog_def)
  then have "watchdog_ticks exec ds (spawn_watchdog, h, s) = (w, mark_lost h, s2)"
    by (subst split(1)) (simp add: append ticks watchdog_ticks_stopped)
  then show ?thesis by (simp add: mark_lost_def)
qed

lemma lease_ok_mono: "lease_ok ttl b \<Longrightarrow> a \<le> b \<Longrightarrow> lease_ok ttl a"
  by (auto simp: lease_ok_def)

context redis_server
begin

lemma quiet_pass: "dt < lease \<Longrightarrow> quiet ks clock k lease (pass dt)"
  by (simp add: quiet_def pass_clock pass_ks expire_def)

lemma watchdog_tick_own:
  assumes "lease_ok (hs_ttl h) (clock s)" "hs_fence_key h = fence_key_for (hs_key h)"
    and "ks s (hs_key h) = Some (VStr (hs_token h), e)" "wd_running w" "\<not> hs_released h"
  shows "\<exists>t. watchdog_tick exec Delivered True w h s = (w\<lparr>wd_failures := 0\<rparr>, h, t) \<and> clock t = clock s \<and>
    ks t (hs_key h) = Some (VStr (hs_token h), Some (clock s + as_millis (hs_ttl h)))"
  using fire_extend_own [OF assms(1-3)] assms(4,5)
  by (cases "fire_extend exec Delivered h (hs_ttl h) s") (simp add: watchdog_tick_def)

lemma watchdog_rounds_own:
  assumes "list_all (quiet ks clock (hs_key h) (as_millis (hs_ttl h))) envs"
    and "lease_ok (hs_ttl h) (clock s + length envs * as_millis (hs_ttl h))"
    and "hs_fence_key h = fence_key_for (hs_key h)" "wd_running w" "\<not> hs_released h"
    and "ks s (hs_key h) = Some (VStr (hs_token h), Some (clock s + as_millis (hs_ttl h)))"
  shows "\<exists>w' t. watchdog_rounds exec envs (w, h, s) = (w', h, t) \<and> wd_running w' \<and>
    ks t (hs_key h) = Some (VStr (hs_token h), Some (clock t + as_millis (hs_ttl h)))"
  using assms
proof (induction envs arbitrary: w s)
  case (Cons env envs)
  have q: "clock (env s) < clock s + as_millis (hs_ttl h)"
    "ks (env s) (hs_key h) = Some (VStr (hs_token h), Some (clock s + as_millis (hs_ttl h)))"
    using Cons.prems(1,6) by (auto simp: quiet_def)
  then have le: "clock (env s) + length envs * as_millis (hs_ttl h) \<le>
      clock s + length (env # envs) * as_millis (hs_ttl h)" by simp
  then have "lease_ok (hs_ttl h) (clock (env s))"
    using lease_ok_mono [OF Cons.prems(2)] by simp
  then obtain t where t: "watchdog_tick exec Delivered True w h (env s) = (w\<lparr>wd_failures := 0\<rparr>, h, t)"
    "clock t = clock (env s)"
    "ks t (hs_key h) = Some (VStr (hs_token h), Some (clock (env s) + as_millis (hs_ttl h)))"
    using watchdog_tick_own [OF _ Cons.prems(3) q(2) Cons.prems(4,5)] by blast
  with Cons.IH [of t "w\<lparr>wd_failures := 0\<rparr>"] Cons.prems lease_ok_mono [OF Cons.prems(2) le]
  show ?case by simp
qed auto

end

section \<open>Properties\<close>

text \<open>Property C34. The safety policy decides how many consecutive renewal errors are survived:
  after any run of failed renewals the handle is poisoned exactly when the run is longer than the
  policy's budget (0 for Cowardly, 2 for Balanced), and under Aggressive it never is, even when
  the 32-bit failure counter wraps.\<close>

theorem watchdog_policy:
  assumes "\<forall>d \<in> set ds. d \<noteq> Delivered" "\<not> hs_released h" "\<not> hs_poisoned h"
  shows "hs_poisoned (fst (snd (watchdog_ticks exec ds (spawn_watchdog, h, s)))) \<longleftrightarrow>
    (case hs_policy h of Cowardly \<Rightarrow> 1 \<le> length ds | Balanced \<Rightarrow> 3 \<le> length ds | Aggressive \<Rightarrow> False)"
proof (cases "hs_policy h = Aggressive")
  case True
  then show ?thesis
    using watchdog_aggressive_tolerates [OF assms(1), of spawn_watchdog h exec s] assms(2,3)
    by (auto simp: spawn_watchdog_def)
next
  case False
  have m: "unat (max_transient_failures (hs_policy h)) = (if hs_policy h = Cowardly then 0 else 2)"
    using False by (cases "hs_policy h") (simp_all add: max_transient_failures_def)
  show ?thesis
  proof (cases "unat (max_transient_failures (hs_policy h)) < length ds")
    case True
    then show ?thesis
      using watchdog_surrenders [OF assms False True, of exec s] m False
      by (cases "hs_policy h") (auto simp: Suc_le_eq)
  next
    case short: False
    then show ?thesis
      using watchdog_errors_tolerated [OF assms(1), of spawn_watchdog h exec s] assms(2,3) m False
      by (cases "hs_policy h") (auto simp: spawn_watchdog_def)
  qed
qed

definition ex_held :: HandleShared where
  "ex_held = new_handle \<lparr>default_ttl = from_secs 30, watchdog_default = True\<rparr> ''t1'' ''k'' default_options 1"

theorem watchdog_policy_witness:
  "\<not> hs_poisoned (fst (snd (watchdog_ticks mem_exec [NotSent, ReplyLost] (spawn_watchdog, ex_held, mem_init)))) \<and>
   hs_poisoned (fst (snd (watchdog_ticks mem_exec [NotSent, ReplyLost, NotSent] (spawn_watchdog, ex_held, mem_init))))"
  using watchdog_policy [of "[NotSent, ReplyLost]" ex_held mem_exec mem_init]
    watchdog_policy [of "[NotSent, ReplyLost, NotSent]" ex_held mem_exec mem_init]
  by (simp add: ex_held_def default_options_def)

text \<open>Property C15. A renewed lease never lapses. If every renewal is answered, the task always
  wakes before the lease it last obtained runs out, and nobody overwrites a live key, then after
  any number of rounds the task is still running, the handle has been neither poisoned nor lost,
  and the key carries the holder's token with a full lease ahead.\<close>

theorem watchdog_keeps_lease:
  assumes "redis_server exec ks clock pass"
    and "list_all (quiet ks clock (hs_key h) (as_millis (hs_ttl h))) envs"
    and "lease_ok (hs_ttl h) (clock s + length envs * as_millis (hs_ttl h))"
    and "hs_fence_key h = fence_key_for (hs_key h)" "\<not> hs_released h"
    and "ks s (hs_key h) = Some (VStr (hs_token h), Some (clock s + as_millis (hs_ttl h)))"
  shows "case watchdog_rounds exec envs (spawn_watchdog, h, s) of (w, h', t) \<Rightarrow>
    wd_running w \<and> h' = h \<and>
    ks t (hs_key h) = Some (VStr (hs_token h), Some (clock t + as_millis (hs_ttl h)))"
  using redis_server.watchdog_rounds_own [OF assms(1-4) _ assms(5,6), of spawn_watchdog]
  by (auto simp: spawn_watchdog_def)

definition ex_held_srv :: mem where
  "ex_held_srv = (0, [''k'' \<mapsto> (VStr ''t1'', Some 30000)])"

theorem watchdog_keeps_lease_witness:
  "fst (snd (watchdog_rounds mem_exec (replicate 100 (mem_pass 10000)) (spawn_watchdog, ex_held, ex_held_srv))) = ex_held"
proof -
  have "list_all (quiet mem_ks fst ''k'' 30000) (replicate 100 (mem_pass 10000))"
    by (auto simp: list_all_iff mem.quiet_pass)
  then show ?thesis
    using watchdog_keeps_lease [OF mem.redis_server_axioms, of ex_held "replicate 100 (mem_pass 10000)" ex_held_srv]
    by (auto simp: ex_held_def ex_held_srv_def default_options_def mem_ks_def expire_def lease_ok_def
        MIN_TTL_def from_secs_def from_millis_def as_millis_def split: prod.splits)
qed

end
