(* ===== verification/Refine.thy ===== *)
theory Refine
  imports Prelude
begin

text \<open>
  The contract between an abstract lock and the scripts that implement it, stated once. A
  component that is a state machine gives an abstract step, a concrete step, the range in which
  the server can follow and the abstraction relation, and proves the one-step law; runs of any
  length then agree. The specifications of the reentrant lock and of the read-write lock are
  connected to their scripts through this interface.
\<close>

fun run_ops :: "('op \<Rightarrow> 'a \<Rightarrow> 'r \<times> 'a) \<Rightarrow> 'op list \<Rightarrow> 'a \<Rightarrow> 'r list \<times> 'a" where
  "run_ops step [] a = ([], a)"
| "run_ops step (op # ops) a =
     (case step op a of (r, a') \<Rightarrow> case run_ops step ops a' of (rs, a'') \<Rightarrow> (r # rs, a''))"

fun run_within :: "('op \<Rightarrow> 'a \<Rightarrow> bool) \<Rightarrow> ('op \<Rightarrow> 'a \<Rightarrow> 'r \<times> 'a) \<Rightarrow> 'op list \<Rightarrow> 'a \<Rightarrow> bool" where
  "run_within ok step [] a \<longleftrightarrow> True"
| "run_within ok step (op # ops) a \<longleftrightarrow> ok op a \<and> run_within ok step ops (snd (step op a))"

locale refinement =
  fixes spec :: "'op \<Rightarrow> 'a \<Rightarrow> 'r \<times> 'a"
    and impl :: "'op \<Rightarrow> 's \<Rightarrow> ('e + 'r) \<times> 's"
    and within :: "'op \<Rightarrow> 'a \<Rightarrow> bool"
    and sim :: "'s \<Rightarrow> 'a \<Rightarrow> bool"
  assumes step_refines: "sim s a \<Longrightarrow> within op a \<Longrightarrow>
    fst (impl op s) = Inr (fst (spec op a)) \<and> sim (snd (impl op s)) (snd (spec op a))"
begin

lemma run_refines:
  assumes "sim s a" "run_within within spec ops a"
  shows "fst (run_ops impl ops s) = map Inr (fst (run_ops spec ops a)) \<and>
    sim (snd (run_ops impl ops s)) (snd (run_ops spec ops a))"
  using assms
proof (induction ops arbitrary: s a)
  case (Cons op ops)
  have "fst (impl op s) = Inr (fst (spec op a))" "sim (snd (impl op s)) (snd (spec op a))"
    using step_refines [OF Cons.prems(1)] Cons.prems(2) by auto
  with Cons.IH [OF this(2)] Cons.prems(2) show ?case by (simp add: split_beta)
qed simp

text \<open>An invariant of the abstract machine holds in every state a run represents.\<close>

lemma run_invariant:
  assumes "sim s a" "run_within within spec ops a" "I a"
    and "\<And>op a. I a \<Longrightarrow> within op a \<Longrightarrow> I (snd (spec op a))"
  shows "\<exists>b. sim (snd (run_ops impl ops s)) b \<and> I b"
  using assms(1-3)
proof (induction ops arbitrary: s a)
  case (Cons op ops)
  have "sim (snd (impl op s)) (snd (spec op a))" "I (snd (spec op a))"
    using step_refines [OF Cons.prems(1)] Cons.prems(2,3) assms(4) by auto
  with Cons.IH [OF this(1) _ this(2)] Cons.prems(2) show ?case by (auto simp: split_beta)
qed auto

end

end
