(* ===== verification/Reentrant.thy ===== *)
theory Reentrant
  imports Single Refine
begin

text \<open>
  The reentrant mutex of \<^verbatim>\<open>crates/redis/src/reentrant.rs\<close> and its four scripts: a hash with the
  owner and a hold count. An abstract specification (who holds it, how often, until when) comes
  with a refinement theorem over arbitrary sequences of operations of any number of owners and
  of passing time.
\<close>

section \<open>Scripts\<close>

definition reentrant_acquire_lua :: "'s server \<Rightarrow> string list \<Rightarrow> string list \<Rightarrow> ('s, int \<times> int) lua" where
  "reentrant_acquire_lua exec KEYS ARGV =
     lbind (call1 exec EXISTS (lua_arg KEYS 1)) (\<lambda>x.
     if rint x = 0 then
       lbind (call2 exec (\<lambda>k v. HSET k [(''owner'', v), (''count'', ''1'')]) (lua_arg KEYS 1) (lua_arg ARGV 1)) (\<lambda>_.
       lbind (call2 exec PEXPIRE (lua_arg KEYS 1) (lua_arg ARGV 2)) (\<lambda>_.
       lbind (call1 exec INCR (lua_arg KEYS 2)) (\<lambda>fence.
       lret (1, rint fence))))
     else
       lbind (call1 exec (\<lambda>k. HGET k ''owner'') (lua_arg KEYS 1)) (\<lambda>v.
       if bulk_eq v (lua_arg ARGV 1) then
         lbind (call1 exec (\<lambda>k. HINCRBY k ''count'' 1) (lua_arg KEYS 1)) (\<lambda>_.
         lbind (call2 exec PEXPIRE (lua_arg KEYS 1) (lua_arg ARGV 2)) (\<lambda>_.
         lbind (call1 exec INCR (lua_arg KEYS 2)) (\<lambda>fence.
         lret (2, rint fence))))
       else lret (0, 0)))"

definition reentrant_release_lua :: "'s server \<Rightarrow> string list \<Rightarrow> string list \<Rightarrow> ('s, int) lua" where
  "reentrant_release_lua exec KEYS ARGV =
     lbind (call1 exec EXISTS (lua_arg KEYS 1)) (\<lambda>x.
     if rint x = 0 then lret (- 1)
     else lbind (call1 exec (\<lambda>k. HGET k ''owner'') (lua_arg KEYS 1)) (\<lambda>v.
     if \<not> bulk_eq v (lua_arg ARGV 1) then lret (- 1)
     else lbind (call1 exec (\<lambda>k. HINCRBY k ''count'' (- 1)) (lua_arg KEYS 1)) (\<lambda>c.
     if rint c \<le> 0 then
       lbind (call1 exec DEL (lua_arg KEYS 1)) (\<lambda>_. lret 0)
     else lua_num (lua_arg ARGV 2) (\<lambda>ttl.
       if ttl > 0
       then lbind (call2 exec PEXPIRE (lua_arg KEYS 1) (lua_arg ARGV 2)) (\<lambda>_. lret (rint c))
       else lret (rint c)))))"

definition reentrant_release_all_lua :: "'s server \<Rightarrow> string list \<Rightarrow> string list \<Rightarrow> ('s, int) lua" where
  "reentrant_release_all_lua exec KEYS ARGV =
     lbind (call1 exec EXISTS (lua_arg KEYS 1)) (\<lambda>x.
     if rint x = 0 then lret (- 1)
     else lbind (call1 exec (\<lambda>k. HGET k ''owner'') (lua_arg KEYS 1)) (\<lambda>v.
     if bulk_eq v (lua_arg ARGV 1)
     then lbind (call1 exec DEL (lua_arg KEYS 1)) (\<lambda>_. lret 1)
     else lret (- 1)))"

definition reentrant_extend_lua :: "'s server \<Rightarrow> string list \<Rightarrow> string list \<Rightarrow> ('s, int) lua" where
  "reentrant_extend_lua exec KEYS ARGV =
     lbind (call1 exec EXISTS (lua_arg KEYS 1)) (\<lambda>x.
     if rint x = 0 then lret (- 1)
     else lbind (call1 exec (\<lambda>k. HGET k ''owner'') (lua_arg KEYS 1)) (\<lambda>v.
     if bulk_eq v (lua_arg ARGV 1)
     then lbind (call2 exec PEXPIRE (lua_arg KEYS 1) (lua_arg ARGV 2)) (\<lambda>_. lret 1)
     else lret (- 1)))"

section \<open>Handles\<close>

record ReentrantShared =
  re_key :: string
  re_token :: string
  re_fence :: FencingToken
  re_ttl :: duration
  re_gone :: bool

definition re_mark_gone :: "ReentrantShared \<Rightarrow> bool \<times> ReentrantShared" where
  "re_mark_gone h = (\<not> re_gone h, h\<lparr>re_gone := True\<rparr>)"

definition re_lost :: "ReentrantShared \<Rightarrow> error" where
  "re_lost h = Lost (re_key h) (fence_value (re_fence h))"

definition detached_release_one :: "'s server \<Rightarrow> delivery \<Rightarrow> string \<Rightarrow> string \<Rightarrow> 's \<Rightarrow> 's" where
  "detached_release_one exec d key token s =
     snd (invoke d '''' (reentrant_release_lua exec [key] [token, ''0'']) s)"

text \<open>Dropping the last clone: without a runtime nothing is sent.\<close>

definition re_drop :: "'s server \<Rightarrow> delivery \<Rightarrow> bool \<Rightarrow> ReentrantShared \<Rightarrow> 's \<Rightarrow> 's" where
  "re_drop exec d runtime h s =
     (if \<not> fst (re_mark_gone h) then s
      else if runtime then detached_release_one exec d (re_key h) (re_token h) s else s)"

definition release_one ::
  "'s server \<Rightarrow> delivery \<Rightarrow> ReentrantShared \<Rightarrow> 's \<Rightarrow> unit result \<times> ReentrantShared \<times> 's" where
  "release_one exec d h s =
     (case re_mark_gone h of (first, h') \<Rightarrow>
        if \<not> first then (Inr (), h', s)
        else case invoke d ''reentrant release failed''
            (reentrant_release_lua exec [re_key h] [re_token h, ttl_arg (re_ttl h)]) s of
            (Inl e, t) \<Rightarrow> (Inl e, h', t)
          | (Inr remaining, t) \<Rightarrow> (if remaining < 0 then Inl (re_lost h) else Inr (), h', t))"

definition release_all ::
  "'s server \<Rightarrow> delivery \<Rightarrow> ReentrantShared \<Rightarrow> 's \<Rightarrow> unit result \<times> ReentrantShared \<times> 's" where
  "release_all exec d h s =
     (case re_mark_gone h of (first, h') \<Rightarrow>
        if \<not> first then (Inr (), h', s)
        else case invoke d ''reentrant release-all failed''
            (reentrant_release_all_lua exec [re_key h] [re_token h]) s of
            (Inl e, t) \<Rightarrow> (Inl e, h', t)
          | (Inr ok, t) \<Rightarrow> (if ok < 0 then Inl (re_lost h) else Inr (), h', t))"

definition re_extend ::
  "'s server \<Rightarrow> delivery \<Rightarrow> ReentrantShared \<Rightarrow> duration \<Rightarrow> 's \<Rightarrow> unit result \<times> ReentrantShared \<times> 's" where
  "re_extend exec d h ttl s =
     (if ttl < MIN_TTL then (Inl (InvalidConfig ''extend ttl is below the floor''), h, s)
      else if re_gone h then (Inl (re_lost h), h, s)
      else case invoke d ''reentrant extend failed''
          (reentrant_extend_lua exec [re_key h] [re_token h, ttl_arg ttl]) s of
          (Inl e, t) \<Rightarrow> (Inl e, h, t)
        | (Inr ok, t) \<Rightarrow> if ok < 0 then (Inl (re_lost h), h\<lparr>re_gone := True\<rparr>, t) else (Inr (), h, t))"

definition try_lock_reentrant ::
  "'s server \<Rightarrow> delivery \<Rightarrow> string \<Rightarrow> string \<Rightarrow> LockOptions \<Rightarrow> 's \<Rightarrow> ReentrantShared result \<times> 's" where
  "try_lock_reentrant exec d key owner options s =
     (case validate options of
        Inl e \<Rightarrow> (Inl e, s)
      | Inr _ \<Rightarrow>
          (case invoke d ''reentrant acquire failed''
             (reentrant_acquire_lua exec [key, fence_key_for key]
               [owner, ttl_arg (lo_ttl options), fence_ttl_arg (lo_ttl options)]) s of
             (Inl e, t) \<Rightarrow> (Inl e, t)
           | (Inr (status, fence), t) \<Rightarrow>
               if status = 1 \<or> status = 2
               then (Inr \<lparr>re_key = key, re_token = owner, re_fence = FencingToken (of_int fence),
                      re_ttl = lo_ttl options, re_gone = False\<rparr>, t)
               else (Inl (Held key), t)))"

definition try_lock_reentrant_for ::
  "'s server \<Rightarrow> string \<Rightarrow> string \<Rightarrow> LockOptions \<Rightarrow> nat \<Rightarrow> duration \<Rightarrow> 's attempt list \<Rightarrow> 's \<Rightarrow> panic + (ReentrantShared result \<times> 's) option" where
  "try_lock_reentrant_for exec key owner options =
     poll_for (\<lambda>a s. try_lock_reentrant exec (at_delivery a) key owner options (at_env a s)) at_now key"

section \<open>Specification\<close>

text \<open>The abstract lock: the time, who holds it, how often and until when, and the number of
  grants ever made.\<close>

record re_spec =
  sp_now :: nat
  sp_hold :: "(string \<times> int \<times> nat) option"
  sp_grants :: int

datatype re_op =
    ReAcquire string nat
  | ReRelease string nat
  | ReReleaseAll string
  | ReExtend string nat
  | ReWait nat

definition spec_step :: "re_op \<Rightarrow> re_spec \<Rightarrow> (int \<times> int) \<times> re_spec" where
  "spec_step op a = (case op of
      ReAcquire t ttl \<Rightarrow> (case sp_hold a of
          None \<Rightarrow> ((1, sp_grants a + 1), a\<lparr>sp_hold := Some (t, 1, sp_now a + ttl), sp_grants := sp_grants a + 1\<rparr>)
        | Some (u, c, e) \<Rightarrow>
            if u = t
            then ((2, sp_grants a + 1), a\<lparr>sp_hold := Some (t, c + 1, sp_now a + ttl), sp_grants := sp_grants a + 1\<rparr>)
            else ((0, 0), a))
    | ReRelease t ttl \<Rightarrow> (case sp_hold a of
          None \<Rightarrow> ((- 1, 0), a)
        | Some (u, c, e) \<Rightarrow>
            if u \<noteq> t then ((- 1, 0), a)
            else if c = 1 then ((0, 0), a\<lparr>sp_hold := None\<rparr>)
            else ((c - 1, 0), a\<lparr>sp_hold := Some (t, c - 1, if ttl = 0 then e else sp_now a + ttl)\<rparr>))
    | ReReleaseAll t \<Rightarrow> (case sp_hold a of
          None \<Rightarrow> ((- 1, 0), a)
        | Some (u, c, e) \<Rightarrow> if u = t then ((1, 0), a\<lparr>sp_hold := None\<rparr>) else ((- 1, 0), a))
    | ReExtend t ttl \<Rightarrow> (case sp_hold a of
          None \<Rightarrow> ((- 1, 0), a)
        | Some (u, c, e) \<Rightarrow>
            if u = t then ((1, 0), a\<lparr>sp_hold := Some (t, c, sp_now a + ttl)\<rparr>) else ((- 1, 0), a))
    | ReWait d \<Rightarrow> ((0, 0), a\<lparr>sp_now := sp_now a + d,
        sp_hold := (case sp_hold a of
            Some (u, c, e) \<Rightarrow> if e \<le> sp_now a + d then None else Some (u, c, e)
          | None \<Rightarrow> None)\<rparr>))"

text \<open>The range in which the server can follow: leases it accepts and counters below the 64-bit
  limit.\<close>

definition op_in_range :: "re_op \<Rightarrow> re_spec \<Rightarrow> bool" where
  "op_in_range op a = (case op of
      ReAcquire t ttl \<Rightarrow> ttl_ok (sp_now a) ttl \<and> sp_grants a < i64_max \<and>
        (case sp_hold a of Some (u, c, e) \<Rightarrow> c < i64_max | None \<Rightarrow> True)
    | ReRelease t ttl \<Rightarrow> ttl = 0 \<or> ttl_ok (sp_now a) ttl
    | ReExtend t ttl \<Rightarrow> ttl_ok (sp_now a) ttl
    | _ \<Rightarrow> True)"

text \<open>The same operations on a server, through the scripts.\<close>

definition impl_step ::
  "'s server \<Rightarrow> (nat \<Rightarrow> 's \<Rightarrow> 's) \<Rightarrow> string \<Rightarrow> re_op \<Rightarrow> 's \<Rightarrow> (lua_error + (int \<times> int)) \<times> 's" where
  "impl_step exec pass k op = (case op of
      ReAcquire t ttl \<Rightarrow> reentrant_acquire_lua exec [k, fence_key_for k] [t, show_nat ttl, show_nat (10 * ttl)]
    | ReRelease t ttl \<Rightarrow> lbind (reentrant_release_lua exec [k] [t, show_nat ttl]) (\<lambda>n. lret (n, 0))
    | ReReleaseAll t \<Rightarrow> lbind (reentrant_release_all_lua exec [k] [t]) (\<lambda>n. lret (n, 0))
    | ReExtend t ttl \<Rightarrow> lbind (reentrant_extend_lua exec [k] [t, show_nat ttl]) (\<lambda>n. lret (n, 0))
    | ReWait d \<Rightarrow> (\<lambda>s. (Inr (0, 0), pass d s)))"

text \<open>The abstraction relation.\<close>

definition re_hash :: "string \<Rightarrow> int \<Rightarrow> rval" where
  "re_hash t c = VHash [(''owner'', t), (''count'', show_int c)]"

definition re_sim :: "('s \<Rightarrow> keyspace) \<Rightarrow> ('s \<Rightarrow> nat) \<Rightarrow> string \<Rightarrow> 's \<Rightarrow> re_spec \<Rightarrow> bool" where
  "re_sim ks clock k s a \<longleftrightarrow> clock s = sp_now a \<and>
     (case sp_hold a of
        None \<Rightarrow> ks s k = None
      | Some (t, c, e) \<Rightarrow> ks s k = Some (re_hash t c, Some e) \<and> 1 \<le> c \<and> c \<le> i64_max) \<and>
     0 \<le> sp_grants a \<and> sp_grants a \<le> i64_max \<and>
     (ks s (fence_key_for k) = (if sp_grants a = 0 then None else Some (VStr (show_int (sp_grants a)), None)))"

lemma show_int_1: "show_int 1 = ''1''"
  by (simp add: show_int_def show_nat.simps digit_def)

lemma hash_counter:
  "i64_min \<le> c \<Longrightarrow> c \<le> i64_max \<Longrightarrow>
   redis_int (case map_of [(''owner'', t), (''count'', show_int c)] ''count'' of None \<Rightarrow> ''0'' | Some v \<Rightarrow> v) = Some c"
  by simp

context redis_server
begin

lemma re_sim_counter:
  assumes "re_sim ks clock k s a"
  shows "counter (ks s) (fence_key_for k) = Some (sp_grants a)" "key_expiry (ks s) (fence_key_for k) = None"
  using assms by (auto simp: re_sim_def counter_def key_expiry_def split: if_splits)

lemma re_acquire_refines:
  assumes "re_sim ks clock k s a" "op_in_range (ReAcquire t ttl) a"
  defines "r \<equiv> impl_step exec pass k (ReAcquire t ttl) s"
  shows "fst r = Inr (fst (spec_step (ReAcquire t ttl) a)) \<and> re_sim ks clock k (snd r) (snd (spec_step (ReAcquire t ttl) a))"
proof -
  note c = re_sim_counter [OF assms(1)]
  have neq: "k \<noteq> fence_key_for k" "fence_key_for k \<noteq> k" using fence_key_neq [of k] by auto
  show ?thesis
  proof (cases "sp_hold a")
    case None
    with assms(1,2) c neq show ?thesis
      unfolding r_def impl_step_def re_sim_def reentrant_acquire_lua_def spec_step_def op_in_range_def
      by (auto simp: lua_simps lcall_simps redis_simps with_hash_def put_hash_def re_hash_def show_int_1)
  next
    case (Some h)
    obtain u n e where h: "h = (u, n, e)" by (cases h)
    with Some assms(1,2) c neq show ?thesis
      unfolding r_def impl_step_def re_sim_def reentrant_acquire_lua_def spec_step_def op_in_range_def
      by (auto simp: lua_simps lcall_simps redis_simps with_hash_def put_hash_def re_hash_def)
  qed
qed

lemma re_release_refines:
  assumes "re_sim ks clock k s a" "op_in_range (ReRelease t ttl) a"
  defines "r \<equiv> impl_step exec pass k (ReRelease t ttl) s"
  shows "fst r = Inr (fst (spec_step (ReRelease t ttl) a)) \<and> re_sim ks clock k (snd r) (snd (spec_step (ReRelease t ttl) a))"
proof (cases "sp_hold a")
  case None
  with assms(1) show ?thesis
    unfolding r_def impl_step_def re_sim_def reentrant_release_lua_def spec_step_def
    by (auto simp: lua_simps lcall_simps redis_simps)
next
  case (Some h)
  have neq: "k \<noteq> fence_key_for k" "fence_key_for k \<noteq> k" using fence_key_neq [of k] by auto
  obtain u n e where h: "h = (u, n, e)" by (cases h)
  with Some assms(1,2) neq show ?thesis
    unfolding r_def impl_step_def re_sim_def reentrant_release_lua_def spec_step_def op_in_range_def
    by (auto simp: lua_simps lcall_simps redis_simps with_hash_def put_hash_def re_hash_def ttl_ok_def [of _ 0])
qed

lemma re_release_all_refines:
  fixes t
  assumes "re_sim ks clock k s a"
  defines "r \<equiv> impl_step exec pass k (ReReleaseAll t) s"
  shows "fst r = Inr (fst (spec_step (ReReleaseAll t) a)) \<and> re_sim ks clock k (snd r) (snd (spec_step (ReReleaseAll t) a))"
  using assms(1) fence_key_neq [of k]
  unfolding r_def impl_step_def re_sim_def reentrant_release_all_lua_def spec_step_def
  by (cases "sp_hold a") (auto simp: lua_simps lcall_simps redis_simps with_hash_def re_hash_def split: if_splits)

lemma re_extend_refines:
  assumes "re_sim ks clock k s a" "op_in_range (ReExtend t ttl) a"
  defines "r \<equiv> impl_step exec pass k (ReExtend t ttl) s"
  shows "fst r = Inr (fst (spec_step (ReExtend t ttl) a)) \<and> re_sim ks clock k (snd r) (snd (spec_step (ReExtend t ttl) a))"
  using assms(1,2) fence_key_neq [of k]
  unfolding r_def impl_step_def re_sim_def reentrant_extend_lua_def spec_step_def op_in_range_def
  by (cases "sp_hold a") (auto simp: lua_simps lcall_simps redis_simps with_hash_def re_hash_def split: if_splits)

lemma re_wait_refines:
  fixes d
  assumes "re_sim ks clock k s a"
  defines "r \<equiv> impl_step exec pass k (ReWait d) s"
  shows "fst r = Inr (fst (spec_step (ReWait d) a)) \<and> re_sim ks clock k (snd r) (snd (spec_step (ReWait d) a))"
  using assms(1) unfolding r_def impl_step_def re_sim_def spec_step_def
  by (cases "sp_hold a") (auto simp: pass_clock pass_ks expire_def)

lemma re_step_refines:
  assumes "re_sim ks clock k s a" "op_in_range op a"
  shows "fst (impl_step exec pass k op s) = Inr (fst (spec_step op a)) \<and>
    re_sim ks clock k (snd (impl_step exec pass k op s)) (snd (spec_step op a))"
  using assms re_acquire_refines re_release_refines re_release_all_refines re_extend_refines re_wait_refines
  by (cases op) auto

end

sublocale redis_server \<subseteq> reentrant: refinement spec_step "impl_step exec pass k" op_in_range "re_sim ks clock k"
  for k
  by unfold_locales (rule re_step_refines)

context redis_server
begin

lemmas re_run_refines = reentrant.run_refines

end

section \<open>Properties\<close>

definition re_start :: "nat \<Rightarrow> re_spec" where
  "re_start now = \<lparr>sp_now = now, sp_hold = None, sp_grants = 0\<rparr>"

text \<open>Property C10. The reentrant lock refines its specification. For any sequence of acquisitions,
  partial and full releases, extensions and waits by any owners that stays within the server's
  64-bit range, starting from an unused key, the scripts answer exactly as the abstract lock and
  leave the server in a state that represents it: the hold count nests, only the owner can enter
  again or release, the last release and the expiry free the lock, and every grant gets the next
  number.\<close>

theorem reentrant_refines:
  assumes "redis_server exec ks clock pass" "ks s k = None" "ks s (fence_key_for k) = None"
    and "run_within op_in_range spec_step ops (re_start (clock s))"
  shows "fst (run_ops (impl_step exec pass k) ops s) = map Inr (fst (run_ops spec_step ops (re_start (clock s)))) \<and>
    re_sim ks clock k (snd (run_ops (impl_step exec pass k) ops s)) (snd (run_ops spec_step ops (re_start (clock s))))"
  by (rule redis_server.re_run_refines [OF assms(1) _ assms(4)])
    (use assms(2,3) in \<open>simp add: re_sim_def re_start_def\<close>)

theorem reentrant_refines_witness:
  "fst (run_ops (impl_step mem_exec mem_pass ''k'') [ReAcquire ''a'' 1000, ReAcquire ''a'' 1000, ReAcquire ''b'' 1000,
      ReRelease ''a'' 0, ReRelease ''b'' 500, ReRelease ''a'' 0, ReAcquire ''b'' 1000, ReWait 1000, ReExtend ''b'' 9] mem_init) =
   map Inr [(1, 1), (2, 2), (0, 0), (1, 0), (- 1, 0), (0, 0), (1, 3), (0, 0), (- 1, 0)]"
  using reentrant_refines [OF mem.redis_server_axioms, of mem_init "''k''"
      "[ReAcquire ''a'' 1000, ReAcquire ''a'' 1000, ReAcquire ''b'' 1000,
      ReRelease ''a'' 0, ReRelease ''b'' 500, ReRelease ''a'' 0, ReAcquire ''b'' 1000, ReWait 1000, ReExtend ''b'' 9]"]
  by (simp add: mem_init_def mem_ks_def expire_def re_start_def op_in_range_def spec_step_def ttl_ok_def)

text \<open>Handles of the reentrant lock speak for one hold each. The first release of a
  handle runs the release script with the handle's token and reports \<open>Lost\<close> exactly when the
  script finds another owner or no lock; every later release of the same handle, and an
  extension after it, leaves the server untouched.\<close>

theorem reentrant_release_once:
  assumes "redis_server exec ks clock pass" "re_sim ks clock (re_key h) s a" "\<not> re_gone h"
    and "ttl_ok (sp_now a) (as_millis (re_ttl h))"
  shows "case release_one exec Delivered h s of (r, h', t) \<Rightarrow>
     (r = Inr () \<longleftrightarrow> (\<exists>c e. sp_hold a = Some (re_token h, c, e))) \<and>
     (r \<noteq> Inr () \<longrightarrow> r = Inl (re_lost h)) \<and>
     re_sim ks clock (re_key h) t (snd (spec_step (ReRelease (re_token h) (as_millis (re_ttl h))) a)) \<and>
     release_one exec d h' t = (Inr (), h', t) \<and>
     (MIN_TTL \<le> ttl \<longrightarrow> re_extend exec d h' ttl t = (Inl (re_lost h), h', t))"
proof -
  let ?m = "as_millis (re_ttl h)" and ?k = "re_key h"
  have arg: "ttl_arg (re_ttl h) = show_nat ?m"
    using assms(4) by (intro ttl_arg_eq) (auto simp: ttl_ok_def)
  have ref: "fst (impl_step exec pass ?k (ReRelease (re_token h) ?m) s) = Inr (fst (spec_step (ReRelease (re_token h) ?m) a))"
    "re_sim ks clock ?k (snd (impl_step exec pass ?k (ReRelease (re_token h) ?m) s))
      (snd (spec_step (ReRelease (re_token h) ?m) a))"
    using redis_server.re_step_refines [OF assms(1,2), of "ReRelease (re_token h) ?m"] assms(4)
    by (auto simp: op_in_range_def)
  let ?r = "reentrant_release_lua exec [?k] [re_token h, show_nat ?m] s"
  have script: "fst ?r = Inr (fst (fst (spec_step (ReRelease (re_token h) ?m) a)))"
    "snd (impl_step exec pass ?k (ReRelease (re_token h) ?m) s) = snd ?r"
    using ref(1) by (auto simp: impl_step_def lua_simps split: sum.splits) (metis fst_conv)
  have neg: "fst (fst (spec_step (ReRelease (re_token h) ?m) a)) < 0 \<longleftrightarrow>
      \<not> (\<exists>c e. sp_hold a = Some (re_token h, c, e))"
    using assms(2) by (auto simp: spec_step_def re_sim_def split: option.splits)
  show ?thesis
    using script ref(2) neg assms(3)
    by (simp add: release_one_def re_mark_gone_def arg invoke_Delivered re_extend_def re_lost_def)
qed

definition ex_hold :: ReentrantShared where
  "ex_hold = \<lparr>re_key = ''k'', re_token = ''a'', re_fence = FencingToken 1, re_ttl = from_secs 1, re_gone = False\<rparr>"

theorem reentrant_release_once_witness:
  "fst (release_one mem_exec Delivered ex_hold mem_init) = Inl (Lost ''k'' 1)"
  using reentrant_release_once [OF mem.redis_server_axioms, of ex_hold mem_init "re_start 0" Delivered "from_secs 1"]
  by (auto simp: ex_hold_def re_sim_def re_start_def mem_init_def mem_ks_def expire_def ttl_ok_def
      from_secs_def as_millis_def re_lost_def)

end
