(* ===== verification/Latch.thy ===== *)
theory Latch
  imports Single
begin

text \<open>
  The countdown latch of \<^verbatim>\<open>crates/redis/src/latch.rs\<close> with its three inline scripts: creation
  with first-initialiser-wins, counting down, reading and waiting for zero.

  \<^verbatim>\<open>tonumber\<close> is modelled on decimal integers, the only values the code stores.
\<close>

section \<open>Scripts\<close>

definition latch_init_lua :: "'s server \<Rightarrow> string list \<Rightarrow> string list \<Rightarrow> ('s, int) lua" where
  "latch_init_lua exec KEYS ARGV =
     lbind (call2 exec SET_NX (lua_arg KEYS 1) (lua_arg ARGV 1)) (\<lambda>r.
     if truthy r then lret 1 else lret 0)"

text \<open>\<^verbatim>\<open>tonumber(redis.call('GET', key) or '-1')\<close>\<close>

definition latch_value :: "reply \<Rightarrow> string option" where
  "latch_value r = (case r of RBulk v \<Rightarrow> Some v | _ \<Rightarrow> Some ''-1'')"

definition latch_count_down_lua :: "'s server \<Rightarrow> string list \<Rightarrow> ('s, int) lua" where
  "latch_count_down_lua exec KEYS =
     lbind (call1 exec GET (lua_arg KEYS 1)) (\<lambda>r.
     lua_num (latch_value r) (\<lambda>v.
     if v < 0 then lret (- 1)
     else if v = 0 then lret 0
     else lbind (call1 exec DECR (lua_arg KEYS 1)) (\<lambda>n. lret (rint n + 1))))"

definition latch_get_lua :: "'s server \<Rightarrow> string list \<Rightarrow> ('s, int) lua" where
  "latch_get_lua exec KEYS =
     lbind (call1 exec GET (lua_arg KEYS 1)) (\<lambda>r.
     lua_num (latch_value r) (\<lambda>v. if v < 0 then lret (- 1) else lret v))"

section \<open>Operations\<close>

definition initial_counts :: "u32 \<Rightarrow> string result" where
  "initial_counts n =
     (if n = 0 then Inl (InvalidConfig ''latch initial count must be at least 1'')
      else Inr (show_nat (unat n)))"

definition latch_create :: "'s server \<Rightarrow> delivery \<Rightarrow> string \<Rightarrow> u32 \<Rightarrow> 's \<Rightarrow> string result \<times> 's" where
  "latch_create exec d key initial_count s =
     (case initial_counts initial_count of
        Inl e \<Rightarrow> (Inl e, s)
      | Inr arg \<Rightarrow>
          (case invoke d ''latch init failed'' (latch_init_lua exec [key] [arg]) s of
             (Inl e, t) \<Rightarrow> (Inl e, t)
           | (Inr _, t) \<Rightarrow> (Inr key, t)))"

definition eval_remaining :: "delivery \<Rightarrow> ('s, int) lua \<Rightarrow> 's \<Rightarrow> u64 result \<times> 's" where
  "eval_remaining d script s =
     (case invoke d ''latch op failed'' script s of
        (Inl e, t) \<Rightarrow> (Inl e, t)
      | (Inr v, t) \<Rightarrow> (Inr (if v < 0 then 0 else of_int v), t))"

definition count_down :: "'s server \<Rightarrow> delivery \<Rightarrow> string \<Rightarrow> 's \<Rightarrow> u64 result \<times> 's" where
  "count_down exec d key = eval_remaining d (latch_count_down_lua exec [key])"

definition latch_count :: "'s server \<Rightarrow> delivery \<Rightarrow> string \<Rightarrow> 's \<Rightarrow> u64 result \<times> 's" where
  "latch_count exec d key = eval_remaining d (latch_get_lua exec [key])"

fun wait_until_zero_loop ::
  "'s server \<Rightarrow> string \<Rightarrow> nat \<Rightarrow> 's attempt list \<Rightarrow> 's \<Rightarrow> (unit result \<times> 's) option" where
  "wait_until_zero_loop exec key deadline [] s = None"
| "wait_until_zero_loop exec key deadline (a # as) s =
     (case latch_count exec (at_delivery a) key (at_env a s) of
        (Inl e, t) \<Rightarrow> Some (Inl e, t)
      | (Inr n, t) \<Rightarrow>
          if n = 0 then Some (Inr (), t)
          else if at_now a \<ge> deadline then Some (Inl (Timeout key), t)
          else wait_until_zero_loop exec key deadline as t)"

definition wait_until_zero ::
  "'s server \<Rightarrow> string \<Rightarrow> nat \<Rightarrow> duration \<Rightarrow> 's attempt list \<Rightarrow> 's \<Rightarrow> panic + (unit result \<times> 's) option" where
  "wait_until_zero exec key now timeout as s =
     map_sum id (\<lambda>deadline. wait_until_zero_loop exec key deadline as s) (instant_add now timeout)"

section \<open>Counting\<close>

text \<open>\<open>m\<close> successive answered count-downs.\<close>

fun count_downs :: "'s server \<Rightarrow> string \<Rightarrow> nat \<Rightarrow> 's \<Rightarrow> u64 result list \<times> 's" where
  "count_downs exec key 0 s = ([], s)"
| "count_downs exec key (Suc m) s =
     (case count_down exec Delivered key s of (r, t) \<Rightarrow>
        case count_downs exec key m t of (rs, u) \<Rightarrow> (r # rs, u))"

definition latch_at :: "('s \<Rightarrow> keyspace) \<Rightarrow> string \<Rightarrow> 's \<Rightarrow> nat \<Rightarrow> bool" where
  "latch_at ks key s n \<longleftrightarrow> ks s key = Some (VStr (show_nat n), None) \<and> int n \<le> i64_max"

context redis_server
begin

lemma latch_get:
  assumes "latch_at ks key s n"
  shows "latch_get_lua exec [key] s = (Inr (int n), snd (lcall exec (GET key) s))"
    and "ks (snd (lcall exec (GET key) s)) = ks s"
  using assms by (simp_all add: latch_at_def latch_get_lua_def latch_value_def lua_simps lcall_simps redis_simps)

lemma latch_count_at:
  assumes "latch_at ks key s n"
  shows "fst (latch_count exec Delivered key s) = Inr (of_nat n)"
    and "ks (snd (latch_count exec Delivered key s)) = ks s"
  using latch_get [OF assms] by (simp_all add: latch_count_def eval_remaining_def invoke_def)

lemma count_down_at:
  assumes "latch_at ks key s n"
  shows "fst (count_down exec Delivered key s) = Inr (of_nat n)"
    and "latch_at ks key (snd (count_down exec Delivered key s)) (n - 1)"
proof -
  have v: "ks s key = Some (VStr (show_nat n), None)" "int n \<le> i64_max"
    using assms by (auto simp: latch_at_def)
  then have c: "counter (ks s) key = Some (int n)" by (simp add: counter_def)
  have "0 < n \<Longrightarrow> show_int (int n - 1) = show_nat (n - 1)"
    by (simp add: show_int_def nat_diff_distrib)
  then have "fst (latch_count_down_lua exec [key] s) = Inr (int n) \<and>
      latch_at ks key (snd (latch_count_down_lua exec [key] s)) (n - 1)"
    using v c by (auto simp: latch_count_down_lua_def latch_value_def latch_at_def lua_simps lcall_simps
        redis_simps key_expiry_def show_int_of_nat)
  then show "fst (count_down exec Delivered key s) = Inr (of_nat n)"
    and "latch_at ks key (snd (count_down exec Delivered key s)) (n - 1)"
    by (auto simp: count_down_def eval_remaining_def invoke_Delivered)
qed

lemma count_downs_at:
  assumes "latch_at ks key s n"
  shows "fst (count_downs exec key m s) = map (\<lambda>i. Inr (of_nat (n - i))) [0..<m] \<and>
    latch_at ks key (snd (count_downs exec key m s)) (n - m)"
  using assms
proof (induction m arbitrary: s n)
  case (Suc m)
  have "map (\<lambda>i. Inr (of_nat (n - i))) [0..<Suc m] =
      (Inr (of_nat n) :: u64 result) # map (\<lambda>i. Inr (of_nat (n - 1 - i))) [0..<m]"
    by (simp del: upt_Suc add: upt_conv_Cons map_Suc_upt [symmetric])
  with Suc.IH [OF count_down_at(2) [OF Suc.prems]] count_down_at(1) [OF Suc.prems] show ?case
    by (simp add: split_beta)
qed simp

lemma latch_create_new:
  assumes "ks s key = None" "n \<noteq> 0"
  shows "fst (latch_create exec Delivered key n s) = Inr key"
    and "latch_at ks key (snd (latch_create exec Delivered key n s)) (unat n)"
proof -
  have "unat n < 2 ^ LENGTH(32)" by (rule unsigned_less)
  then have "unat n < 4294967296" by simp
  then have r: "int (unat n) \<le> i64_max" by linarith
  have "fst (latch_init_lua exec [key] [show_nat (unat n)] s) = Inr 1 \<and>
      ks (snd (latch_init_lua exec [key] [show_nat (unat n)] s)) key = Some (VStr (show_nat (unat n)), None)"
    using assms(1) by (simp add: latch_init_lua_def lua_simps lcall_simps redis_simps)
  with assms(2) r show "fst (latch_create exec Delivered key n s) = Inr key"
    and "latch_at ks key (snd (latch_create exec Delivered key n s)) (unat n)"
    by (auto simp: latch_create_def initial_counts_def invoke_Delivered latch_at_def)
qed

lemma latch_create_again:
  assumes "latch_at ks key s m" "n \<noteq> 0"
  shows "fst (latch_create exec Delivered key n s) = Inr key"
    and "latch_at ks key (snd (latch_create exec Delivered key n s)) m"
proof -
  have "fst (latch_init_lua exec [key] [show_nat (unat n)] s) = Inr 0 \<and>
      ks (snd (latch_init_lua exec [key] [show_nat (unat n)] s)) = ks s"
    using assms(1) by (simp add: latch_at_def latch_init_lua_def lua_simps lcall_simps redis_simps)
  with assms show "fst (latch_create exec Delivered key n s) = Inr key"
    and "latch_at ks key (snd (latch_create exec Delivered key n s)) m"
    by (auto simp: latch_create_def initial_counts_def invoke_Delivered latch_at_def)
qed

lemma wait_zero:
  assumes "latch_at ks key (at_env a s) 0" "at_delivery a = Delivered"
  shows "\<exists>t. wait_until_zero_loop exec key deadline (a # as) s = Some (Inr (), t)"
  using latch_count_at [OF assms(1)] assms(2)
  by (cases "latch_count exec Delivered key (at_env a s)") simp

end

section \<open>Properties\<close>

text \<open>The latch counts down to zero and stays there. On an unused key, after a
  creation with count \<open>n\<close> (and any further creation, which changes nothing) and \<open>m\<close>
  count-downs, the count is \<open>n - m\<close>, never below zero; and the \<open>i\<close>-th count-down
  returns the count it found, not the count it leaves.\<close>

theorem latch_counts:
  assumes "redis_server exec ks clock pass" "ks s key = None" "n \<noteq> 0" "n' \<noteq> 0"
  defines "t \<equiv> snd (latch_create exec Delivered key n' (snd (latch_create exec Delivered key n s)))"
  shows "fst (count_downs exec key m t) = map (\<lambda>i. Inr (of_nat (unat n - i))) [0..<m] \<and>
    fst (latch_count exec Delivered key (snd (count_downs exec key m t))) = Inr (of_nat (unat n - m))"
proof -
  have "latch_at ks key t (unat n)"
    unfolding t_def using redis_server.latch_create_again(2) [OF assms(1) _ assms(4)]
      redis_server.latch_create_new(2) [OF assms(1-3)] by blast
  then have "fst (count_downs exec key m t) = map (\<lambda>i. Inr (of_nat (unat n - i))) [0..<m]"
    "latch_at ks key (snd (count_downs exec key m t)) (unat n - m)"
    using redis_server.count_downs_at [OF assms(1), of key t "unat n" m] by auto
  then show ?thesis using redis_server.latch_count_at(1) [OF assms(1)] by blast
qed

theorem latch_counts_witness:
  "fst (count_downs mem_exec ''l'' 3 (snd (latch_create mem_exec Delivered ''l'' 9
     (snd (latch_create mem_exec Delivered ''l'' 2 mem_init))))) = [Inr 2, Inr 1, Inr 0]"
  using latch_counts [OF mem.redis_server_axioms, of mem_init "''l''" 2 9 3]
  by (simp add: mem_init_def mem_ks_def expire_def upt_rec [of 0] upt_rec [of "Suc 0"] upt_rec [of 2] upt_rec [of 3] flip: numeral_2_eq_2 numeral_3_eq_3)

text \<open>Waiting ends at zero. Once the count is zero the next answered poll of a waiter
  returns success, whatever the timeout (as long as the clock can represent its end); a latch that has vanished counts as zero.\<close>

theorem latch_wait_returns:
  assumes "redis_server exec ks clock pass" "at_delivery a = Delivered"
    and "latch_at ks key (at_env a s) 0 \<or> ks (at_env a s) key = None"
    and "now + timeout < INSTANT_LIMIT"
  shows "\<exists>t. wait_until_zero exec key now timeout (a # as) s = Inr (Some (Inr (), t))"
proof -
  have "\<exists>t. wait_until_zero_loop exec key (now + timeout) (a # as) s = Some (Inr (), t)"
    using assms(3)
  proof
    assume "latch_at ks key (at_env a s) 0"
    then show ?thesis using redis_server.wait_zero [OF assms(1)] assms(2) by blast
  next
    assume "ks (at_env a s) key = None"
    then have "fst (latch_count exec Delivered key (at_env a s)) = Inr 0"
      by (simp add: latch_count_def eval_remaining_def invoke_Delivered latch_get_lua_def latch_value_def lua_simps
          redis_server.lcall_simps [OF assms(1)] redis_simps parse_int_def parse_nat_def digit_val_def)
    with assms(2) show ?thesis
      by (cases "latch_count exec Delivered key (at_env a s)") simp
  qed
  moreover have "instant_add now timeout = Inr (now + timeout)" using assms(4) by (simp add: instant_add_Inr)
  ultimately show ?thesis by (simp add: wait_until_zero_def)
qed

theorem latch_wait_returns_witness:
  "\<exists>t. wait_until_zero mem_exec ''l'' 0 0 [\<lparr>at_token = [], at_delivery = Delivered, at_elapsed = False,
     at_now = 5, at_env = id\<rparr>] mem_init = Inr (Some (Inr (), t))"
  by (rule latch_wait_returns [OF mem.redis_server_axioms]) (simp_all add: mem_init_def mem_ks_def expire_def INSTANT_LIMIT_def)

end
