(* ===== verification/Semaphore.thy ===== *)
theory Semaphore
  imports Single
begin

text \<open>
  The counting semaphore of \<^verbatim>\<open>crates/redis/src/semaphore.rs\<close> and its three scripts: permits in a
  sorted set scored by the server-side instant at which they end.

  Lua numbers are modelled as integers; scores and instants are milliseconds far below the
  range where doubles lose precision.
\<close>

section \<open>Scripts\<close>

text \<open>\<^verbatim>\<open>tonumber(time[1]) * 1000 + math.floor(tonumber(time[2]) / 1000)\<close>\<close>

definition lua_now :: "'s server \<Rightarrow> (int \<Rightarrow> ('s, 'a) lua) \<Rightarrow> ('s, 'a) lua" where
  "lua_now exec f =
     lbind (lcall exec TIME) (\<lambda>r. case r of
       RArr [secs, micros] \<Rightarrow> lua_num (Some secs) (\<lambda>a. lua_num (Some micros) (\<lambda>b. f (a * 1000 + b div 1000)))
     | _ \<Rightarrow> lraise NilArith)"

definition semaphore_acquire_lua :: "'s server \<Rightarrow> string list \<Rightarrow> string list \<Rightarrow> ('s, int \<times> int) lua" where
  "semaphore_acquire_lua exec KEYS ARGV =
     lua_now exec (\<lambda>now.
     lbind (call1 exec (\<lambda>k. ZREMRANGEBYSCORE k now) (lua_arg KEYS 1)) (\<lambda>_.
     lbind (call1 exec ZCARD (lua_arg KEYS 1)) (\<lambda>n.
     lua_num (lua_arg ARGV 3) (\<lambda>max_permits.
     if rint n < max_permits then
       lua_num (lua_arg ARGV 2) (\<lambda>ttl.
       lbind (call2 exec (\<lambda>k v. ZADD k (now + ttl) v) (lua_arg KEYS 1) (lua_arg ARGV 1)) (\<lambda>_.
       lbind (call2 exec PEXPIRE (lua_arg KEYS 1) (lua_arg ARGV 2)) (\<lambda>_.
       lbind (call1 exec INCR (lua_arg KEYS 2)) (\<lambda>fence.
       lret (1, rint fence)))))
     else lret (0, 0)))))"

definition semaphore_extend_lua :: "'s server \<Rightarrow> string list \<Rightarrow> string list \<Rightarrow> ('s, int) lua" where
  "semaphore_extend_lua exec KEYS ARGV =
     lua_now exec (\<lambda>now.
     lbind (call2 exec ZSCORE (lua_arg KEYS 1) (lua_arg ARGV 1)) (\<lambda>r.
     if truthy r then
       lua_num (lua_arg ARGV 2) (\<lambda>ttl.
       lbind (call2 exec (\<lambda>k v. ZADD k (now + ttl) v) (lua_arg KEYS 1) (lua_arg ARGV 1)) (\<lambda>_.
       lbind (call2 exec PEXPIRE (lua_arg KEYS 1) (lua_arg ARGV 2)) (\<lambda>_.
       lret 1)))
     else lret 0))"

definition semaphore_release_lua :: "'s server \<Rightarrow> string list \<Rightarrow> string list \<Rightarrow> ('s, int) lua" where
  "semaphore_release_lua exec KEYS ARGV =
     lbind (call2 exec ZREM (lua_arg KEYS 1) (lua_arg ARGV 1)) (\<lambda>r.
     if rint r = 1 then
       lbind (call1 exec ZCARD (lua_arg KEYS 1)) (\<lambda>n.
       if rint n = 0 then lbind (call1 exec DEL (lua_arg KEYS 1)) (\<lambda>_. lret 1)
       else lret 1)
     else lret 0)"

section \<open>Semaphore and permits\<close>

record RedisSemaphore =
  sem_key :: string
  max_permits :: u32

record PermitShared =
  pm_key :: string
  pm_token :: string
  pm_fence :: FencingToken
  pm_gone :: bool

definition semaphore :: "string \<Rightarrow> u32 \<Rightarrow> RedisSemaphore result" where
  "semaphore key n =
     (if n = 0 then Inl (InvalidConfig ''semaphore capacity must be at least 1'')
      else Inr \<lparr>sem_key = key, max_permits = n\<rparr>)"

definition pm_mark_gone :: "PermitShared \<Rightarrow> bool \<times> PermitShared" where
  "pm_mark_gone p = (\<not> pm_gone p, p\<lparr>pm_gone := True\<rparr>)"

definition pm_lost :: "PermitShared \<Rightarrow> error" where
  "pm_lost p = Lost (pm_key p) (fence_value (pm_fence p))"

definition permit_drop :: "'s server \<Rightarrow> delivery \<Rightarrow> bool \<Rightarrow> PermitShared \<Rightarrow> 's \<Rightarrow> 's" where
  "permit_drop exec d runtime p s =
     (if \<not> fst (pm_mark_gone p) then s
      else if runtime then snd (invoke d '''' (semaphore_release_lua exec [pm_key p] [pm_token p]) s)
      else s)"

definition permit_release ::
  "'s server \<Rightarrow> delivery \<Rightarrow> PermitShared \<Rightarrow> 's \<Rightarrow> unit result \<times> PermitShared \<times> 's" where
  "permit_release exec d p s =
     (case pm_mark_gone p of (first, p') \<Rightarrow>
        if \<not> first then (Inr (), p', s)
        else case invoke d ''semaphore release failed''
            (semaphore_release_lua exec [pm_key p] [pm_token p]) s of
            (Inl e, t) \<Rightarrow> (Inl e, p', t)
          | (Inr ok, t) \<Rightarrow> (if ok \<noteq> 1 then Inl (pm_lost p) else Inr (), p', t))"

definition permit_extend ::
  "'s server \<Rightarrow> delivery \<Rightarrow> PermitShared \<Rightarrow> duration \<Rightarrow> 's \<Rightarrow> unit result \<times> PermitShared \<times> 's" where
  "permit_extend exec d p ttl s =
     (if ttl < MIN_TTL then (Inl (InvalidConfig ''extend ttl is below the floor''), p, s)
      else if pm_gone p then (Inl (pm_lost p), p, s)
      else case invoke d ''semaphore extend failed''
          (semaphore_extend_lua exec [pm_key p] [pm_token p, ttl_arg ttl]) s of
          (Inl e, t) \<Rightarrow> (Inl e, p, t)
        | (Inr ok, t) \<Rightarrow> if ok \<noteq> 1 then (Inl (pm_lost p), p\<lparr>pm_gone := True\<rparr>, t) else (Inr (), p, t))"

definition try_acquire ::
  "'s server \<Rightarrow> delivery \<Rightarrow> RedisSemaphore \<Rightarrow> string \<Rightarrow> LockOptions \<Rightarrow> 's \<Rightarrow> PermitShared result \<times> 's" where
  "try_acquire exec d sem token options s =
     (case validate options of
        Inl e \<Rightarrow> (Inl e, s)
      | Inr _ \<Rightarrow>
          (case invoke d ''semaphore acquire failed''
             (semaphore_acquire_lua exec [sem_key sem, fence_key_for (sem_key sem)]
               [token, ttl_arg (lo_ttl options), show_nat (unat (max_permits sem)), fence_ttl_arg (lo_ttl options)]) s of
             (Inl e, t) \<Rightarrow> (Inl e, t)
           | (Inr (status, fence), t) \<Rightarrow>
               if status \<noteq> 1 then (Inl (Held (sem_key sem)), t)
               else (Inr \<lparr>pm_key = sem_key sem, pm_token = token,
                      pm_fence = FencingToken (of_int fence), pm_gone = False\<rparr>, t)))"

definition try_acquire_for ::
  "'s server \<Rightarrow> RedisSemaphore \<Rightarrow> LockOptions \<Rightarrow> nat \<Rightarrow> duration \<Rightarrow> 's attempt list \<Rightarrow> 's \<Rightarrow> panic + (PermitShared result \<times> 's) option" where
  "try_acquire_for exec sem options =
     poll_for (\<lambda>a s. try_acquire exec (at_delivery a) sem (at_token a) options (at_env a s)) at_now (sem_key sem)"

section \<open>What the scripts do to the set of permits\<close>

definition prune :: "nat \<Rightarrow> (string \<times> int) list \<Rightarrow> (string \<times> int) list" where
  "prune now z = filter (\<lambda>(_, sc). \<not> sc \<le> int now) z"

text \<open>The key read as a sorted set.\<close>

definition permits :: "keyspace \<Rightarrow> string \<Rightarrow> (string \<times> int) list option" where
  "permits m k = (case m k of None \<Rightarrow> Some [] | Some (VZset z, _) \<Rightarrow> Some z | Some _ \<Rightarrow> None)"

lemma time_value: "int (now div 1000) * 1000 + int (now mod 1000) = int now"
  by (metis add.commute div_mult_mod_eq mult.commute of_nat_add of_nat_mult of_nat_numeral)

lemma incr_other: "k \<noteq> fk \<Longrightarrow> snd (doc_step (INCR fk) now m) k = m k"
  by (auto simp: doc_step.simps add_to_string_def split: option.splits rval.splits)

context redis_server
begin

lemma lua_now_run:
  "fst (lua_now exec f s) = fst (f (int (clock s)) (snd (lcall exec TIME s)))"
  "snd (lua_now exec f s) = snd (f (int (clock s)) (snd (lcall exec TIME s)))"
  "ks (snd (lcall exec TIME s)) = ks s" "clock (snd (lcall exec TIME s)) = clock s"
  unfolding lua_now_def by (simp_all add: lua_simps lcall_simps redis_simps time_value)

lemma sem_acquire_clock: "clock (snd (semaphore_acquire_lua exec KEYS ARGV s)) = clock s"
  unfolding semaphore_acquire_lua_def lua_now_run
  by (simp add: lua_simps clock_lcall split: option.splits sum.splits)

lemma sem_extend_clock: "clock (snd (semaphore_extend_lua exec KEYS ARGV s)) = clock s"
  unfolding semaphore_extend_lua_def lua_now_run
  by (simp add: lua_simps clock_lcall split: option.splits sum.splits)

lemma sem_release_clock: "clock (snd (semaphore_release_lua exec KEYS ARGV s)) = clock s"
  unfolding semaphore_release_lua_def
  by (simp add: lua_simps clock_lcall split: option.splits sum.splits)

lemma sem_acquire_full:
  fixes k fk tok t mx ft s
  assumes "permits (ks s) k = Some z" "\<not> int (length (prune (clock s) z)) < int mx"
  defines "r \<equiv> semaphore_acquire_lua exec [k, fk] [tok, show_nat t, show_nat mx, ft] s"
  shows "fst r = Inr (0, 0)" and "ks (snd r) = put_zset k (key_expiry (ks s) k) (prune (clock s) z) (ks s)"
  using assms unfolding r_def semaphore_acquire_lua_def lua_now_run
  by (auto simp: lua_simps lcall_simps lua_now_run redis_simps permits_def with_zset_def put_zset_def prune_def
      key_expiry_def fun_upd_idem split: option.splits rval.splits if_splits)

lemma sem_acquire_room:
  fixes k fk tok t mx ft s
  assumes "permits (ks s) k = Some z" "length (prune (clock s) z) < mx" "ttl_ok (clock s) t" "k \<noteq> fk"
  defines "r \<equiv> semaphore_acquire_lua exec [k, fk] [tok, show_nat t, show_nat mx, ft] s"
  shows "ks (snd r) k = Some (VZset (AList.update tok (int (clock s + t)) (prune (clock s) z)), Some (clock s + t))"
    and "fst r \<in> {Inr (1, f) | f. True} \<union> range Inl"
  using assms unfolding r_def semaphore_acquire_lua_def lua_now_run
  by (auto simp: lua_simps lcall_simps lua_now_run redis_simps permits_def with_zset_def put_zset_def prune_def
      incr_other split: option.splits rval.splits if_splits sum.splits)

lemma sem_acquire_grant:
  fixes k fk tok t mx ft s
  assumes "permits (ks s) k = Some z" "length (prune (clock s) z) < mx" "ttl_ok (clock s) t" "k \<noteq> fk"
    and "counter (ks s) fk = Some n" "n < i64_max"
  defines "r \<equiv> semaphore_acquire_lua exec [k, fk] [tok, show_nat t, show_nat mx, ft] s"
  shows "fst r = Inr (1, n + 1)" "counter (ks (snd r)) fk = Some (n + 1)"
  using assms counter_range [OF assms(5)] unfolding r_def semaphore_acquire_lua_def lua_now_run
  by (auto simp: lua_simps lcall_simps lua_now_run redis_simps permits_def with_zset_def put_zset_def prune_def
      counter_str split: option.splits rval.splits if_splits)

lemma sem_acquire_wrong:
  assumes "permits (ks s) k = None"
  shows "fst (semaphore_acquire_lua exec (k # KEYS) ARGV s) \<in> range Inl"
    and "ks (snd (semaphore_acquire_lua exec (k # KEYS) ARGV s)) = ks s"
proof -
  obtain v e where v: "ks s k = Some (v, e)" "\<nexists>z. v = VZset z"
    using assms by (auto simp: permits_def split: option.splits rval.splits)
  then have w: "with_zset (ks s) k f = (err_type, ks s)" for f
    by (cases v) (simp_all add: with_zset_def)
  show "fst (semaphore_acquire_lua exec (k # KEYS) ARGV s) \<in> range Inl"
    and "ks (snd (semaphore_acquire_lua exec (k # KEYS) ARGV s)) = ks s"
    unfolding semaphore_acquire_lua_def lua_now_run
    by (simp_all add: lbind_run call1_def need_def lcall_simps lua_now_run(3,4) doc_plain w err_type_def)
qed

lemma sem_extend_held:
  assumes "ks s k = Some (VZset z, e)" "map_of z tok = Some sc" "ttl_ok (clock s) t"
  shows "fst (semaphore_extend_lua exec [k] [tok, show_nat t] s) = Inr 1"
    and "ks (snd (semaphore_extend_lua exec [k] [tok, show_nat t] s)) =
      (ks s)(k \<mapsto> (VZset (AList.update tok (int (clock s + t)) z), Some (clock s + t)))"
  using assms unfolding semaphore_extend_lua_def lua_now_run
  by (simp_all add: lua_simps lcall_simps lua_now_run redis_simps with_zset_def put_zset_def)

lemma sem_extend_gone:
  assumes "\<nexists>z e sc. ks s k = Some (VZset z, e) \<and> map_of z tok = Some sc"
  shows "fst (semaphore_extend_lua exec [k] (tok # ARGV) s) \<in> {Inr 0} \<union> range Inl"
    and "ks (snd (semaphore_extend_lua exec [k] (tok # ARGV) s)) = ks s"
  using assms unfolding semaphore_extend_lua_def lua_now_run
  by (auto simp: lua_simps lcall_simps lua_now_run redis_simps with_zset_def
      split: option.splits rval.splits)

lemma sem_release_state:
  "ks (snd (semaphore_release_lua exec [k] [tok] s)) = (case ks s k of
     Some (VZset z, e) \<Rightarrow> put_zset k e (AList.delete tok z) (ks s) | _ \<Rightarrow> ks s)"
  unfolding semaphore_release_lua_def
  by (auto simp: lua_simps lcall_simps redis_simps with_zset_def put_zset_def fun_upd_idem
      delete_notin_dom dest!: map_of_SomeD split: option.splits rval.splits if_splits)

end

section \<open>Admission\<close>

record 's sem_cfg =
  sm_srv :: 's
  sm_belief :: "string \<Rightarrow> nat option"

text \<open>Any client of one semaphore, all using the same lease \<open>L\<close>: acquisitions, extensions,
  releases and drops with any delivery, passing time and traffic on other keys. A grant or an
  answered extension lets its token believe in a permit until the end of the lease.\<close>

inductive sem_step ::
  "'s server \<Rightarrow> ('s \<Rightarrow> keyspace) \<Rightarrow> ('s \<Rightarrow> nat) \<Rightarrow> (nat \<Rightarrow> 's \<Rightarrow> 's) \<Rightarrow> RedisSemaphore \<Rightarrow> duration \<Rightarrow>
   's sem_cfg \<Rightarrow> 's sem_cfg \<Rightarrow> bool"
  for exec ks clock pass sem L where
  granted: "try_acquire exec d sem tok opts (sm_srv c) = (Inr p, s') \<Longrightarrow> lo_ttl opts = L \<Longrightarrow>
    lease_ok L (clock (sm_srv c)) \<Longrightarrow>
    sem_step exec ks clock pass sem L c
      (c\<lparr>sm_srv := s', sm_belief := (sm_belief c)(tok \<mapsto> clock (sm_srv c) + as_millis L)\<rparr>)"
| refused: "try_acquire exec d sem tok opts (sm_srv c) = (Inl e, s') \<Longrightarrow> lo_ttl opts = L \<Longrightarrow>
    lease_ok L (clock (sm_srv c)) \<Longrightarrow> sem_step exec ks clock pass sem L c (c\<lparr>sm_srv := s'\<rparr>)"
| extended: "permit_extend exec d p L (sm_srv c) = (Inr (), p', s') \<Longrightarrow> pm_key p = sem_key sem \<Longrightarrow>
    lease_ok L (clock (sm_srv c)) \<Longrightarrow>
    sem_step exec ks clock pass sem L c
      (c\<lparr>sm_srv := s', sm_belief := (sm_belief c)(pm_token p \<mapsto> clock (sm_srv c) + as_millis L)\<rparr>)"
| not_extended: "permit_extend exec d p L (sm_srv c) = (Inl e, p', s') \<Longrightarrow> pm_key p = sem_key sem \<Longrightarrow>
    lease_ok L (clock (sm_srv c)) \<Longrightarrow> sem_step exec ks clock pass sem L c (c\<lparr>sm_srv := s'\<rparr>)"
| released: "permit_release exec d p (sm_srv c) = (r, p', s') \<Longrightarrow> pm_key p = sem_key sem \<Longrightarrow>
    sem_step exec ks clock pass sem L c
      (c\<lparr>sm_srv := s', sm_belief := (sm_belief c)(pm_token p := None)\<rparr>)"
| dropped: "pm_key p = sem_key sem \<Longrightarrow>
    sem_step exec ks clock pass sem L c
      (c\<lparr>sm_srv := permit_drop exec d rt p (sm_srv c), sm_belief := (sm_belief c)(pm_token p := None)\<rparr>)"
| time: "sem_step exec ks clock pass sem L c (c\<lparr>sm_srv := pass dt (sm_srv c)\<rparr>)"
| other_keys: "ks s' (sem_key sem) = ks (sm_srv c) (sem_key sem) \<Longrightarrow> clock s' = clock (sm_srv c) \<Longrightarrow>
    sem_step exec ks clock pass sem L c (c\<lparr>sm_srv := s'\<rparr>)"

inductive sem_reach ::
  "'s server \<Rightarrow> ('s \<Rightarrow> keyspace) \<Rightarrow> ('s \<Rightarrow> nat) \<Rightarrow> (nat \<Rightarrow> 's \<Rightarrow> 's) \<Rightarrow> RedisSemaphore \<Rightarrow> duration \<Rightarrow>
   's sem_cfg \<Rightarrow> bool"
  for exec ks clock pass sem L where
  start: "ks (sm_srv c) (sem_key sem) = None \<Longrightarrow> sm_belief c = Map.empty \<Longrightarrow> sem_reach exec ks clock pass sem L c"
| step: "sem_reach exec ks clock pass sem L c \<Longrightarrow> sem_step exec ks clock pass sem L c c' \<Longrightarrow>
    sem_reach exec ks clock pass sem L c'"

definition covered :: "nat \<Rightarrow> keyspace \<Rightarrow> string \<Rightarrow> (string \<Rightarrow> nat option) \<Rightarrow> bool" where
  "covered now m k B \<longleftrightarrow> (\<forall>t b. B t = Some b \<longrightarrow> now < b \<longrightarrow>
     (\<exists>z e sc. m k = Some (VZset z, e) \<and> map_of z t = Some sc \<and> int b \<le> sc))"

definition bounded_set :: "nat \<Rightarrow> nat \<Rightarrow> nat \<Rightarrow> keyspace \<Rightarrow> string \<Rightarrow> bool" where
  "bounded_set L mx now m k \<longleftrightarrow> (\<forall>z e. m k = Some (VZset z, e) \<longrightarrow>
     distinct (map fst z) \<and> length z \<le> mx \<and>
     (\<exists>x. e = Some x \<and> (\<forall>(t, sc) \<in> set z. sc \<le> int x)) \<and> (\<forall>(t, sc) \<in> set z. sc \<le> int (now + L)))"

lemma map_of_filter_val:
  "distinct (map fst z) \<Longrightarrow> map_of z t = Some sc \<Longrightarrow> P sc \<Longrightarrow> map_of (filter (\<lambda>(_, v). P v) z) t = Some sc"
  by (induction z) (auto simp: rev_image_eqI dest: map_of_SomeD)

lemma set_alist_update: "distinct (map fst z) \<Longrightarrow> set (AList.update k v z) \<subseteq> insert (k, v) (set z)"
  by (induction z) auto

lemma distinct_alist_update: "distinct (map fst z) \<Longrightarrow> distinct (map fst (AList.update k v z))"
  by (rule distinct_update)

lemma distinct_prune: "distinct (map fst z) \<Longrightarrow> distinct (map fst (prune now z))"
  by (simp add: prune_def distinct_map_filter)

lemma permits_set: "permits m k = Some z \<Longrightarrow> m k = None \<and> z = [] \<or> (\<exists>e. m k = Some (VZset z, e))"
  by (auto simp: permits_def split: option.splits rval.splits)

text \<open>Writing a score that ends the lease last covers the writer and everybody covered before.\<close>

lemma covered_update:
  assumes "covered now m k B" "m k = Some (VZset zo, eo) \<or> m k = None \<and> zo = []" "bounded_set L mx now m k"
    and "m' k = Some (VZset (AList.update tok (int (now + L)) zn), e)"
    and "\<And>t sc. map_of zo t = Some sc \<Longrightarrow> int now < sc \<Longrightarrow> map_of zn t = Some sc"
  shows "covered now m' k (B(tok \<mapsto> now + L))" and "covered now m' k B"
proof -
  have old: "\<exists>sc. map_of zn t = Some sc \<and> int b \<le> sc \<and> sc \<le> int (now + L)"
    if tb: "B t = Some b" "now < b" for t b
  proof -
    obtain z e sc where z: "m k = Some (VZset z, e)" "map_of z t = Some sc" "int b \<le> sc"
      using assms(1) tb unfolding covered_def by blast
    then have "z = zo" using assms(2) by auto
    moreover have "sc \<le> int (now + L)"
      using assms(3) z(1) map_of_SomeD [OF z(2)] by (auto simp: bounded_set_def)
    ultimately show ?thesis using z(2,3) assms(5) tb(2) by force
  qed
  show "covered now m' k (B(tok \<mapsto> now + L))"
    unfolding covered_def using assms(4) old by fastforce
  then show "covered now m' k B"
    unfolding covered_def using assms(4) old by fastforce
qed

lemma bounded_update:
  assumes "\<forall>(t, sc) \<in> set z. sc \<le> int (now + L)" "distinct (map fst z)"
    and "length (AList.update tok (int (now + L)) z) \<le> mx"
    and "m' k = Some (VZset (AList.update tok (int (now + L)) z), Some (now + L))"
  shows "bounded_set L mx now m' k"
  using assms set_alist_update [OF assms(2), of tok "int (now + L)"] distinct_alist_update [OF assms(2)]
  unfolding bounded_set_def by fastforce

lemma bounded_sub:
  assumes "bounded_set L mx now m k" "m k = Some (VZset z, e) \<or> m k = None \<and> z = []"
    and "set z' \<subseteq> set z" "length z' \<le> length z" "distinct (map fst z')"
  shows "bounded_set L mx now (put_zset k e z' m) k"
  using assms unfolding bounded_set_def put_zset_def by (auto split: if_splits) fastforce+

lemma length_prune: "length (prune now z) \<le> length z"
  by (simp add: prune_def)

lemma set_prune: "set (prune now z) \<subseteq> set z"
  by (auto simp: prune_def)

lemma map_of_prune: "distinct (map fst z) \<Longrightarrow> map_of z t = Some sc \<Longrightarrow> int now < sc \<Longrightarrow> map_of (prune now z) t = Some sc"
  by (simp add: prune_def map_of_filter_val)

context redis_server
begin

lemma sem_acquire_keeps:
  fixes tok L mx ft s k
  assumes inv: "covered (clock s) (ks s) k B" "bounded_set L mx (clock s) (ks s) k" and L: "ttl_ok (clock s) L"
  defines "r \<equiv> semaphore_acquire_lua exec [k, fence_key_for k] [tok, show_nat L, show_nat mx, ft] s"
  shows "covered (clock s) (ks (snd r)) k B \<and> bounded_set L mx (clock s) (ks (snd r)) k \<and>
    (\<forall>f. fst r = Inr (1, f) \<longrightarrow> covered (clock s) (ks (snd r)) k (B(tok \<mapsto> clock s + L)))"
proof (cases "permits (ks s) k")
  case None
  have "fst r \<in> range Inl" "ks (snd r) = ks s"
    unfolding r_def by (rule sem_acquire_wrong [OF None])+
  with inv show ?thesis by auto
next
  case (Some z)
  note z = permits_set [OF Some]
  have d: "distinct (map fst z)" using z inv(2) by (auto simp: bounded_set_def)
  show ?thesis
  proof (cases "length (prune (clock s) z) < mx")
    case True
    note room = sem_acquire_room(1) [OF Some True L fence_key_neq(2), of tok ft, folded r_def]
    have z': "ks s k = Some (VZset z, key_expiry (ks s) k) \<or> ks s k = None \<and> z = []"
      using z by (auto simp: key_expiry_def)
    have "covered (clock s) (ks (snd r)) k (B(tok \<mapsto> clock s + L))" "covered (clock s) (ks (snd r)) k B"
      by (rule covered_update [where zn = "prune (clock s) z" and m = "ks s" and m' = "ks (snd r)" and k = k, OF inv(1) z' inv(2) room]; simp add: map_of_prune [OF d])+
    moreover have "bounded_set L mx (clock s) (ks (snd r)) k"
    proof (rule bounded_update [where m' = "ks (snd r)" and k = k, OF _ distinct_prune [OF d] _ room])
      show "\<forall>(t, sc) \<in> set (prune (clock s) z). sc \<le> int (clock s + L)"
        using z inv(2) set_prune [of "clock s" z] unfolding bounded_set_def by fastforce
      show "length (AList.update tok (int (clock s + L)) (prune (clock s) z)) \<le> mx"
        using True by (simp add: length_update)
    qed
    ultimately show ?thesis by simp
  next
    case False
    then have "\<not> int (length (prune (clock s) z)) < int mx" by simp
    note full = sem_acquire_full [OF Some this, of "fence_key_for k" tok L ft, folded r_def]
    have z': "ks s k = Some (VZset z, key_expiry (ks s) k) \<or> ks s k = None \<and> z = []"
      using z by (auto simp: key_expiry_def)
    have "bounded_set L mx (clock s) (ks (snd r)) k"
      unfolding full(2) by (rule bounded_sub [OF inv(2) z' set_prune length_prune distinct_prune [OF d]])
    moreover have "covered (clock s) (ks (snd r)) k B"
      unfolding covered_def
    proof (intro allI impI)
      fix t b assume "B t = Some b" "clock s < b"
      then obtain sc where sc: "map_of z t = Some sc" "int b \<le> sc" "ks s k \<noteq> None"
        using inv(1) z unfolding covered_def by fastforce
      then have "map_of (prune (clock s) z) t = Some sc"
        using map_of_prune [OF d] \<open>clock s < b\<close> by simp
      then show "\<exists>z e sc. ks (snd r) k = Some (VZset z, e) \<and> map_of z t = Some sc \<and> int b \<le> sc"
        using full(2) sc(2) by (auto simp: put_zset_def)
    qed
    ultimately show ?thesis using full(1) by simp
  qed
qed

lemma sem_extend_keeps:
  fixes tok L s k
  assumes inv: "covered (clock s) (ks s) k B" "bounded_set L mx (clock s) (ks s) k" and L: "ttl_ok (clock s) L"
  defines "r \<equiv> semaphore_extend_lua exec [k] [tok, show_nat L] s"
  shows "covered (clock s) (ks (snd r)) k B \<and> bounded_set L mx (clock s) (ks (snd r)) k \<and>
    (fst r = Inr 1 \<longrightarrow> covered (clock s) (ks (snd r)) k (B(tok \<mapsto> clock s + L)))"
proof (cases "\<exists>z e sc. ks s k = Some (VZset z, e) \<and> map_of z tok = Some sc")
  case False
  with inv sem_extend_gone [OF False, of "[show_nat L]"] show ?thesis by (auto simp: r_def)
next
  case True
  then obtain z e sc where z: "ks s k = Some (VZset z, e)" "map_of z tok = Some sc" by blast
  note held = sem_extend_held [OF z L, folded r_def]
  have b: "distinct (map fst z)" "length z \<le> mx" "\<forall>(t, sc) \<in> set z. sc \<le> int (clock s + L)"
    using z(1) inv(2) unfolding bounded_set_def by blast+
  have m': "ks (snd r) k = Some (VZset (AList.update tok (int (clock s + L)) z), Some (clock s + L))"
    using held(2) by simp
  have "covered (clock s) (ks (snd r)) k (B(tok \<mapsto> clock s + L))" "covered (clock s) (ks (snd r)) k B"
    by (rule covered_update [where zn = z and m = "ks s" and m' = "ks (snd r)" and k = k, OF inv(1) disjI1 [OF z(1)] inv(2) m']; simp)+
  moreover have "bounded_set L mx (clock s) (ks (snd r)) k"
    using b z(2) by (intro bounded_update [where m' = "ks (snd r)" and k = k, OF b(3,1) _ m']) (simp add: length_update)
  ultimately show ?thesis by simp
qed

lemma sem_release_keeps:
  fixes tok s k
  assumes inv: "covered (clock s) (ks s) k B" "bounded_set L mx (clock s) (ks s) k"
  defines "s' \<equiv> snd (semaphore_release_lua exec [k] [tok] s)"
  shows "covered (clock s) (ks s') k (B(tok := None)) \<and> bounded_set L mx (clock s) (ks s') k"
proof (cases "\<exists>z e. ks s k = Some (VZset z, e)")
  case False
  then have "ks s' = ks s" by (auto simp: s'_def sem_release_state split: option.splits rval.splits)
  with inv show ?thesis by (auto simp: covered_def)
next
  case True
  then obtain z e where z: "ks s k = Some (VZset z, e)" by blast
  then have s': "ks s' = put_zset k e (AList.delete tok z) (ks s)" by (simp add: s'_def sem_release_state)
  have d: "distinct (map fst z)" using z inv(2) by (auto simp: bounded_set_def)
  have "bounded_set L mx (clock s) (ks s') k"
    unfolding s' by (rule bounded_sub [OF inv(2) disjI1 [OF z]])
      (use d in \<open>auto simp: AList.delete_eq distinct_map_filter length_filter_le\<close>)
  moreover have "covered (clock s) (ks s') k (B(tok := None))"
    unfolding covered_def
  proof (intro allI impI)
    fix t b assume t: "(B(tok := None)) t = Some b" "clock s < b"
    then have "t \<noteq> tok" "B t = Some b" by (auto split: if_splits)
    then obtain sc where sc: "map_of z t = Some sc" "int b \<le> sc"
      using inv(1) z t(2) unfolding covered_def by fastforce
    then have del: "map_of (AList.delete tok z) t = Some sc" using \<open>t \<noteq> tok\<close> by simp
    then have "AList.delete tok z \<noteq> []" by (metis map_of.simps(1) option.distinct(1))
    with del sc(2) s' show "\<exists>z e sc. ks s' k = Some (VZset z, e) \<and> map_of z t = Some sc \<and> int b \<le> sc"
      by (auto simp: put_zset_def)
  qed
  ultimately show ?thesis by simp
qed

definition sem_inv :: "RedisSemaphore \<Rightarrow> duration \<Rightarrow> 's sem_cfg \<Rightarrow> bool" where
  "sem_inv sem L c \<longleftrightarrow>
     covered (clock (sm_srv c)) (ks (sm_srv c)) (sem_key sem) (sm_belief c) \<and>
     bounded_set (as_millis L) (unat (max_permits sem)) (clock (sm_srv c)) (ks (sm_srv c)) (sem_key sem)"

lemma try_acquire_cases:
  fixes sem tok opts
  assumes "try_acquire exec d sem tok opts s = (r, s')"
  defines "P \<equiv> semaphore_acquire_lua exec [sem_key sem, fence_key_for (sem_key sem)]
     [tok, ttl_arg (lo_ttl opts), show_nat (unat (max_permits sem)), fence_ttl_arg (lo_ttl opts)]"
  shows "s' = s \<or> s' = snd (P s)" and "r = Inr p \<Longrightarrow> s' = snd (P s) \<and> (\<exists>f. fst (P s) = Inr (1, f))"
proof -
  show "s' = s \<or> s' = snd (P s)"
    using assms(1) invoke_state [of d "''semaphore acquire failed''" P s] unfolding P_def
    by (auto simp: try_acquire_def split: sum.splits prod.splits if_splits)
  show "s' = snd (P s) \<and> (\<exists>f. fst (P s) = Inr (1, f))" if "r = Inr p"
    using assms(1) that unfolding P_def
    by (auto simp: try_acquire_def split: sum.splits prod.splits if_splits dest!: invoke_InrD)
qed

lemma permit_extend_cases:
  fixes p ttl
  assumes "permit_extend exec d p ttl s = (r, p', s')"
  defines "P \<equiv> semaphore_extend_lua exec [pm_key p] [pm_token p, ttl_arg ttl]"
  shows "s' = s \<or> s' = snd (P s)" and "r = Inr () \<Longrightarrow> s' = snd (P s) \<and> fst (P s) = Inr 1"
proof -
  show "s' = s \<or> s' = snd (P s)"
    using assms(1) invoke_state [of d "''semaphore extend failed''" P s] unfolding P_def
    by (auto simp: permit_extend_def split: sum.splits prod.splits if_splits)
  show "s' = snd (P s) \<and> fst (P s) = Inr 1" if "r = Inr ()"
    using assms(1) that unfolding P_def
    by (auto simp: permit_extend_def split: sum.splits prod.splits if_splits dest!: invoke_InrD)
qed

lemma permit_release_cases:
  assumes "permit_release exec d p s = (r, p', s')"
  shows "s' = s \<or> s' = snd (semaphore_release_lua exec [pm_key p] [pm_token p] s)"
  using assms invoke_state [of d "''semaphore release failed''" "semaphore_release_lua exec [pm_key p] [pm_token p]" s]
  by (auto simp: permit_release_def split: sum.splits prod.splits if_splits)

lemma permit_drop_cases:
  "permit_drop exec d rt p s = s \<or> permit_drop exec d rt p s = snd (semaphore_release_lua exec [pm_key p] [pm_token p] s)"
  using invoke_state [of d "''''" "semaphore_release_lua exec [pm_key p] [pm_token p]" s]
  by (auto simp: permit_drop_def)

lemma covered_forget: "covered now m k B \<Longrightarrow> covered now m k (B(t := None))"
  unfolding covered_def by auto

lemma sem_release_inv:
  assumes "sem_inv sem L c" "s' = sm_srv c \<or> s' = snd (semaphore_release_lua exec [sem_key sem] [tok] (sm_srv c))"
  shows "sem_inv sem L (c\<lparr>sm_srv := s', sm_belief := (sm_belief c)(tok := None)\<rparr>)"
  using assms sem_release_keeps [of "sm_srv c" "sem_key sem" "sm_belief c" "as_millis L" "unat (max_permits sem)" tok]
  by (auto simp: sem_inv_def sem_release_clock covered_forget)

lemma sem_step_inv:
  assumes "sem_step exec ks clock pass sem L c c'" "sem_inv sem L c"
  shows "sem_inv sem L c'"
  using assms
proof (induction rule: sem_step.induct)
  case (granted d tok opts c p s')
  note l = lease_okD [OF granted(3)]
  show ?case
    using try_acquire_cases(2) [OF granted(1) refl] granted(2,4) l(4)
      sem_acquire_keeps [OF _ _ l(2), of "sem_key sem" "sm_belief c" "unat (max_permits sem)" tok]
    by (auto simp: sem_inv_def sem_acquire_clock)
next
  case (refused d tok opts c e s')
  note l = lease_okD [OF refused(3)]
  show ?case
    using try_acquire_cases(1) [OF refused(1)] refused(2,4) l(4)
      sem_acquire_keeps [OF _ _ l(2), of "sem_key sem" "sm_belief c" "unat (max_permits sem)" tok]
    by (auto simp: sem_inv_def sem_acquire_clock)
next
  case (extended d p c p' s')
  note l = lease_okD [OF extended(3)]
  show ?case
    using permit_extend_cases(2) [OF extended(1) refl] extended(2,4) l(4)
      sem_extend_keeps [OF _ _ l(2), of "sem_key sem" "sm_belief c" "unat (max_permits sem)" "pm_token p"]
    by (auto simp: sem_inv_def sem_extend_clock)
next
  case (not_extended d p c e p' s')
  note l = lease_okD [OF not_extended(3)]
  show ?case
    using permit_extend_cases(1) [OF not_extended(1)] not_extended(2,4) l(4)
      sem_extend_keeps [OF _ _ l(2), of "sem_key sem" "sm_belief c" "unat (max_permits sem)" "pm_token p"]
    by (auto simp: sem_inv_def sem_extend_clock)
next
  case (released d p c r p' s')
  then show ?case using permit_release_cases [OF released(1)] sem_release_inv by metis
next
  case (dropped p c d rt)
  then show ?case using permit_drop_cases [of d rt p "sm_srv c"] sem_release_inv by metis
next
  case (time c dt)
  then show ?case
    unfolding sem_inv_def covered_def bounded_set_def
    by (fastforce simp: pass_clock pass_ks expire_def dest!: map_of_SomeD split: option.splits if_splits)
next
  case (other_keys s' c)
  then show ?case by (simp add: sem_inv_def covered_def bounded_set_def)
qed

lemma sem_reach_inv: "sem_reach exec ks clock pass sem L c \<Longrightarrow> sem_inv sem L c"
proof (induction rule: sem_reach.induct)
  case (start c)
  then show ?case by (simp add: sem_inv_def covered_def bounded_set_def)
next
  case (step c c')
  then show ?case by (blast intro: sem_step_inv)
qed

lemma sem_inv_card:
  assumes "sem_inv sem L c"
  shows "card {t. \<exists>b. sm_belief c t = Some b \<and> clock (sm_srv c) < b} \<le> unat (max_permits sem)"
proof (cases "\<exists>z e. ks (sm_srv c) (sem_key sem) = Some (VZset z, e)")
  case True
  then obtain z e where z: "ks (sm_srv c) (sem_key sem) = Some (VZset z, e)" by blast
  have "{t. \<exists>b. sm_belief c t = Some b \<and> clock (sm_srv c) < b} \<subseteq> fst ` set z"
    using assms z unfolding sem_inv_def covered_def by (force dest!: map_of_SomeD)
  then have "card {t. \<exists>b. sm_belief c t = Some b \<and> clock (sm_srv c) < b} \<le> card (fst ` set z)"
    by (intro card_mono) auto
  also have "\<dots> \<le> length z" using card_image_le card_length le_trans by (metis finite_set)
  also have "\<dots> \<le> unat (max_permits sem)" using assms z by (auto simp: sem_inv_def bounded_set_def)
  finally show ?thesis .
next
  case False
  then have "{t. \<exists>b. sm_belief c t = Some b \<and> clock (sm_srv c) < b} = {}"
    using assms unfolding sem_inv_def covered_def by blast
  then show ?thesis by (simp only: card.empty le0)
qed

end

section \<open>Properties\<close>

text \<open>Property C12. The semaphore admits at most its capacity. When all clients use the same lease,
  then however their acquisitions, extensions, releases and drops interleave with time and lost
  messages, no more than \<^verbatim>\<open>max_permits\<close> tokens have a permit whose lease has not run out.\<close>

theorem semaphore_bounds_holders:
  assumes "redis_server exec ks clock pass" "sem_reach exec ks clock pass sem L c"
  shows "card {t. \<exists>b. sm_belief c t = Some b \<and> clock (sm_srv c) < b} \<le> unat (max_permits sem)"
  using assms(1) redis_server.sem_reach_inv [OF assms] by (rule redis_server.sem_inv_card)

text \<open>A run for the witness: one permit of a semaphore with two.\<close>

definition ex_sem :: RedisSemaphore where
  "ex_sem = \<lparr>sem_key = ''s'', max_permits = 2\<rparr>"

definition ex_sem_grant :: "PermitShared result \<times> mem" where
  "ex_sem_grant = try_acquire mem_exec Delivered ex_sem ''a'' default_options mem_init"

definition ex_sem_cfg :: "mem sem_cfg" where
  "ex_sem_cfg = \<lparr>sm_srv = snd ex_sem_grant, sm_belief = [''a'' \<mapsto> 30000]\<rparr>"

lemma ex_lease: "lease_ok (lo_ttl default_options) 0" "as_millis (lo_ttl default_options) = 30000"
  by (simp_all add: lease_ok_def default_options_def MIN_TTL_def from_secs_def from_millis_def as_millis_def)

context redis_server
begin

lemma try_acquire_room:
  assumes "lease_ok (lo_ttl opts) (clock s)" "permits (ks s) (sem_key sem) = Some z"
    and "length (prune (clock s) z) < unat (max_permits sem)"
    and "counter (ks s) (fence_key_for (sem_key sem)) = Some n" "n < i64_max"
  shows "\<exists>p. fst (try_acquire exec Delivered sem tok opts s) = Inr p"
    and "ks (snd (try_acquire exec Delivered sem tok opts s)) (sem_key sem) =
      Some (VZset (AList.update tok (int (clock s + as_millis (lo_ttl opts))) (prune (clock s) z)),
        Some (clock s + as_millis (lo_ttl opts)))"
    and "clock (snd (try_acquire exec Delivered sem tok opts s)) = clock s"
    and "counter (ks (snd (try_acquire exec Delivered sem tok opts s))) (fence_key_for (sem_key sem)) = Some (n + 1)"
proof -
  note l = lease_okD [OF assms(1)]
  let ?k = "sem_key sem" and ?t = "as_millis (lo_ttl opts)"
  let ?r = "semaphore_acquire_lua exec [?k, fence_key_for ?k]
     [tok, ttl_arg (lo_ttl opts), show_nat (unat (max_permits sem)), fence_ttl_arg (lo_ttl opts)] s"
  have v: "validate opts = Inr ()" using l(1) by (simp add: validate_def)
  note r = sem_acquire_grant [OF assms(2,3) l(2) fence_key_neq(2) assms(4,5), of tok "fence_ttl_arg (lo_ttl opts)", folded l(4)]
  note room = sem_acquire_room(1) [OF assms(2,3) l(2) fence_key_neq(2), of tok "fence_ttl_arg (lo_ttl opts)", folded l(4)]
  show "\<exists>p. fst (try_acquire exec Delivered sem tok opts s) = Inr p"
    and "ks (snd (try_acquire exec Delivered sem tok opts s)) ?k =
      Some (VZset (AList.update tok (int (clock s + ?t)) (prune (clock s) z)), Some (clock s + ?t))"
    and "clock (snd (try_acquire exec Delivered sem tok opts s)) = clock s"
    and "counter (ks (snd (try_acquire exec Delivered sem tok opts s))) (fence_key_for ?k) = Some (n + 1)"
    using r room v by (simp_all add: try_acquire_def invoke_Delivered sem_acquire_clock)
qed

end

lemma ex_sem_start: "permits (mem_ks mem_init) k = Some []" "counter (mem_ks mem_init) k = Some 0" "fst mem_init = 0"
  by (simp_all add: permits_def mem_init_def mem_ks_def expire_def counter_def)

lemma ex_sem_reach: "sem_reach mem_exec mem_ks fst mem_pass ex_sem (lo_ttl default_options) ex_sem_cfg"
proof (rule sem_reach.step)
  let ?c = "\<lparr>sm_srv = mem_init, sm_belief = Map.empty\<rparr>"
  show "sem_reach mem_exec mem_ks fst mem_pass ex_sem (lo_ttl default_options) ?c"
    by (rule sem_reach.start) (simp_all add: mem_init_def mem_ks_def expire_def)
  obtain p where p: "fst ex_sem_grant = Inr p"
    using mem.try_acquire_room(1) [of default_options mem_init ex_sem "[]" 0 "''a''"]
    by (auto simp: ex_sem_grant_def ex_sem_start ex_lease prune_def ex_sem_def)
  have "try_acquire mem_exec Delivered ex_sem ''a'' default_options (sm_srv ?c) = (Inr p, snd ex_sem_grant)"
    using p by (simp add: ex_sem_grant_def prod_eq_iff)
  from sem_step.granted [where clock = fst and ks = mem_ks and pass = mem_pass, OF this refl]
  show "sem_step mem_exec mem_ks fst mem_pass ex_sem (lo_ttl default_options) ?c ex_sem_cfg"
    by (simp add: ex_sem_start ex_lease ex_sem_cfg_def)
qed

theorem semaphore_bounds_holders_witness:
  "card {t. \<exists>b. sm_belief ex_sem_cfg t = Some b \<and> fst (sm_srv ex_sem_cfg) < b} \<le> 2"
  using semaphore_bounds_holders [OF mem.redis_server_axioms ex_sem_reach] by (simp add: ex_sem_def)

text \<open>Mixed leases over-admit. Every grant and extension sets the lifetime of the whole
  set to its own lease. If a full semaphore of capacity two has a permit for lease \<open>L1\<close> and then one
  for a shorter lease \<open>L2\<close>, then \<open>L2\<close> later the set is gone although the first permit
  still runs, and two more permits are granted: three tokens hold unexpired permits.\<close>

theorem mixed_leases_overadmit:
  assumes srv: "redis_server exec ks clock pass"
    and "max_permits sem = 2" "ks s (sem_key sem) = None" "ks s (fence_key_for (sem_key sem)) = None"
    and L: "lease_ok (lo_ttl o1) (clock s + as_millis (lo_ttl o1))" "MIN_TTL \<le> lo_ttl o2" "as_millis (lo_ttl o2) < as_millis (lo_ttl o1)"
    and s1: "s1 = snd (try_acquire exec Delivered sem ''a'' o1 s)"
    and s2: "s2 = snd (try_acquire exec Delivered sem ''b'' o2 s1)"
    and s3: "s3 = pass (as_millis (lo_ttl o2)) s2"
    and s4: "s4 = snd (try_acquire exec Delivered sem ''c'' o1 s3)"
  shows "is_ok (fst (try_acquire exec Delivered sem ''a'' o1 s)) \<and> is_ok (fst (try_acquire exec Delivered sem ''b'' o2 s1)) \<and>
    is_ok (fst (try_acquire exec Delivered sem ''c'' o1 s3)) \<and> is_ok (fst (try_acquire exec Delivered sem ''d'' o1 s4)) \<and>
    clock s4 < clock s + as_millis (lo_ttl o1)"
proof -
  let ?k = "sem_key sem" and ?fk = "fence_key_for (sem_key sem)"
  have lease: "lease_ok (lo_ttl o1) t \<and> lease_ok (lo_ttl o2) t" if "t \<le> clock s + as_millis (lo_ttl o1)" for t
    using that L by (auto simp: lease_ok_def)
  have two: "unat (max_permits sem) = 2" using assms(2) by simp
  note room = redis_server.try_acquire_room [OF srv]
  have p: "permits (ks s) ?k = Some []" "counter (ks s) ?fk = Some 0"
    using assms(3,4) by (simp_all add: permits_def counter_def)
  note r1 = room [OF conjunct1 [OF lease] p(1) _ p(2), of "''a''", folded s1]
  have c1: "clock s1 = clock s" "counter (ks s1) ?fk = Some 1"
    "ks s1 ?k = Some (VZset [(''a'', int (clock s + as_millis (lo_ttl o1)))], Some (clock s + as_millis (lo_ttl o1)))"
    using r1(2-4) two by (simp_all add: prune_def)
  have pos: "0 < as_millis (lo_ttl o1)" using L(3) by simp
  then have p1: "permits (ks s1) ?k = Some [(''a'', int (clock s + as_millis (lo_ttl o1)))]"
    "length (prune (clock s1) [(''a'', int (clock s + as_millis (lo_ttl o1)))]) < unat (max_permits sem)"
    using c1(3) two by (simp_all add: permits_def prune_def)
  have l1: "clock s1 \<le> clock s + as_millis (lo_ttl o1)" using c1 by simp
  note r2 = room [OF conjunct2 [OF lease [OF l1]] p1 c1(2), of "''b''", folded s2]
  have c2: "clock s2 = clock s" "counter (ks s2) ?fk = Some 2"
    "\<exists>z. ks s2 ?k = Some (z, Some (clock s + as_millis (lo_ttl o2)))"
    using r2(2-4) c1 by simp_all
  have c3: "clock s3 = clock s + as_millis (lo_ttl o2)" "ks s3 ?k = None"
    using c2 by (auto simp: s3 redis_server.pass_clock [OF srv] redis_server.pass_ks [OF srv] expire_def)
  have cnt: "\<exists>n. counter (ks s3) ?fk = Some n \<and> n \<le> 2"
    using c2(2) by (auto simp: s3 redis_server.pass_ks [OF srv] expire_def counter_def split: option.splits)
  then obtain n where n: "counter (ks s3) ?fk = Some n" "n \<le> 2" by blast
  have p3: "permits (ks s3) ?k = Some []" "length (prune (clock s3) []) < unat (max_permits sem)"
    using c3 two by (simp_all add: permits_def prune_def)
  have l3: "clock s3 \<le> clock s + as_millis (lo_ttl o1)" using c3 L(3) by simp
  note r3 = room [OF conjunct1 [OF lease [OF l3]] p3 n(1), of "''c''", folded s4]
  have n': "n < i64_max" "n + 1 < i64_max" using n(2) by simp_all
  have c4: "clock s4 = clock s3" "counter (ks s4) ?fk = Some (n + 1)"
    "permits (ks s4) ?k = Some [(''c'', int (clock s3 + as_millis (lo_ttl o1)))]"
    using r3(2-4) n' by (simp_all add: prune_def permits_def)
  have p4: "length (prune (clock s4) [(''c'', int (clock s3 + as_millis (lo_ttl o1)))]) < unat (max_permits sem)"
    using two by (simp add: prune_def)
  have l4: "clock s4 \<le> clock s + as_millis (lo_ttl o1)" using c4(1) l3 by simp
  note r4 = room(1) [OF conjunct1 [OF lease [OF l4]] c4(3) p4 c4(2) n'(2), of "''d''"]
  show ?thesis
    using r1(1) r2(1) r3(1) r4 two n' c3 c4 L(3) by (auto simp: prune_def)
qed

definition ex_short :: LockOptions where
  "ex_short = with_ttl_opt (from_secs 1) default_options"

definition ex_s1 :: mem where "ex_s1 = snd (try_acquire mem_exec Delivered ex_sem ''a'' default_options mem_init)"
definition ex_s2 :: mem where "ex_s2 = snd (try_acquire mem_exec Delivered ex_sem ''b'' ex_short ex_s1)"
definition ex_s3 :: mem where "ex_s3 = mem_pass 1000 ex_s2"
definition ex_s4 :: mem where "ex_s4 = snd (try_acquire mem_exec Delivered ex_sem ''c'' default_options ex_s3)"

theorem mixed_leases_overadmit_witness:
  "is_ok (fst (try_acquire mem_exec Delivered ex_sem ''a'' default_options mem_init)) \<and>
   is_ok (fst (try_acquire mem_exec Delivered ex_sem ''b'' ex_short ex_s1)) \<and>
   is_ok (fst (try_acquire mem_exec Delivered ex_sem ''c'' default_options ex_s3)) \<and>
   is_ok (fst (try_acquire mem_exec Delivered ex_sem ''d'' default_options ex_s4)) \<and> fst ex_s4 < 30000"
proof -
  have short: "as_millis (lo_ttl ex_short) = 1000" "MIN_TTL \<le> lo_ttl ex_short"
    by (simp_all add: ex_short_def with_ttl_opt_def from_secs_def as_millis_def MIN_TTL_def from_millis_def)
  have long: "lease_ok (lo_ttl default_options) (fst mem_init + as_millis (lo_ttl default_options))"
    by (simp add: lease_ok_def default_options_def MIN_TTL_def from_secs_def from_millis_def as_millis_def mem_init_def)
  have e: "max_permits ex_sem = 2" "mem_ks mem_init k = None" for k
    by (simp_all add: ex_sem_def mem_init_def mem_ks_def expire_def)
  have s3: "ex_s3 = mem_pass (as_millis (lo_ttl ex_short)) ex_s2" by (simp add: ex_s3_def short)
  have lt: "as_millis (lo_ttl ex_short) < as_millis (lo_ttl default_options)" by (simp add: short ex_lease)
  from mixed_leases_overadmit [OF mem.redis_server_axioms e(1,2,2) long short(2) lt ex_s1_def ex_s2_def s3 ex_s4_def]
  show ?thesis by (simp add: ex_lease mem_init_def)
qed

end
