(* ===== verification/RwLock.thy ===== *)
theory RwLock
  imports Single Refine
begin

text \<open>
  The read-write lock of \<^verbatim>\<open>crates/redis/src/rwlock.rs\<close> and its five scripts: one hash that holds
  either the writer's token or the readers' count with one field per registered reader.

  The specification (free, a list of readers or one writer, with a common expiry) is connected to
  the scripts through the interface of theory \<open>Refine\<close>.
\<close>

section \<open>Scripts\<close>

text \<open>\<^verbatim>\<open>redis.call('HGET', KEYS[1], f) == v\<close>\<close>

definition hget_is :: "'s server \<Rightarrow> string option \<Rightarrow> string \<Rightarrow> string option \<Rightarrow> (bool \<Rightarrow> ('s, 'a) lua) \<Rightarrow> ('s, 'a) lua" where
  "hget_is exec k f v c = lbind (call1 exec (\<lambda>key. HGET key f) k) (\<lambda>r. c (bulk_eq r v))"

text \<open>\<^verbatim>\<open>mode == 'w' and owner == ARGV[1]\<close>, the second call only if the first comparison holds.\<close>

definition writer_is :: "'s server \<Rightarrow> string list \<Rightarrow> string list \<Rightarrow> (bool \<Rightarrow> ('s, 'a) lua) \<Rightarrow> ('s, 'a) lua" where
  "writer_is exec KEYS ARGV c =
     hget_is exec (lua_arg KEYS 1) ''mode'' (Some ''w'') (\<lambda>w.
     if w then hget_is exec (lua_arg KEYS 1) ''owner'' (lua_arg ARGV 1) c else c False)"

definition rw_read_acquire_lua :: "'s server \<Rightarrow> string list \<Rightarrow> string list \<Rightarrow> ('s, int \<times> int) lua" where
  "rw_read_acquire_lua exec KEYS ARGV =
     lbind (call1 exec EXISTS (lua_arg KEYS 1)) (\<lambda>x.
     if rint x = 0 then
       lua_concat (Some ''r:'') (lua_arg ARGV 1) (\<lambda>slot.
       lbind (call1 exec (\<lambda>k. HSET k [(''mode'', ''r''), (''readers'', ''1''), (slot, ''1'')]) (lua_arg KEYS 1)) (\<lambda>_.
       lbind (call2 exec PEXPIRE (lua_arg KEYS 1) (lua_arg ARGV 2)) (\<lambda>_.
       lbind (call1 exec INCR (lua_arg KEYS 2)) (\<lambda>fence. lret (1, rint fence)))))
     else hget_is exec (lua_arg KEYS 1) ''mode'' (Some ''r'') (\<lambda>r.
       if \<not> r then lret (0, 0)
       else lua_concat (Some ''r:'') (lua_arg ARGV 1) (\<lambda>slot.
       lbind (call1 exec (\<lambda>k. HEXISTS k slot) (lua_arg KEYS 1)) (\<lambda>e.
       if rint e = 0 then
         lbind (call1 exec (\<lambda>k. HINCRBY k ''readers'' 1) (lua_arg KEYS 1)) (\<lambda>_.
         lbind (call1 exec (\<lambda>k. HSET k [(slot, ''1'')]) (lua_arg KEYS 1)) (\<lambda>_.
         lbind (call2 exec PEXPIRE (lua_arg KEYS 1) (lua_arg ARGV 2)) (\<lambda>_.
         lbind (call1 exec INCR (lua_arg KEYS 2)) (\<lambda>fence. lret (1, rint fence)))))
       else lret (0, 0)))))"

definition rw_read_release_lua :: "'s server \<Rightarrow> string list \<Rightarrow> string list \<Rightarrow> ('s, int) lua" where
  "rw_read_release_lua exec KEYS ARGV =
     lbind (call1 exec EXISTS (lua_arg KEYS 1)) (\<lambda>x.
     if rint x = 0 then lret (- 1)
     else hget_is exec (lua_arg KEYS 1) ''mode'' (Some ''r'') (\<lambda>r.
     if \<not> r then lret (- 1)
     else lua_concat (Some ''r:'') (lua_arg ARGV 1) (\<lambda>slot.
     lbind (call1 exec (\<lambda>k. HEXISTS k slot) (lua_arg KEYS 1)) (\<lambda>e.
     if rint e = 0 then lret (- 1)
     else lbind (call1 exec (\<lambda>k. HDEL k slot) (lua_arg KEYS 1)) (\<lambda>_.
     lbind (call1 exec (\<lambda>k. HINCRBY k ''readers'' (- 1)) (lua_arg KEYS 1)) (\<lambda>readers.
     if rint readers \<le> 0
     then lbind (call1 exec DEL (lua_arg KEYS 1)) (\<lambda>_. lret 0)
     else lbind (call2 exec PEXPIRE (lua_arg KEYS 1) (lua_arg ARGV 2)) (\<lambda>_. lret (rint readers))))))))"

definition rw_write_acquire_lua :: "'s server \<Rightarrow> string list \<Rightarrow> string list \<Rightarrow> ('s, int \<times> int) lua" where
  "rw_write_acquire_lua exec KEYS ARGV =
     lbind (call1 exec EXISTS (lua_arg KEYS 1)) (\<lambda>x.
     if rint x = 0 then
       lbind (call2 exec (\<lambda>k v. HSET k [(''mode'', ''w''), (''owner'', v)]) (lua_arg KEYS 1) (lua_arg ARGV 1)) (\<lambda>_.
       lbind (call2 exec PEXPIRE (lua_arg KEYS 1) (lua_arg ARGV 2)) (\<lambda>_.
       lbind (call1 exec INCR (lua_arg KEYS 2)) (\<lambda>fence. lret (1, rint fence))))
     else writer_is exec KEYS ARGV (\<lambda>own.
       if own then
         lbind (call2 exec PEXPIRE (lua_arg KEYS 1) (lua_arg ARGV 2)) (\<lambda>_.
         lbind (call1 exec INCR (lua_arg KEYS 2)) (\<lambda>fence. lret (2, rint fence)))
       else lret (0, 0)))"

definition rw_write_release_lua :: "'s server \<Rightarrow> string list \<Rightarrow> string list \<Rightarrow> ('s, int) lua" where
  "rw_write_release_lua exec KEYS ARGV =
     lbind (call1 exec EXISTS (lua_arg KEYS 1)) (\<lambda>x.
     if rint x = 0 then lret (- 1)
     else writer_is exec KEYS ARGV (\<lambda>own.
       if own then lbind (call1 exec DEL (lua_arg KEYS 1)) (\<lambda>_. lret 1) else lret (- 1)))"

definition rw_extend_lua :: "'s server \<Rightarrow> string list \<Rightarrow> string list \<Rightarrow> ('s, int) lua" where
  "rw_extend_lua exec KEYS ARGV =
     lbind (call1 exec EXISTS (lua_arg KEYS 1)) (\<lambda>x.
     if rint x = 0 then lret (- 1)
     else hget_is exec (lua_arg KEYS 1) ''mode'' (Some ''r'') (\<lambda>r.
     if r then lbind (call2 exec PEXPIRE (lua_arg KEYS 1) (lua_arg ARGV 2)) (\<lambda>_. lret 1)
     else writer_is exec KEYS ARGV (\<lambda>own.
       if own then lbind (call2 exec PEXPIRE (lua_arg KEYS 1) (lua_arg ARGV 2)) (\<lambda>_. lret 1)
       else lret (- 1))))"

section \<open>Handles\<close>

record RwShared =
  rw_key :: string
  rw_token :: string
  rw_fence :: FencingToken
  rw_ttl :: duration
  rw_gone :: bool
  write_mode :: bool

definition rw_mark_gone :: "RwShared \<Rightarrow> bool \<times> RwShared" where
  "rw_mark_gone h = (\<not> rw_gone h, h\<lparr>rw_gone := True\<rparr>)"

definition rw_lost :: "RwShared \<Rightarrow> error" where
  "rw_lost h = Lost (rw_key h) (fence_value (rw_fence h))"

definition rw_drop :: "'s server \<Rightarrow> delivery \<Rightarrow> bool \<Rightarrow> RwShared \<Rightarrow> 's \<Rightarrow> 's" where
  "rw_drop exec d runtime h s =
     (if \<not> fst (rw_mark_gone h) then s
      else if \<not> runtime then s
      else if write_mode h then snd (invoke d '''' (rw_write_release_lua exec [rw_key h] [rw_token h]) s)
      else snd (invoke d '''' (rw_read_release_lua exec [rw_key h] [rw_token h, show_nat 0]) s))"

definition validate_ttl :: "duration \<Rightarrow> unit result" where
  "validate_ttl ttl = (if ttl < MIN_TTL then Inl (InvalidConfig ''ttl is below the floor'') else Inr ())"

definition rw_extend ::
  "'s server \<Rightarrow> delivery \<Rightarrow> RwShared \<Rightarrow> duration \<Rightarrow> 's \<Rightarrow> unit result \<times> RwShared \<times> 's" where
  "rw_extend exec d h ttl s =
     (case validate_ttl ttl of
        Inl e \<Rightarrow> (Inl e, h, s)
      | Inr _ \<Rightarrow>
          if rw_gone h then (Inl (rw_lost h), h, s)
          else case invoke d ''rw extend failed'' (rw_extend_lua exec [rw_key h] [rw_token h, ttl_arg ttl]) s of
              (Inl e, t) \<Rightarrow> (Inl e, h, t)
            | (Inr ok, t) \<Rightarrow> if ok < 0 then (Inl (rw_lost h), h\<lparr>rw_gone := True\<rparr>, t) else (Inr (), h, t))"

definition rw_read_release ::
  "'s server \<Rightarrow> delivery \<Rightarrow> RwShared \<Rightarrow> 's \<Rightarrow> unit result \<times> RwShared \<times> 's" where
  "rw_read_release exec d h s =
     (case rw_mark_gone h of (first, h') \<Rightarrow>
        if \<not> first then (Inr (), h', s)
        else case invoke d ''rw read-release failed''
            (rw_read_release_lua exec [rw_key h] [rw_token h, ttl_arg (rw_ttl h)]) s of
            (Inl e, t) \<Rightarrow> (Inl e, h', t)
          | (Inr remaining, t) \<Rightarrow> (if remaining < 0 then Inl (rw_lost h) else Inr (), h', t))"

definition rw_write_release ::
  "'s server \<Rightarrow> delivery \<Rightarrow> RwShared \<Rightarrow> 's \<Rightarrow> unit result \<times> RwShared \<times> 's" where
  "rw_write_release exec d h s =
     (case rw_mark_gone h of (first, h') \<Rightarrow>
        if \<not> first then (Inr (), h', s)
        else case invoke d ''rw write-release failed'' (rw_write_release_lua exec [rw_key h] [rw_token h]) s of
            (Inl e, t) \<Rightarrow> (Inl e, h', t)
          | (Inr ok, t) \<Rightarrow> (if ok < 0 then Inl (rw_lost h) else Inr (), h', t))"

definition rw_new :: "string \<Rightarrow> string \<Rightarrow> int \<Rightarrow> LockOptions \<Rightarrow> bool \<Rightarrow> RwShared" where
  "rw_new key token fence options w =
     \<lparr>rw_key = key, rw_token = token, rw_fence = FencingToken (of_int fence), rw_ttl = lo_ttl options,
      rw_gone = False, write_mode = w\<rparr>"

definition try_read ::
  "'s server \<Rightarrow> delivery \<Rightarrow> string \<Rightarrow> string \<Rightarrow> LockOptions \<Rightarrow> 's \<Rightarrow> RwShared result \<times> 's" where
  "try_read exec d token key options s =
     (case validate options of
        Inl e \<Rightarrow> (Inl e, s)
      | Inr _ \<Rightarrow>
          (case invoke d ''rw read-acquire failed'' (rw_read_acquire_lua exec [key, fence_key_for key]
               [token, ttl_arg (lo_ttl options), fence_ttl_arg (lo_ttl options)]) s of
             (Inl e, t) \<Rightarrow> (Inl e, t)
           | (Inr (status, fence), t) \<Rightarrow>
               if status \<noteq> 1 then (Inl (Held key), t) else (Inr (rw_new key token fence options False), t)))"

definition try_write ::
  "'s server \<Rightarrow> delivery \<Rightarrow> string \<Rightarrow> string \<Rightarrow> LockOptions \<Rightarrow> 's \<Rightarrow> RwShared result \<times> 's" where
  "try_write exec d token key options s =
     (case validate options of
        Inl e \<Rightarrow> (Inl e, s)
      | Inr _ \<Rightarrow>
          (case invoke d ''rw write-acquire failed'' (rw_write_acquire_lua exec [key, fence_key_for key]
               [token, ttl_arg (lo_ttl options), fence_ttl_arg (lo_ttl options)]) s of
             (Inl e, t) \<Rightarrow> (Inl e, t)
           | (Inr (status, fence), t) \<Rightarrow>
               if status = 0 then (Inl (Held key), t) else (Inr (rw_new key token fence options True), t)))"

definition try_read_for ::
  "'s server \<Rightarrow> string \<Rightarrow> LockOptions \<Rightarrow> nat \<Rightarrow> duration \<Rightarrow> 's attempt list \<Rightarrow> 's \<Rightarrow> panic + (RwShared result \<times> 's) option" where
  "try_read_for exec key options =
     poll_for (\<lambda>a s. try_read exec (at_delivery a) (at_token a) key options (at_env a s)) at_now key"

definition try_write_for ::
  "'s server \<Rightarrow> string \<Rightarrow> LockOptions \<Rightarrow> nat \<Rightarrow> duration \<Rightarrow> 's attempt list \<Rightarrow> 's \<Rightarrow> panic + (RwShared result \<times> 's) option" where
  "try_write_for exec key options =
     poll_for (\<lambda>a s. try_write exec (at_delivery a) (at_token a) key options (at_env a s)) at_now key"

section \<open>Specification\<close>

datatype rw_hold = Free | Readers "string list" nat | Writer string nat

record rw_spec =
  rs_now :: nat
  rs_hold :: rw_hold
  rs_grants :: int

datatype rw_op =
    ReadAcquire string nat
  | ReadRelease string nat
  | WriteAcquire string nat
  | WriteRelease string
  | RwExtend string nat
  | RwWait nat

definition rw_grant :: "int \<Rightarrow> rw_hold \<Rightarrow> rw_spec \<Rightarrow> (int \<times> int) \<times> rw_spec" where
  "rw_grant st h a = ((st, rs_grants a + 1), a\<lparr>rs_hold := h, rs_grants := rs_grants a + 1\<rparr>)"

text \<open>Two rules follow the scripts where they differ from what one may expect: a reader's release
  with lease 0 while others still read frees the lock, and in read mode any token may extend.\<close>

definition rw_spec_step :: "rw_op \<Rightarrow> rw_spec \<Rightarrow> (int \<times> int) \<times> rw_spec" where
  "rw_spec_step op a = (case op of
      ReadAcquire t ttl \<Rightarrow> (case rs_hold a of
          Free \<Rightarrow> rw_grant 1 (Readers [t] (rs_now a + ttl)) a
        | Readers ts e \<Rightarrow> if t \<in> set ts then ((0, 0), a) else rw_grant 1 (Readers (ts @ [t]) (rs_now a + ttl)) a
        | Writer u e \<Rightarrow> ((0, 0), a))
    | ReadRelease t ttl \<Rightarrow> (case rs_hold a of
          Readers ts e \<Rightarrow>
            if t \<notin> set ts then ((- 1, 0), a)
            else if length ts = 1 then ((0, 0), a\<lparr>rs_hold := Free\<rparr>)
            else ((int (length ts) - 1, 0),
                  a\<lparr>rs_hold := (if ttl = 0 then Free else Readers (remove1 t ts) (rs_now a + ttl))\<rparr>)
        | _ \<Rightarrow> ((- 1, 0), a))
    | WriteAcquire t ttl \<Rightarrow> (case rs_hold a of
          Free \<Rightarrow> rw_grant 1 (Writer t (rs_now a + ttl)) a
        | Readers ts e \<Rightarrow> ((0, 0), a)
        | Writer u e \<Rightarrow> if u = t then rw_grant 2 (Writer t (rs_now a + ttl)) a else ((0, 0), a))
    | WriteRelease t \<Rightarrow> (case rs_hold a of
          Writer u e \<Rightarrow> if u = t then ((1, 0), a\<lparr>rs_hold := Free\<rparr>) else ((- 1, 0), a)
        | _ \<Rightarrow> ((- 1, 0), a))
    | RwExtend t ttl \<Rightarrow> (case rs_hold a of
          Free \<Rightarrow> ((- 1, 0), a)
        | Readers ts e \<Rightarrow> ((1, 0), a\<lparr>rs_hold := Readers ts (rs_now a + ttl)\<rparr>)
        | Writer u e \<Rightarrow>
            if u = t then ((1, 0), a\<lparr>rs_hold := Writer u (rs_now a + ttl)\<rparr>) else ((- 1, 0), a))
    | RwWait d \<Rightarrow> ((0, 0), a\<lparr>rs_now := rs_now a + d, rs_hold := (case rs_hold a of
          Readers ts e \<Rightarrow> if e \<le> rs_now a + d then Free else Readers ts e
        | Writer u e \<Rightarrow> if e \<le> rs_now a + d then Free else Writer u e
        | Free \<Rightarrow> Free)\<rparr>))"

definition rw_within :: "rw_op \<Rightarrow> rw_spec \<Rightarrow> bool" where
  "rw_within op a = (case op of
      ReadAcquire t ttl \<Rightarrow> ttl_ok (rs_now a) ttl \<and> rs_grants a < i64_max \<and>
        (case rs_hold a of Readers ts e \<Rightarrow> int (length ts) < i64_max | _ \<Rightarrow> True)
    | WriteAcquire t ttl \<Rightarrow> ttl_ok (rs_now a) ttl \<and> rs_grants a < i64_max
    | ReadRelease t ttl \<Rightarrow> ttl = 0 \<and> int (rs_now a) \<le> i64_max \<or> ttl_ok (rs_now a) ttl
    | RwExtend t ttl \<Rightarrow> ttl_ok (rs_now a) ttl
    | _ \<Rightarrow> True)"

definition rw_impl_step ::
  "'s server \<Rightarrow> (nat \<Rightarrow> 's \<Rightarrow> 's) \<Rightarrow> string \<Rightarrow> rw_op \<Rightarrow> 's \<Rightarrow> (lua_error + (int \<times> int)) \<times> 's" where
  "rw_impl_step exec pass k op = (case op of
      ReadAcquire t ttl \<Rightarrow> rw_read_acquire_lua exec [k, fence_key_for k] [t, show_nat ttl, show_nat (10 * ttl)]
    | WriteAcquire t ttl \<Rightarrow> rw_write_acquire_lua exec [k, fence_key_for k] [t, show_nat ttl, show_nat (10 * ttl)]
    | ReadRelease t ttl \<Rightarrow> lbind (rw_read_release_lua exec [k] [t, show_nat ttl]) (\<lambda>n. lret (n, 0))
    | WriteRelease t \<Rightarrow> lbind (rw_write_release_lua exec [k] [t]) (\<lambda>n. lret (n, 0))
    | RwExtend t ttl \<Rightarrow> lbind (rw_extend_lua exec [k] [t, show_nat ttl]) (\<lambda>n. lret (n, 0))
    | RwWait d \<Rightarrow> (\<lambda>s. (Inr (0, 0), pass d s)))"

definition reader_slot :: "string \<Rightarrow> string \<times> string" where
  "reader_slot t = (''r:'' @ t, ''1'')"

definition readers_hash :: "string list \<Rightarrow> (string \<times> string) list" where
  "readers_hash ts = [(''mode'', ''r''), (''readers'', show_int (int (length ts)))] @ map reader_slot ts"

definition writer_hash :: "string \<Rightarrow> (string \<times> string) list" where
  "writer_hash t = [(''mode'', ''w''), (''owner'', t)]"

definition rw_sim :: "('s \<Rightarrow> keyspace) \<Rightarrow> ('s \<Rightarrow> nat) \<Rightarrow> string \<Rightarrow> 's \<Rightarrow> rw_spec \<Rightarrow> bool" where
  "rw_sim ks clock k s a \<longleftrightarrow> clock s = rs_now a \<and>
     (case rs_hold a of
        Free \<Rightarrow> ks s k = None
      | Readers ts e \<Rightarrow> ks s k = Some (VHash (readers_hash ts), Some e) \<and> distinct ts \<and> ts \<noteq> [] \<and> int (length ts) \<le> i64_max
      | Writer t e \<Rightarrow> ks s k = Some (VHash (writer_hash t), Some e)) \<and>
     0 \<le> rs_grants a \<and> rs_grants a \<le> i64_max \<and>
     (ks s (fence_key_for k) = (if rs_grants a = 0 then None else Some (VStr (show_int (rs_grants a)), None)))"

section \<open>The scripts implement the specification\<close>

lemma slot_fields [simp]:
  "''r:'' @ t \<noteq> ''mode''" "''r:'' @ t \<noteq> ''readers''" "''mode'' \<noteq> ''r:'' @ t" "''readers'' \<noteq> ''r:'' @ t"
  by simp_all

lemma map_of_slots: "map_of (map reader_slot ts) (''r:'' @ t) = (if t \<in> set ts then Some ''1'' else None)"
  by (induction ts) (auto simp: reader_slot_def)

lemma map_of_readers:
  "map_of (readers_hash ts) ''mode'' = Some ''r''"
  "map_of (readers_hash ts) ''readers'' = Some (show_int (int (length ts)))"
  "map_of (readers_hash ts) (''r:'' @ t) = (if t \<in> set ts then Some ''1'' else None)"
  using map_of_slots [of ts t] by (simp_all add: readers_hash_def)

lemma update_readers: "AList.update ''readers'' v (readers_hash ts) = [(''mode'', ''r''), (''readers'', v)] @ map reader_slot ts"
  by (simp add: readers_hash_def)

lemma update_slots: "t \<notin> set ts \<Longrightarrow> AList.update (''r:'' @ t) ''1'' (map reader_slot ts) = map reader_slot (ts @ [t])"
  by (induction ts) (auto simp: reader_slot_def)

lemma delete_slots: "distinct ts \<Longrightarrow> AList.delete (''r:'' @ t) (map reader_slot ts) = map reader_slot (remove1 t ts)"
  by (induction ts) (auto simp: reader_slot_def delete_notin_dom AList.delete_eq intro!: filter_True)

lemma readers_add:
  assumes "t \<notin> set ts"
  shows "AList.update (''r:'' @ t) ''1'' (AList.update ''readers'' (show_int (int (length ts) + 1)) (readers_hash ts)) =
    readers_hash (ts @ [t])"
  using update_slots [OF assms] by (simp add: readers_hash_def add.commute)

lemma readers_remove:
  assumes "distinct ts" "t \<in> set ts"
  shows "AList.update ''readers'' (show_int (int (length ts) - 1)) (AList.delete (''r:'' @ t) (readers_hash ts)) =
    readers_hash (remove1 t ts)"
proof -
  have "int (length (remove1 t ts)) = int (length ts) - 1"
    using assms(2) by (cases "length ts") (auto simp: length_remove1)
  then show ?thesis using delete_slots [OF assms(1), of t] by (simp add: readers_hash_def)
qed

lemma delete_readers_field: "map_of (AList.delete (''r:'' @ t) (readers_hash ts)) ''readers'' = Some (show_int (int (length ts)))"
  "AList.delete (''r:'' @ t) (readers_hash ts) \<noteq> []"
  by (simp_all add: readers_hash_def)

lemma readers_hash_nonempty [simp]: "readers_hash ts \<noteq> []"
  by (simp add: readers_hash_def)

lemma map_of_writer: "map_of (writer_hash t) ''mode'' = Some ''w''" "map_of (writer_hash t) ''owner'' = Some t"
  by (simp_all add: writer_hash_def)

lemmas rw_lua = hget_is_def writer_is_def rw_read_acquire_lua_def rw_read_release_lua_def rw_write_acquire_lua_def
  rw_write_release_lua_def rw_extend_lua_def rw_impl_step_def

text \<open>The same facts with the field name spelled out, as the scripts build it.\<close>

lemmas reader_fields = map_of_readers(1,2) map_of_readers(3) [simplified] readers_add [simplified]
  readers_remove [simplified] delete_readers_field [simplified] map_of_writer

context redis_server
begin

lemma rw_sim_counter:
  assumes "rw_sim ks clock k s a"
  shows "counter (ks s) (fence_key_for k) = Some (rs_grants a)" "key_expiry (ks s) (fence_key_for k) = None"
  using assms by (auto simp: rw_sim_def counter_def key_expiry_def split: if_splits)

lemma rw_read_acquire_refines:
  fixes t ttl s k
  assumes "rw_sim ks clock k s a" "rw_within (ReadAcquire t ttl) a"
  defines "r \<equiv> rw_impl_step exec pass k (ReadAcquire t ttl) s"
  shows "fst r = Inr (fst (rw_spec_step (ReadAcquire t ttl) a)) \<and> rw_sim ks clock k (snd r) (snd (rw_spec_step (ReadAcquire t ttl) a))"
proof -
  note c = rw_sim_counter [OF assms(1)]
  have neq: "k \<noteq> fence_key_for k" "fence_key_for k \<noteq> k" using fence_key_neq [of k] by auto
  show ?thesis
  proof (cases "rs_hold a")
    case Free
    have one: "[(''mode'', ''r''), (''readers'', ''1''), (''r:'' @ t, ''1'')] = readers_hash [t]"
      by (simp add: readers_hash_def reader_slot_def show_int_def show_nat.simps digit_def)
    from Free assms(1,2) c neq show ?thesis
      unfolding r_def rw_lua rw_sim_def rw_spec_step_def rw_within_def
      by (auto simp: lua_simps lcall_simps redis_simps with_hash_def put_hash_def rw_grant_def simp flip: one)
  next
    case (Readers ts e)
    with assms(1,2) c neq show ?thesis
      unfolding r_def rw_lua rw_sim_def rw_spec_step_def rw_within_def
      by (auto simp: lua_simps lcall_simps redis_simps with_hash_def put_hash_def rw_grant_def reader_fields)
  next
    case (Writer u e)
    with assms(1,2) c neq show ?thesis
      unfolding r_def rw_lua rw_sim_def rw_spec_step_def rw_within_def
      by (auto simp: lua_simps lcall_simps redis_simps with_hash_def reader_fields)
  qed
qed

lemma rw_read_release_refines:
  fixes t ttl s k
  assumes "rw_sim ks clock k s a" "rw_within (ReadRelease t ttl) a"
  defines "r \<equiv> rw_impl_step exec pass k (ReadRelease t ttl) s"
  shows "fst r = Inr (fst (rw_spec_step (ReadRelease t ttl) a)) \<and> rw_sim ks clock k (snd r) (snd (rw_spec_step (ReadRelease t ttl) a))"
proof (cases "rs_hold a")
  case Free
  with assms(1) show ?thesis
    unfolding r_def rw_lua rw_sim_def rw_spec_step_def
    by (auto simp: lua_simps lcall_simps redis_simps)
next
  case (Writer u e)
  with assms(1) show ?thesis
    unfolding r_def rw_lua rw_sim_def rw_spec_step_def
    by (auto simp: lua_simps lcall_simps redis_simps with_hash_def reader_fields)
next
  case (Readers ts e)
  have neq: "k \<noteq> fence_key_for k" "fence_key_for k \<noteq> k" using fence_key_neq [of k] by auto
  have sim: "clock s = rs_now a" "ks s k = Some (VHash (readers_hash ts), Some e)" "distinct ts" "ts \<noteq> []"
    "int (length ts) \<le> i64_max"
    using assms(1) Readers by (auto simp: rw_sim_def)
  show ?thesis
  proof (cases "t \<in> set ts")
    case False
    with sim(2) Readers assms(1) show ?thesis
      unfolding r_def rw_lua rw_spec_step_def
      by (auto simp: lua_simps lcall_simps redis_simps with_hash_def reader_fields rw_sim_def)
  next
    case True
    note rel = readers_remove [OF sim(3) True, simplified]
    consider (last) "length ts = 1" | (gone) "1 < length ts" "ttl = 0" "int (rs_now a) \<le> i64_max"
      | (more) "1 < length ts" "ttl_ok (rs_now a) ttl"
      using assms(2) sim(4) by (cases ts) (auto simp: rw_within_def)
    then show ?thesis
    proof cases
      case last
      with sim True rel Readers assms(1) neq show ?thesis
        unfolding r_def rw_lua rw_spec_step_def
        by (simp add: lua_simps lcall_simps redis_simps with_hash_def put_hash_def reader_fields rw_sim_def)
    next
      case gone
      with sim True rel Readers assms(1) neq show ?thesis
        unfolding r_def rw_lua rw_spec_step_def
        by (simp add: lua_simps lcall_simps redis_simps with_hash_def put_hash_def reader_fields rw_sim_def)
    next
      case more
      then have "remove1 t ts \<noteq> []" "0 < ttl" using True
        by (auto simp: ttl_ok_def) (metis length_remove1 list.size(3) One_nat_def diff_is_0_eq not_le)
      with more sim True rel Readers assms(1) neq show ?thesis
        unfolding r_def rw_lua rw_spec_step_def
        by (simp add: lua_simps lcall_simps redis_simps with_hash_def put_hash_def reader_fields rw_sim_def length_remove1)
    qed
  qed
qed

lemma rw_write_acquire_refines:
  fixes t ttl s k
  assumes "rw_sim ks clock k s a" "rw_within (WriteAcquire t ttl) a"
  defines "r \<equiv> rw_impl_step exec pass k (WriteAcquire t ttl) s"
  shows "fst r = Inr (fst (rw_spec_step (WriteAcquire t ttl) a)) \<and> rw_sim ks clock k (snd r) (snd (rw_spec_step (WriteAcquire t ttl) a))"
proof -
  note c = rw_sim_counter [OF assms(1)]
  have neq: "k \<noteq> fence_key_for k" "fence_key_for k \<noteq> k" using fence_key_neq [of k] by auto
  show ?thesis
  proof (cases "rs_hold a")
    case Free
    with assms(1,2) c neq show ?thesis
      unfolding r_def rw_lua rw_sim_def rw_spec_step_def rw_within_def
      by (auto simp: lua_simps lcall_simps redis_simps with_hash_def put_hash_def rw_grant_def writer_hash_def)
  next
    case (Readers ts e)
    with assms(1,2) show ?thesis
      unfolding r_def rw_lua rw_sim_def rw_spec_step_def rw_within_def
      by (auto simp: lua_simps lcall_simps redis_simps with_hash_def reader_fields)
  next
    case (Writer u e)
    with assms(1,2) c neq show ?thesis
      unfolding r_def rw_lua rw_sim_def rw_spec_step_def rw_within_def
      by (auto simp: lua_simps lcall_simps redis_simps with_hash_def reader_fields rw_grant_def)
  qed
qed

lemma rw_write_release_refines:
  fixes t s k
  assumes "rw_sim ks clock k s a"
  defines "r \<equiv> rw_impl_step exec pass k (WriteRelease t) s"
  shows "fst r = Inr (fst (rw_spec_step (WriteRelease t) a)) \<and> rw_sim ks clock k (snd r) (snd (rw_spec_step (WriteRelease t) a))"
  using assms(1) fence_key_neq [of k]
  unfolding r_def rw_lua rw_sim_def rw_spec_step_def
  by (cases "rs_hold a") (auto simp: lua_simps lcall_simps redis_simps with_hash_def reader_fields split: if_splits)

lemma rw_extend_refines:
  fixes t ttl s k
  assumes "rw_sim ks clock k s a" "rw_within (RwExtend t ttl) a"
  defines "r \<equiv> rw_impl_step exec pass k (RwExtend t ttl) s"
  shows "fst r = Inr (fst (rw_spec_step (RwExtend t ttl) a)) \<and> rw_sim ks clock k (snd r) (snd (rw_spec_step (RwExtend t ttl) a))"
  using assms(1,2) fence_key_neq [of k]
  unfolding r_def rw_lua rw_sim_def rw_spec_step_def rw_within_def
  by (cases "rs_hold a") (auto simp: lua_simps lcall_simps redis_simps with_hash_def reader_fields split: if_splits)

lemma rw_wait_refines:
  fixes d s k
  assumes "rw_sim ks clock k s a"
  defines "r \<equiv> rw_impl_step exec pass k (RwWait d) s"
  shows "fst r = Inr (fst (rw_spec_step (RwWait d) a)) \<and> rw_sim ks clock k (snd r) (snd (rw_spec_step (RwWait d) a))"
  using assms(1) unfolding r_def rw_impl_step_def rw_sim_def rw_spec_step_def
  by (cases "rs_hold a") (auto simp: pass_clock pass_ks expire_def)

lemma rw_step_refines:
  assumes "rw_sim ks clock k s a" "rw_within op a"
  shows "fst (rw_impl_step exec pass k op s) = Inr (fst (rw_spec_step op a)) \<and>
    rw_sim ks clock k (snd (rw_impl_step exec pass k op s)) (snd (rw_spec_step op a))"
  using assms rw_read_acquire_refines rw_read_release_refines rw_write_acquire_refines rw_write_release_refines
    rw_extend_refines rw_wait_refines
  by (cases op) auto

end

sublocale redis_server \<subseteq> rwlock: refinement rw_spec_step "rw_impl_step exec pass k" rw_within "rw_sim ks clock k"
  for k
  by unfold_locales (rule rw_step_refines)

context redis_server
begin

lemmas rw_run_refines = rwlock.run_refines

end

section \<open>Properties\<close>

definition rw_start :: "nat \<Rightarrow> rw_spec" where
  "rw_start now = \<lparr>rs_now = now, rs_hold = Free, rs_grants = 0\<rparr>"



text \<open>Dropping a read handle evicts the other readers. When a read handle is dropped
  while other readers are registered, the release script runs with lease 0 and the whole structure
  is deleted: although another reader's lease still runs, the next writer is admitted.\<close>

theorem reader_drop_admits_writer:
  assumes srv: "redis_server exec ks clock pass"
    and sim: "rw_sim ks clock k s a" "rs_hold a = Readers ts e" "rw_token h \<in> set ts" "1 < length ts"
    and h: "rw_key h = k" "\<not> rw_gone h" "\<not> write_mode h"
    and opts: "lease_ok (lo_ttl opts) (clock s)" "rs_grants a < i64_max"
    and t: "t = rw_drop exec Delivered True h s"
  shows "ks t k = None \<and> is_ok (fst (try_write exec Delivered w k opts t))"
proof -
  have now: "int (rs_now a) \<le> i64_max" "rs_now a = clock s"
    using opts(1) sim(1) by (auto simp: lease_ok_def rw_sim_def)
  have within: "rw_within (ReadRelease (rw_token h) 0) a" using now by (simp add: rw_within_def)
  let ?b = "snd (rw_spec_step (ReadRelease (rw_token h) 0) a)"
  let ?r = "rw_read_release_lua exec [k] [rw_token h, show_nat 0] s"
  have "rw_sim ks clock k (snd (rw_impl_step exec pass k (ReadRelease (rw_token h) 0) s)) ?b"
    and "fst (rw_impl_step exec pass k (ReadRelease (rw_token h) 0) s) = Inr (fst (rw_spec_step (ReadRelease (rw_token h) 0) a))"
    using redis_server.rw_step_refines [OF srv sim(1) within] by auto
  moreover have "snd (rw_impl_step exec pass k (ReadRelease (rw_token h) 0) s) = snd ?r"
    by (simp add: rw_impl_step_def lua_simps split: sum.splits)
  moreover have "t = snd ?r"
    using t h by (simp add: rw_drop_def rw_mark_gone_def invoke_def split: prod.splits sum.splits)
  ultimately have b: "rw_sim ks clock k t ?b" "rs_hold ?b = Free" "rs_now ?b = clock s" "rs_grants ?b = rs_grants a"
    using sim(2-4) now(2) by (auto simp: rw_spec_step_def)
  then have free: "ks t k = None" "clock t = clock s" by (simp_all add: rw_sim_def)
  note l = lease_okD [OF opts(1)]
  have "rw_within (WriteAcquire w (as_millis (lo_ttl opts))) ?b"
    using l(2) b opts(2) by (simp add: rw_within_def)
  then have "fst (rw_write_acquire_lua exec [k, fence_key_for k]
      [w, show_nat (as_millis (lo_ttl opts)), show_nat (10 * as_millis (lo_ttl opts))] t) = Inr (1, rs_grants a + 1)"
    using redis_server.rw_step_refines [OF srv b(1)] b(2,4)
    by (fastforce simp: rw_impl_step_def rw_spec_step_def rw_grant_def)
  then have "is_ok (fst (try_write exec Delivered w k opts t))"
    using l(1,4,5) by (simp add: try_write_def validate_def invoke_Delivered)
  with free show ?thesis by simp
qed

definition ex_two_readers :: mem where
  "ex_two_readers = (0, [''k'' \<mapsto> (VHash (readers_hash [''a'', ''b'']), Some 30000),
     fence_key_for ''k'' \<mapsto> (VStr (show_int 2), None)])"

definition ex_reader :: RwShared where
  "ex_reader = rw_new ''k'' ''a'' 1 default_options False"

theorem reader_drop_admits_writer_witness:
  "mem_ks ex_two_readers ''k'' = Some (VHash (readers_hash [''a'', ''b'']), Some 30000) \<and>
   is_ok (fst (try_write mem_exec Delivered ''w'' ''k'' default_options
     (rw_drop mem_exec Delivered True ex_reader ex_two_readers)))"
proof -
  let ?a = "\<lparr>rs_now = 0, rs_hold = Readers [''a'', ''b''] 30000, rs_grants = 2\<rparr>"
  have neq: "fence_key_for ''k'' \<noteq> ''k''" "''k'' \<noteq> fence_key_for ''k''" using fence_key_neq [of "''k''"] by auto
  have ks: "mem_ks ex_two_readers ''k'' = Some (VHash (readers_hash [''a'', ''b'']), Some 30000)"
    "mem_ks ex_two_readers (fence_key_for ''k'') = Some (VStr (show_int 2), None)"
    using neq by (simp_all add: ex_two_readers_def mem_ks_def expire_def)
  then have "rw_sim mem_ks fst ''k'' ex_two_readers ?a"
    by (simp add: rw_sim_def ex_two_readers_def)
  moreover have "lease_ok (lo_ttl default_options) (fst ex_two_readers)"
    by (simp add: lease_ok_def default_options_def MIN_TTL_def from_secs_def from_millis_def as_millis_def ex_two_readers_def)
  ultimately show ?thesis
    using reader_drop_admits_writer [OF mem.redis_server_axioms, of "''k''" ex_two_readers ?a "[''a'', ''b'']" 30000 ex_reader
        default_options _ "''w''"] ks
    by (simp add: ex_reader_def rw_new_def)
qed

end
