(* ===== verification/Fair.thy ===== *)
theory Fair
  imports Single
begin

text \<open>
  The fair mutex of \<^verbatim>\<open>crates/redis/src/fair.rs\<close> and its two scripts: a string lock, a list of
  waiters with the oldest at its right end, and one heartbeat key per waiter.

  The discarding loop of the acquire script runs on fuel; \<open>OutOfFuel\<close> is an error no script
  raises, and one unit more than the length of the queue is enough on any conforming server. The
  loop of the release script has its bound evaluated once, as Lua's numeric \<^verbatim>\<open>for\<close>.
\<close>

section \<open>Scripts\<close>

text \<open>\<^verbatim>\<open>redis.call('LRANGE', key, -1, -1)[1]\<close>\<close>

definition lua_oldest :: "'s server \<Rightarrow> string option \<Rightarrow> (string option \<Rightarrow> ('s, 'a) lua) \<Rightarrow> ('s, 'a) lua" where
  "lua_oldest exec q c =
     lbind (call1 exec (\<lambda>k. LRANGE k (- 1) (- 1)) q) (\<lambda>r.
       c (case r of RArr (x # _) \<Rightarrow> Some x | _ \<Rightarrow> None))"

text \<open>\<^verbatim>\<open>tok and redis.call('EXISTS', prefix .. tok) == 1\<close>\<close>

definition waiter_alive :: "'s server \<Rightarrow> string option \<Rightarrow> string option \<Rightarrow> (bool \<Rightarrow> ('s, 'a) lua) \<Rightarrow> ('s, 'a) lua" where
  "waiter_alive exec prefix tok c = (case tok of
      None \<Rightarrow> c False
    | Some t \<Rightarrow> lua_concat prefix (Some t) (\<lambda>hb. lbind (lcall exec (EXISTS hb)) (\<lambda>r. c (rint r = 1))))"

fun fair_discard :: "nat \<Rightarrow> 's server \<Rightarrow> string option \<Rightarrow> string option \<Rightarrow> ('s, unit) lua" where
  "fair_discard 0 exec q prefix = lraise OutOfFuel"
| "fair_discard (Suc n) exec q prefix =
     lbind (call1 exec LLEN q) (\<lambda>len.
     if rint len > 0 then
       lua_oldest exec q (\<lambda>tok.
       waiter_alive exec prefix tok (\<lambda>alive.
       if alive then lret ()
       else lbind (call1 exec RPOP q) (\<lambda>_. fair_discard n exec q prefix)))
     else lret ())"

definition fair_enqueue :: "'s server \<Rightarrow> string list \<Rightarrow> string list \<Rightarrow> ('s, int \<times> int) lua" where
  "fair_enqueue exec KEYS ARGV =
     lbind (call2 exec LPOS (lua_arg KEYS 2) (lua_arg ARGV 1)) (\<lambda>p.
     lbind (if truthy p then lret RNil else call2 exec LPUSH (lua_arg KEYS 2) (lua_arg ARGV 1)) (\<lambda>_.
     lbind (call2 exec (\<lambda>k t. SET_PX k ''1'' t) (lua_arg KEYS 4) (lua_arg ARGV 4)) (\<lambda>_.
     lua_num (lua_arg ARGV 2) (\<lambda>ttl.
     lbind (call1 exec (\<lambda>k. PEXPIRE k (show_int (ttl * 10))) (lua_arg KEYS 2)) (\<lambda>_.
     lret (0, 0))))))"

definition fair_acquire_lua :: "nat \<Rightarrow> 's server \<Rightarrow> string list \<Rightarrow> string list \<Rightarrow> ('s, int \<times> int) lua" where
  "fair_acquire_lua fuel exec KEYS ARGV =
     lbind (call1 exec GET (lua_arg KEYS 1)) (\<lambda>v.
     if bulk_eq v (lua_arg ARGV 1) then
       lbind (call2 exec PEXPIRE (lua_arg KEYS 1) (lua_arg ARGV 2)) (\<lambda>_.
       lbind (call1 exec INCR (lua_arg KEYS 3)) (\<lambda>fence. lret (2, rint fence)))
     else lbind (call1 exec EXISTS (lua_arg KEYS 1)) (\<lambda>x.
     if rint x = 0 then
       lbind (fair_discard fuel exec (lua_arg KEYS 2) (lua_arg ARGV 5)) (\<lambda>_.
       lua_oldest exec (lua_arg KEYS 2) (\<lambda>oldest.
       if oldest = None \<or> oldest = lua_arg ARGV 1 then
         lbind (if oldest \<noteq> None then call2 exec LREM_1 (lua_arg KEYS 2) (lua_arg ARGV 1) else lret RNil) (\<lambda>_.
         lbind (call3 exec SET_PX (lua_arg KEYS 1) (lua_arg ARGV 1) (lua_arg ARGV 2)) (\<lambda>_.
         lbind (call1 exec INCR (lua_arg KEYS 3)) (\<lambda>fence. lret (1, rint fence))))
       else fair_enqueue exec KEYS ARGV))
     else fair_enqueue exec KEYS ARGV))"

fun fair_handoff :: "nat \<Rightarrow> 's server \<Rightarrow> string list \<Rightarrow> string list \<Rightarrow> ('s, unit) lua" where
  "fair_handoff 0 exec KEYS ARGV = lret ()"
| "fair_handoff (Suc n) exec KEYS ARGV =
     lbind (call1 exec RPOP (lua_arg KEYS 2)) (\<lambda>r.
     let tok = (case r of RBulk t \<Rightarrow> Some t | _ \<Rightarrow> None) in
     waiter_alive exec (lua_arg ARGV 3) tok (\<lambda>alive.
     if alive
     then lbind (call3 exec SET_PX (lua_arg KEYS 1) tok (lua_arg ARGV 2)) (\<lambda>_. lret ())
     else fair_handoff n exec KEYS ARGV))"

definition fair_release_lua :: "'s server \<Rightarrow> string list \<Rightarrow> string list \<Rightarrow> ('s, int) lua" where
  "fair_release_lua exec KEYS ARGV =
     lbind (call1 exec GET (lua_arg KEYS 1)) (\<lambda>v.
     if \<not> bulk_eq v (lua_arg ARGV 1) then lret (- 1)
     else lbind (call1 exec DEL (lua_arg KEYS 1)) (\<lambda>_.
     lbind (call1 exec LLEN (lua_arg KEYS 2)) (\<lambda>n.
     lbind (fair_handoff (nat (rint n)) exec KEYS ARGV) (\<lambda>_. lret 1))))"

section \<open>Handles\<close>

record FairShared =
  fa_key :: string
  fa_queue_key :: string
  fa_hb_prefix :: string
  fa_token :: string
  fa_fence :: FencingToken
  fa_gone :: bool

definition fa_mark_gone :: "FairShared \<Rightarrow> bool \<times> FairShared" where
  "fa_mark_gone h = (\<not> fa_gone h, h\<lparr>fa_gone := True\<rparr>)"

definition fa_lost :: "FairShared \<Rightarrow> error" where
  "fa_lost h = Lost (fa_key h) (fence_value (fa_fence h))"

definition fair_drop :: "'s server \<Rightarrow> delivery \<Rightarrow> bool \<Rightarrow> FairShared \<Rightarrow> 's \<Rightarrow> 's" where
  "fair_drop exec d runtime h s =
     (if \<not> fst (fa_mark_gone h) then s
      else if runtime then snd (invoke d '''' (fair_release_lua exec [fa_key h] [fa_token h, fa_hb_prefix h]) s)
      else s)"

definition fair_release ::
  "'s server \<Rightarrow> delivery \<Rightarrow> FairShared \<Rightarrow> 's \<Rightarrow> unit result \<times> FairShared \<times> 's" where
  "fair_release exec d h s =
     (case fa_mark_gone h of (first, h') \<Rightarrow>
        if \<not> first then (Inr (), h', s)
        else case invoke d ''fair release failed''
            (fair_release_lua exec [fa_key h, fa_queue_key h, fence_key_for (fa_key h)]
              [fa_token h, show_nat 30000, fa_hb_prefix h]) s of
            (Inl e, t) \<Rightarrow> (Inl e, h', t)
          | (Inr ok, t) \<Rightarrow> (if ok < 0 then Inl (fa_lost h) else Inr (), h', t))"

definition fair_extend ::
  "'s server \<Rightarrow> delivery \<Rightarrow> FairShared \<Rightarrow> duration \<Rightarrow> 's \<Rightarrow> unit result \<times> FairShared \<times> 's" where
  "fair_extend exec d h ttl s =
     (if ttl < MIN_TTL then (Inl (InvalidConfig ''extend ttl is below the floor''), h, s)
      else if fa_gone h then (Inl (fa_lost h), h, s)
      else case invoke d ''fair extend failed'' (extend_lua exec [fa_key h] [fa_token h, ttl_arg ttl]) s of
          (Inl e, t) \<Rightarrow> (Inl e, h, t)
        | (Inr ok, t) \<Rightarrow> if ok \<noteq> 1 then (Inl (fa_lost h), h\<lparr>fa_gone := True\<rparr>, t) else (Inr (), h, t))"

definition queue_key_for :: "string \<Rightarrow> string" where
  "queue_key_for key = ''{'' @ key @ ''}:q''"

definition hb_prefix_for :: "string \<Rightarrow> string" where
  "hb_prefix_for key = ''{'' @ key @ ''}:hb:''"

definition try_lock_fair_as ::
  "nat \<Rightarrow> 's server \<Rightarrow> delivery \<Rightarrow> string \<Rightarrow> string \<Rightarrow> LockOptions \<Rightarrow> 's \<Rightarrow> FairShared result \<times> 's" where
  "try_lock_fair_as fuel exec d key token options s =
     (case validate options of
        Inl e \<Rightarrow> (Inl e, s)
      | Inr _ \<Rightarrow>
          (case invoke d ''fair acquire failed''
             (fair_acquire_lua fuel exec [key, queue_key_for key, fence_key_for key, hb_prefix_for key @ token]
               [token, ttl_arg (lo_ttl options), fence_ttl_arg (lo_ttl options),
                show_nat (unat (max (as_millis_u64 (lo_ttl options)) 2000))]) s of
             (Inl e, t) \<Rightarrow> (Inl e, t)
           | (Inr (status, fence), t) \<Rightarrow>
               if status = 1 \<or> status = 2
               then (Inr \<lparr>fa_key = key, fa_queue_key = queue_key_for key, fa_hb_prefix = hb_prefix_for key,
                      fa_token = token, fa_fence = FencingToken (of_int fence), fa_gone = False\<rparr>, t)
               else (Inl (Held key), t)))"

definition try_lock_fair ::
  "nat \<Rightarrow> 's server \<Rightarrow> delivery \<Rightarrow> string \<Rightarrow> string \<Rightarrow> LockOptions \<Rightarrow> 's \<Rightarrow> FairShared result \<times> 's" where
  "try_lock_fair fuel exec d key fresh options = try_lock_fair_as fuel exec d key fresh options"

text \<open>Every poll uses the identity drawn before the loop.\<close>

definition try_lock_fair_for ::
  "nat \<Rightarrow> 's server \<Rightarrow> string \<Rightarrow> string \<Rightarrow> LockOptions \<Rightarrow> nat \<Rightarrow> duration \<Rightarrow> 's attempt list \<Rightarrow> 's \<Rightarrow> panic + (FairShared result \<times> 's) option" where
  "try_lock_fair_for fuel exec key owner options =
     poll_for (\<lambda>a s. try_lock_fair_as fuel exec (at_delivery a) key owner options (at_env a s)) at_now key"

section \<open>Handoff\<close>

text \<open>The queue held under a key.\<close>

definition waiters :: "keyspace \<Rightarrow> string \<Rightarrow> string list option" where
  "waiters m q = (case m q of None \<Rightarrow> Some [] | Some (VList xs, _) \<Rightarrow> Some xs | Some _ \<Rightarrow> None)"

definition beating :: "keyspace \<Rightarrow> string \<Rightarrow> string \<Rightarrow> bool" where
  "beating m prefix t \<longleftrightarrow> m (prefix @ t) \<noteq> None"

lemma key_neqs:
  "queue_key_for k \<noteq> k" "k \<noteq> queue_key_for k" "hb_prefix_for k @ t \<noteq> k" "k \<noteq> hb_prefix_for k @ t"
  "queue_key_for k \<noteq> fence_key_for k" "fence_key_for k \<noteq> queue_key_for k"
  "hb_prefix_for k @ t \<noteq> queue_key_for k" "queue_key_for k \<noteq> hb_prefix_for k @ t"
  "hb_prefix_for k @ t \<noteq> fence_key_for k" "fence_key_for k \<noteq> hb_prefix_for k @ t"
proof -
  have "length (queue_key_for k) \<noteq> length k" "length (hb_prefix_for k @ t) \<noteq> length k"
    by (simp_all add: queue_key_for_def hb_prefix_for_def)
  then show "queue_key_for k \<noteq> k" "k \<noteq> queue_key_for k" "hb_prefix_for k @ t \<noteq> k" "k \<noteq> hb_prefix_for k @ t" by metis+
qed (simp_all add: queue_key_for_def hb_prefix_for_def fence_key_for_def)

context redis_server
begin

lemma handoff_pop:
  assumes "waiters (ks s) q = Some (xs @ [x])"
  shows "fst (lcall exec (RPOP q) s) = Inr (RBulk x)"
    and "ks (snd (lcall exec (RPOP q) s)) = put_list q (key_expiry (ks s) q) xs (ks s)"
  using assms
  by (auto simp: prod_eq_iff lcall_simps redis_simps waiters_def with_list_def key_expiry_def split: option.splits rval.splits)

lemma waiters_put: "waiters (put_list q e xs m) q = Some xs"
  by (simp add: waiters_def put_list_def)

lemma beating_put_list: "(\<And>x. prefix @ x \<noteq> q) \<Longrightarrow> beating (put_list q e xs m) prefix t = beating m prefix t"
  by (simp add: beating_def put_list_def)

lemma lcall_exists:
  "fst (lcall exec (EXISTS hb) s) = Inr (of_bool_int (ks s hb \<noteq> None))"
  "ks (snd (lcall exec (EXISTS hb) s)) = ks s"
  by (simp_all add: prod_eq_iff lcall_simps redis_simps of_bool_int_def)

lemma waiter_alive_run:
  "\<exists>s'. waiter_alive exec (Some prefix) (Some t) c s = c (beating (ks s) prefix t) s' \<and> ks s' = ks s \<and> clock s' = clock s"
  using lcall_exists [of "prefix @ t" s] clock_lcall [of "EXISTS (prefix @ t)" s]
  by (auto simp: waiter_alive_def lua_concat_def lbind_run beating_def rint_def of_bool_int_def
      intro!: exI [of _ "snd (lcall exec (EXISTS (prefix @ t)) s)"])

lemma handoff_run:
  assumes "waiters (ks s) q = Some (rev rs)" "ttl_ok (clock s) L" "k \<noteq> q" "\<And>x. prefix @ x \<noteq> q"
  shows "\<exists>s'. fair_handoff (length rs) exec [k, q, fk] [tok, show_nat L, prefix] s = (Inr (), s') \<and>
    clock s' = clock s \<and> waiters (ks s') q = Some (rev (tl (dropWhile (\<lambda>t. \<not> beating (ks s) prefix t) rs))) \<and>
    ks s' k = (case find (beating (ks s) prefix) rs of
       None \<Rightarrow> ks s k | Some t \<Rightarrow> Some (VStr t, Some (clock s + L)))"
  using assms(1,2)
proof (induction rs arbitrary: s)
  case Nil
  then show ?case by (simp add: lret_def)
next
  case (Cons t rs)
  let ?s1 = "snd (lcall exec (RPOP q) s)"
  have w: "waiters (ks s) q = Some (rev rs @ [t])" using Cons.prems(1) by simp
  note pop = handoff_pop [OF w]
  have s1: "clock ?s1 = clock s" "waiters (ks ?s1) q = Some (rev rs)" "ks ?s1 k = ks s k"
    "beating (ks ?s1) prefix x = beating (ks s) prefix x" for x
    using pop(2) assms(3,4) by (simp_all add: clock_lcall waiters_put beating_put_list) (simp add: put_list_def)
  let ?rest = "\<lambda>alive. if alive then lbind (call3 exec SET_PX (Some k) (Some t) (Some (show_nat L))) (\<lambda>_. lret ())
      else fair_handoff (length rs) exec [k, q, fk] [tok, show_nat L, prefix]"
  obtain s2 where s2: "waiter_alive exec (Some prefix) (Some t) ?rest ?s1 = ?rest (beating (ks s) prefix t) s2"
    "ks s2 = ks ?s1" "clock s2 = clock s"
    using waiter_alive_run [of prefix t ?rest ?s1] s1 by auto
  have run: "fair_handoff (length (t # rs)) exec [k, q, fk] [tok, show_nat L, prefix] s = ?rest (beating (ks s) prefix t) s2"
  proof -
    have "fair_handoff (length (t # rs)) exec [k, q, fk] [tok, show_nat L, prefix] s =
        waiter_alive exec (Some prefix) (Some t) ?rest ?s1"
      using pop(1) by (simp add: lbind_run [of "lcall exec (RPOP q)"] call1_def need_def Let_def cong: if_cong)
    then show ?thesis using s2(1) by simp
  qed
  show ?case
  proof (cases "beating (ks s) prefix t")
    case True
    with s2 s1 Cons.prems(2) assms(3) show ?thesis
      unfolding run by (simp add: lua_simps lcall_simps redis_simps prod_eq_iff waiters_def)
  next
    case False
    have "waiters (ks s2) q = Some (rev rs)" "ttl_ok (clock s2) L" using s1 s2 Cons.prems(2) by simp_all
    moreover have "beating (ks s2) prefix = beating (ks s) prefix"
      using s1(4) s2(2) by (intro ext) simp
    ultimately show ?thesis
      unfolding run using Cons.IH [of s2] False s1(3) s2(2,3) by (simp cong: option.case_cong)
  qed
qed

lemma fair_release_own:
  fixes k q fk tok L prefix s
  assumes "ks s k = Some (VStr tok, e)" "waiters (ks s) q = Some xs" "ttl_ok (clock s) L" "k \<noteq> q"
    and "\<And>x. prefix @ x \<noteq> q" "\<And>x. prefix @ x \<noteq> k"
  defines "r \<equiv> fair_release_lua exec [k, q, fk] [tok, show_nat L, prefix] s"
  shows "fst r = Inr 1 \<and> waiters (ks (snd r)) q = Some (rev (tl (dropWhile (\<lambda>t. \<not> beating (ks s) prefix t) (rev xs)))) \<and>
    ks (snd r) k = map_option (\<lambda>t. (VStr t, Some (clock s + L))) (find (beating (ks s) prefix) (rev xs))"
proof -
  let ?s1 = "snd (lcall exec (GET k) s)"
  let ?s2 = "snd (lcall exec (DEL k) ?s1)"
  let ?s3 = "snd (lcall exec (LLEN q) ?s2)"
  have c: "fst (lcall exec (GET k) s) = Inr (RBulk tok)" "ks ?s1 = ks s"
    using assms(1) by (simp_all add: lcall_simps redis_simps)
  have d: "\<exists>r. fst (lcall exec (DEL k) ?s1) = Inr r" "ks ?s2 = (ks s)(k := None)"
    by (simp_all add: ks_lcall [of "DEL k"] fst_lcall [of "DEL k"] redis_simps of_bool_int_def c(2))
  have l: "fst (lcall exec (LLEN q) ?s2) = Inr (RInt (int (length xs)))" "ks ?s3 = (ks s)(k := None)"
    using assms(2,4) by (auto simp: ks_lcall [of "LLEN q"] fst_lcall [of "LLEN q"] redis_simps d(2) waiters_def with_list_def
        split: option.splits rval.splits)
  have clk: "clock ?s3 = clock s" by (simp add: clock_lcall)
  have w: "waiters (ks ?s3) q = Some (rev (rev xs))" using assms(2,4) l(2) by (simp add: waiters_def)
  have b: "beating ((ks s)(k := None)) prefix = beating (ks s) prefix"
    using assms(6) by (intro ext) (simp add: beating_def)
  obtain s' where s': "fair_handoff (length xs) exec [k, q, fk] [tok, show_nat L, prefix] ?s3 = (Inr (), s')"
    "waiters (ks s') q = Some (rev (tl (dropWhile (\<lambda>t. \<not> beating (ks s) prefix t) (rev xs))))"
    "ks s' k = (case find (beating (ks s) prefix) (rev xs) of None \<Rightarrow> None | Some t \<Rightarrow> Some (VStr t, Some (clock s + L)))"
    using handoff_run [OF w _ assms(4,5), of L fk tok] assms(3) clk b l(2) by (auto cong: option.case_cong)
  have "r = (Inr 1, s')"
    using c(1) d(1) l(1) s'(1) unfolding r_def fair_release_lua_def
    by (auto simp: lbind_run call1_def need_def bulk_eq_def rint_def lret_def)
  with s' show ?thesis by (simp split: option.splits)
qed

text \<open>Dropping the handle instead calls the script with one key and two arguments.\<close>

lemma fair_drop_own:
  assumes "ks s k = Some (VStr tok, e)"
  shows "fst (fair_release_lua exec [k] [tok, prefix] s) = Inl NilArgument"
    and "ks (snd (fair_release_lua exec [k] [tok, prefix] s)) = (ks s)(k := None)"
  using assms unfolding fair_release_lua_def
  by (simp_all add: lua_simps lcall_simps redis_simps)

text \<open>With four arguments, a free lock and a waiting queue, the script raises before it writes.\<close>

lemma fair_acquire_stuck:
  assumes "ks s k = None" "waiters (ks s) q = Some xs" "xs \<noteq> []" "k \<noteq> q"
  shows "fst (fair_acquire_lua (Suc n) exec [k, q, fk, hb] [tok, t, ft, ht] s) = Inl NilConcat"
    and "ks (snd (fair_acquire_lua (Suc n) exec [k, q, fk, hb] [tok, t, ft, ht] s)) = ks s"
proof -
  obtain e where q: "ks s q = Some (VList xs, e)"
    using assms(2,3) by (auto simp: waiters_def split: option.splits rval.splits)
  have last: "lrange (- 1) (- 1) xs = [last xs]"
  proof -
    obtain ys y where "xs = ys @ [y]" using assms(3) by (metis append_butlast_last_id)
    then show ?thesis by (simp add: lrange_def Let_def nat_add_distrib)
  qed
  show "fst (fair_acquire_lua (Suc n) exec [k, q, fk, hb] [tok, t, ft, ht] s) = Inl NilConcat"
    and "ks (snd (fair_acquire_lua (Suc n) exec [k, q, fk, hb] [tok, t, ft, ht] s)) = ks s"
    using assms q unfolding fair_acquire_lua_def
    by (simp_all add: lua_oldest_def waiter_alive_def lua_simps lcall_simps redis_simps with_list_def last)
qed

end

section \<open>Properties\<close>

text \<open>Property C22. Release hands the lock to the oldest live waiter. Releasing an owned fair lock
  succeeds; the lock then carries the token of the oldest queued waiter whose heartbeat key still
  exists, with a lease of 30 seconds, the dead waiters before it and the winner itself are off the
  queue and everybody behind keeps their order; with no live waiter the lock is free and the
  queue empty.\<close>

theorem fair_release_hands_off:
  assumes srv: "redis_server exec ks clock pass"
    and h: "\<not> fa_gone h" "fa_queue_key h = queue_key_for (fa_key h)" "fa_hb_prefix h = hb_prefix_for (fa_key h)"
    and own: "ks s (fa_key h) = Some (VStr (fa_token h), e)"
    and q: "waiters (ks s) (queue_key_for (fa_key h)) = Some xs" and t: "ttl_ok (clock s) 30000"
  shows "case fair_release exec Delivered h s of (r, h', s') \<Rightarrow> r = Inr () \<and>
     ks s' (fa_key h) = map_option (\<lambda>t. (VStr t, Some (clock s + 30000)))
        (find (beating (ks s) (hb_prefix_for (fa_key h))) (rev xs)) \<and>
     waiters (ks s') (queue_key_for (fa_key h)) =
       Some (rev (tl (dropWhile (\<lambda>t. \<not> beating (ks s) (hb_prefix_for (fa_key h)) t) (rev xs))))"
proof -
  let ?r = "fair_release_lua exec [fa_key h, queue_key_for (fa_key h), fence_key_for (fa_key h)]
     [fa_token h, show_nat 30000, hb_prefix_for (fa_key h)] s"
  note r = redis_server.fair_release_own [OF srv own q t key_neqs(2) key_neqs(7) key_neqs(3),
      of "fence_key_for (fa_key h)"]
  have "fair_release exec Delivered h s = (Inr (), h\<lparr>fa_gone := True\<rparr>, snd ?r)"
    using r h by (simp add: fair_release_def fa_mark_gone_def invoke_Delivered)
  with r show ?thesis by simp
qed

definition ex_fair :: FairShared where
  "ex_fair = \<lparr>fa_key = ''k'', fa_queue_key = queue_key_for ''k'', fa_hb_prefix = hb_prefix_for ''k'',
     fa_token = ''a'', fa_fence = FencingToken 1, fa_gone = False\<rparr>"

definition ex_fair_srv :: mem where
  "ex_fair_srv = (0, [''k'' \<mapsto> (VStr ''a'', Some 30000),
     queue_key_for ''k'' \<mapsto> (VList [''d'', ''c'', ''b''], Some 300000),
     hb_prefix_for ''k'' @ ''c'' \<mapsto> (VStr ''1'', Some 2000), hb_prefix_for ''k'' @ ''d'' \<mapsto> (VStr ''1'', Some 2000)])"

lemma ex_fair_ks:
  "mem_ks ex_fair_srv ''k'' = Some (VStr ''a'', Some 30000)"
  "mem_ks ex_fair_srv (queue_key_for ''k'') = Some (VList [''d'', ''c'', ''b''], Some 300000)"
  "beating (mem_ks ex_fair_srv) (hb_prefix_for ''k'') ''c''" "\<not> beating (mem_ks ex_fair_srv) (hb_prefix_for ''k'') ''b''"
  by (simp_all add: ex_fair_srv_def mem_ks_def expire_def beating_def queue_key_for_def hb_prefix_for_def)

lemma ex_fair_simps:
  "fa_key ex_fair = ''k''" "fa_queue_key ex_fair = queue_key_for ''k''" "fa_hb_prefix ex_fair = hb_prefix_for ''k''"
  "fa_token ex_fair = ''a''" "\<not> fa_gone ex_fair" "fst ex_fair_srv = 0"
  "waiters (mem_ks ex_fair_srv) (queue_key_for ''k'') = Some [''d'', ''c'', ''b'']"
  by (simp_all add: ex_fair_def waiters_def ex_fair_ks) (simp add: ex_fair_srv_def)

theorem fair_release_hands_off_witness:
  "mem_ks (snd (snd (fair_release mem_exec Delivered ex_fair ex_fair_srv))) ''k'' = Some (VStr ''c'', Some 30000) \<and>
   waiters (mem_ks (snd (snd (fair_release mem_exec Delivered ex_fair ex_fair_srv)))) (queue_key_for ''k'') = Some [''d'']"
  using fair_release_hands_off [OF mem.redis_server_axioms, of ex_fair ex_fair_srv "Some 30000" "[''d'', ''c'', ''b'']"]
  by (simp add: ex_fair_simps ex_fair_ks ttl_ok_def split_beta)

text \<open>A dropped fair lock strands its queue. Dropping an owned handle deletes the lock
  but hands it to nobody; and whenever the lock is free while somebody is queued, every fair
  acquisition, by a waiter or a newcomer, fails with a backend error and changes nothing, since
  the acquire script needs a fifth argument that the caller never passes.\<close>

theorem fair_queue_stranded:
  assumes srv: "redis_server exec ks clock pass"
    and h: "\<not> fa_gone h" and own: "ks s (fa_key h) = Some (VStr (fa_token h), e)"
    and q: "waiters (ks s) (queue_key_for (fa_key h)) = Some xs" "xs \<noteq> []"
    and opts: "validate opts = Inr ()"
    and t: "t = fair_drop exec Delivered True h s"
  shows "ks t = (ks s)(fa_key h := None) \<and>
    fst (try_lock_fair_as (Suc n) exec Delivered (fa_key h) tok opts t) = Inl (Backend ''fair acquire failed'') \<and>
    ks (snd (try_lock_fair_as (Suc n) exec Delivered (fa_key h) tok opts t)) = ks t"
proof -
  let ?k = "fa_key h"
  have t': "ks t = (ks s)(?k := None)"
    using redis_server.fair_drop_own [OF srv own, of "fa_hb_prefix h"] h t
    by (simp add: fair_drop_def fa_mark_gone_def invoke_def split: prod.splits sum.splits)
  then have free: "ks t ?k = None" "waiters (ks t) (queue_key_for ?k) = Some xs"
    using q(1) key_neqs(1) [of ?k] by (simp_all add: waiters_def)
  note stuck = redis_server.fair_acquire_stuck [OF srv free q(2) key_neqs(2), of n "fence_key_for ?k"
      "hb_prefix_for ?k @ tok" tok "ttl_arg (lo_ttl opts)" "fence_ttl_arg (lo_ttl opts)"
      "show_nat (unat (max (as_millis_u64 (lo_ttl opts)) 2000))"]
  show ?thesis
    using stuck opts by (intro conjI t') (simp_all add: try_lock_fair_as_def invoke_Delivered_error)
qed

theorem fair_queue_stranded_witness:
  "fst (try_lock_fair_as (Suc 8) mem_exec Delivered ''k'' ''b'' default_options
     (fair_drop mem_exec Delivered True ex_fair ex_fair_srv)) = Inl (Backend ''fair acquire failed'')"
  using fair_queue_stranded [OF mem.redis_server_axioms, of ex_fair ex_fair_srv "Some 30000" "[''d'', ''c'', ''b'']"
      default_options _ 8 "''b''"]
  by (simp add: ex_fair_simps ex_fair_ks validate_def default_options_def MIN_TTL_def from_secs_def from_millis_def)

text \<open>Extending a fair lock always fails. For the owner, a delivered extension refreshes
  the lease on the server and is then reported as a backend error, because the extend script needs
  the counter key that the fair handle does not pass.\<close>

theorem fair_extend_fails:
  assumes srv: "redis_server exec ks clock pass"
    and h: "\<not> fa_gone h" and own: "ks s (fa_key h) = Some (VStr (fa_token h), e)" and ttl: "lease_ok ttl (clock s)"
  shows "fst (fair_extend exec Delivered h ttl s) = Inl (Backend ''fair extend failed'') \<and>
    ks (snd (snd (fair_extend exec Delivered h ttl s))) =
      (ks s)(fa_key h \<mapsto> (VStr (fa_token h), Some (clock s + as_millis ttl)))"
proof -
  note l = lease_okD [OF ttl]
  let ?r = "extend_lua exec [fa_key h] [fa_token h, show_nat (as_millis ttl)] s"
  have "fst ?r = Inl NilArgument" "ks (snd ?r) = (ks s)(fa_key h \<mapsto> (VStr (fa_token h), Some (clock s + as_millis ttl)))"
    using own l(2) unfolding extend_lua_def
    by (simp_all add: lua_simps redis_server.lcall_simps [OF srv] redis_simps)
  then show ?thesis
    using h l(1,4) by (auto simp: fair_extend_def invoke_def split: prod.splits sum.splits)
qed

theorem fair_extend_fails_witness:
  "fst (fair_extend mem_exec Delivered ex_fair (from_secs 30) ex_fair_srv) = Inl (Backend ''fair extend failed'')"
  using fair_extend_fails [OF mem.redis_server_axioms, of ex_fair ex_fair_srv "Some 30000" "from_secs 30"]
  by (simp add: ex_fair_simps ex_fair_ks lease_ok_def MIN_TTL_def from_secs_def from_millis_def as_millis_def)

end
