(* ===== verification/Testament.thy ===== *)
theory Testament
  imports Single
begin

text \<open>
  Lock testaments (\<^verbatim>\<open>crates/redis/src/testament.rs\<close>): a payload stored beside a lock by its owner,
  read by whoever asks, removed on request. Payload bytes are strings.
\<close>

definition will_key :: "string \<Rightarrow> string" where
  "will_key key = key @ '':will''"

definition will_set_lua :: "'s server \<Rightarrow> string list \<Rightarrow> string list \<Rightarrow> ('s, int) lua" where
  "will_set_lua exec KEYS ARGV =
     lbind (call1 exec GET (lua_arg KEYS 1)) (\<lambda>v.
     if bulk_eq v (lua_arg ARGV 1)
     then lbind (call3 exec SET_PX (lua_arg KEYS 2) (lua_arg ARGV 2) (lua_arg ARGV 3)) (\<lambda>_. lret 1)
     else lret 0)"

definition will_del_lua :: "'s server \<Rightarrow> string list \<Rightarrow> string list \<Rightarrow> ('s, int) lua" where
  "will_del_lua exec KEYS ARGV =
     lbind (call1 exec GET (lua_arg KEYS 1)) (\<lambda>v.
     if bulk_eq v (lua_arg ARGV 1)
     then lbind (call1 exec DEL (lua_arg KEYS 2)) (\<lambda>_. lret 1)
     else lret 0)"

definition set_testament ::
  "'s server \<Rightarrow> delivery \<Rightarrow> string \<Rightarrow> string \<Rightarrow> duration \<Rightarrow> string \<Rightarrow> 's \<Rightarrow> unit result \<times> 's" where
  "set_testament exec d key token ttl payload s =
     (case invoke d ''testament set failed''
         (will_set_lua exec [key, will_key key] [token, payload, ttl_arg ttl]) s of
        (Inl e, t) \<Rightarrow> (Inl e, t)
      | (Inr ok, t) \<Rightarrow> (if ok \<noteq> 1 then Inl (Lost key 0) else Inr (), t))"

text \<open>An absent value is \<open>None\<close>.\<close>

definition read_testament :: "'s server \<Rightarrow> delivery \<Rightarrow> string \<Rightarrow> 's \<Rightarrow> string option result \<times> 's" where
  "read_testament exec d key s =
     (case query exec d ''testament read failed'' (GET (will_key key)) s of
        (Inl e, t) \<Rightarrow> (Inl e, t)
      | (Inr r, t) \<Rightarrow> (Inr (case r of RBulk v \<Rightarrow> Some v | _ \<Rightarrow> None), t))"

definition clear_testament :: "'s server \<Rightarrow> delivery \<Rightarrow> string \<Rightarrow> string \<Rightarrow> 's \<Rightarrow> unit result \<times> 's" where
  "clear_testament exec d key token s =
     (case invoke d ''testament clear failed'' (will_del_lua exec [key, will_key key] [token]) s of
        (Inl e, t) \<Rightarrow> (Inl e, t)
      | (Inr _, t) \<Rightarrow> (Inr (), t))"

lemma will_key_neq [simp]: "will_key k \<noteq> k" "k \<noteq> will_key k"
  by (simp_all add: will_key_def)

context redis_server
begin

lemma set_testament_own:
  assumes "ks s key = Some (VStr token, e)" "ttl_ok (clock s) (as_millis ttl)"
  shows "fst (set_testament exec Delivered key token ttl payload s) = Inr ()"
    and "ks (snd (set_testament exec Delivered key token ttl payload s)) =
      (ks s)(will_key key \<mapsto> (VStr payload, Some (clock s + as_millis ttl)))"
    and "clock (snd (set_testament exec Delivered key token ttl payload s)) = clock s"
proof -
  have "as_millis ttl < 2 ^ 64" using assms(2) by (auto simp: ttl_ok_def)
  then have arg: "ttl_arg ttl = show_nat (as_millis ttl)" by (rule ttl_arg_eq)
  let ?r = "will_set_lua exec [key, will_key key] [token, payload, ttl_arg ttl] s"
  have "fst ?r = Inr 1" "ks (snd ?r) = (ks s)(will_key key \<mapsto> (VStr payload, Some (clock s + as_millis ttl)))"
    "clock (snd ?r) = clock s"
    using assms unfolding will_set_lua_def arg by (simp_all add: lua_simps lcall_simps redis_simps)
  then show "fst (set_testament exec Delivered key token ttl payload s) = Inr ()"
    and "ks (snd (set_testament exec Delivered key token ttl payload s)) =
      (ks s)(will_key key \<mapsto> (VStr payload, Some (clock s + as_millis ttl)))"
    and "clock (snd (set_testament exec Delivered key token ttl payload s)) = clock s"
    by (simp_all add: set_testament_def invoke_Delivered)
qed

lemma read_testament_at:
  assumes "ks s (will_key key) = (case w of None \<Rightarrow> None | Some v \<Rightarrow> Some (VStr v, e))"
  shows "fst (read_testament exec Delivered key s) = Inr w"
proof -
  have "fst (lcall exec (GET (will_key key)) s) = Inr (case w of None \<Rightarrow> RNil | Some v \<Rightarrow> RBulk v)"
    using assms by (simp add: lcall_simps redis_simps split: option.splits)
  then show ?thesis
    by (simp add: read_testament_def query_def invoke_Delivered split: option.splits)
qed

end

section \<open>Properties\<close>

text \<open>A testament survives its author for its lifetime, and also the author's
  release. What the owner stores is read back by anyone, holder or not, until its own lease is
  over, after which it is absent; releasing the lock handle does not remove it.\<close>

theorem testament_outlives_release:
  assumes srv: "redis_server exec ks clock pass"
    and own: "ks s (hs_key h) = Some (VStr (hs_token h), e)" and ttl: "ttl_ok (clock s) (as_millis ttl)"
    and h: "\<not> hs_released h" and s1: "s1 = snd (set_testament exec Delivered (hs_key h) (hs_token h) ttl payload s)"
    and s2: "s2 = snd (snd (handle_release exec Delivered h s1))"
  shows "fst (handle_release exec Delivered h s1) = Inr () \<and> ks s2 (hs_key h) = None \<and>
    fst (read_testament exec Delivered (hs_key h) (pass dt s2)) =
      Inr (if dt < as_millis ttl then Some payload else None)"
proof -
  note w = redis_server.set_testament_own [OF srv own ttl, of payload, folded s1]
  have own1: "ks s1 (hs_key h) = Some (VStr (hs_token h), e)" using w(2) own by simp
  let ?r = "release_lua exec [hs_key h, hs_fence_key h] [hs_token h] s1"
  note rel = redis_server.release_own [OF srv own1, of "hs_fence_key h"]
  have clk: "clock (snd ?r) = clock s" using w(3) by (simp add: redis_server.release_clock [OF srv])
  have r: "handle_release exec Delivered h s1 = (Inr (), h\<lparr>hs_released := True\<rparr>, snd ?r)"
    using rel(1) h by (simp add: handle_release_def mark_released_def run_release_def invoke_Delivered)
  then have s2': "s2 = snd ?r" by (simp add: s2)
  have will: "ks s2 (will_key (hs_key h)) = Some (VStr payload, Some (clock s + as_millis ttl))"
    using rel(2) w(2) s2' by simp
  have "ks (pass dt s2) (will_key (hs_key h)) =
      (case (if dt < as_millis ttl then Some payload else None) of
         None \<Rightarrow> None | Some v \<Rightarrow> Some (VStr v, Some (clock s + as_millis ttl)))"
    using will clk s2' by (simp add: redis_server.pass_ks [OF srv] expire_def)
  then have "fst (read_testament exec Delivered (hs_key h) (pass dt s2)) =
      Inr (if dt < as_millis ttl then Some payload else None)"
    by (rule redis_server.read_testament_at [OF srv])
  with r rel(2) s2' show ?thesis by simp
qed

definition ex_author :: HandleShared where
  "ex_author = build_handle_from_parts ''k'' ''a'' 1 (from_secs 30)"

definition ex_will_srv :: mem where
  "ex_will_srv = (0, [''k'' \<mapsto> (VStr ''a'', Some 30000)])"

theorem testament_outlives_release_witness:
  "fst (read_testament mem_exec Delivered ''k'' (mem_pass 5 (snd (snd (handle_release mem_exec Delivered ex_author
     (snd (set_testament mem_exec Delivered ''k'' ''a'' (from_secs 1) ''cp'' ex_will_srv))))))) = Inr (Some ''cp'')"
  using testament_outlives_release [OF mem.redis_server_axioms, of ex_will_srv ex_author "Some 30000" "from_secs 1"
      _ "''cp''" _ 5]
  by (simp add: ex_author_def build_handle_from_parts_def ex_will_srv_def mem_ks_def expire_def ttl_ok_def
      from_secs_def as_millis_def)

text \<open>Only the owner writes or clears. With a token the lock does not carry, storing
  reports \<open>Lost\<close> (or a backend error) and clearing changes nothing.\<close>

theorem testament_guarded:
  assumes srv: "redis_server exec ks clock pass" and "\<nexists>e. ks s key = Some (VStr token, e)"
  shows "\<not> is_ok (fst (set_testament exec d key token ttl payload s)) \<and>
    ks (snd (set_testament exec d key token ttl payload s)) = ks s \<and>
    ks (snd (clear_testament exec d key token s)) = ks s"
proof -
  let ?P = "will_set_lua exec [key, will_key key] [token, payload, ttl_arg ttl]"
  let ?Q = "will_del_lua exec [key, will_key key] [token]"
  have P: "fst (?P s) \<in> {Inr 0} \<union> range Inl" "ks (snd (?P s)) = ks s" "ks (snd (?Q s)) = ks s"
    using assms(2) unfolding will_set_lua_def will_del_lua_def
    by (auto simp: lua_simps redis_server.lcall_simps [OF srv] redis_simps split: option.splits rval.splits)
  have "\<not> is_ok (fst (set_testament exec d key token ttl payload s))"
    using P(1) by (cases rule: invoke_cases [of d "''testament set failed''" ?P s])
      (auto simp: set_testament_def)
  moreover have "ks (snd (set_testament exec d key token ttl payload s)) = ks s"
    using P(2) invoke_state [of d "''testament set failed''" ?P s]
    by (auto simp: set_testament_def split: prod.splits sum.splits)
  moreover have "ks (snd (clear_testament exec d key token s)) = ks s"
    using P(3) invoke_state [of d "''testament clear failed''" ?Q s]
    by (auto simp: clear_testament_def split: prod.splits sum.splits)
  ultimately show ?thesis by blast
qed

theorem testament_guarded_witness:
  "\<not> is_ok (fst (set_testament mem_exec Delivered ''k'' ''b'' (from_secs 1) ''x'' ex_will_srv))"
  using testament_guarded [OF mem.redis_server_axioms, of ex_will_srv "''k''" "''b''" Delivered "from_secs 1" "''x''"]
  by (simp add: ex_will_srv_def mem_ks_def expire_def)

end
