(* ===== verification/Semantic.thy ===== *)
theory Semantic
  imports Single Complex_Main
begin

text \<open>
  Semantic locks (\<^verbatim>\<open>crates/redis/src/semantic.rs\<close>): predicates on a data hash that are compiled to a
  Lua condition and evaluated inside the grant script.

  Both sides of the compilation are modelled: the text that \<open>to_lua\<close> and \<open>acquire\<close>
  generate, and what the generated condition does when it runs. Floating-point thresholds are
  reals; Rust's rendering of one (\<open>show_f64\<close>) and Lua's \<^verbatim>\<open>tonumber\<close> (\<open>tonum\<close>) are parameters. The
  two sides agree as long as the quoting is transparent, which the lexer lemmas below delimit.
\<close>

section \<open>Predicates and their text\<close>

datatype Predicate =
    Equals string string
  | FieldGt string real
  | Absent string

definition esc :: "string \<Rightarrow> string" where
  "esc s = concat (map (\<lambda>c. if c = CHR 0x27 then [CHR 0x5C, CHR 0x27] else [c]) s)"

definition quoted :: "string \<Rightarrow> string" where
  "quoted s = [CHR 0x27] @ esc s @ [CHR 0x27]"

definition to_lua :: "(real \<Rightarrow> string) \<Rightarrow> Predicate \<Rightarrow> string" where
  "to_lua show_f64 p = (case p of
      Equals f v \<Rightarrow> ''(redis.call('' @ quoted ''HGET'' @ '', KEYS[3], '' @ quoted f @ '') == '' @ quoted v @ '')''
    | FieldGt f v \<Rightarrow> ''((tonumber(redis.call('' @ quoted ''HGET'' @ '', KEYS[3], '' @ quoted f @ '')) or -999999) > '' @
        show_f64 v @ '')''
    | Absent f \<Rightarrow> ''(redis.call('' @ quoted ''HEXISTS'' @ '', KEYS[3], '' @ quoted f @ '') == 0)'')"

fun join_and :: "string list \<Rightarrow> string" where
  "join_and [] = []"
| "join_and [x] = x"
| "join_and (x # y # ys) = x @ '' and '' @ join_and (y # ys)"

definition combined :: "(real \<Rightarrow> string) \<Rightarrow> Predicate list \<Rightarrow> string" where
  "combined show_f64 preds = join_and (map (to_lua show_f64) preds)"

section \<open>The generated script\<close>

definition pred_eval :: "(string \<Rightarrow> real option) \<Rightarrow> 's server \<Rightarrow> string option \<Rightarrow> Predicate \<Rightarrow> (bool \<Rightarrow> ('s, 'a) lua) \<Rightarrow> ('s, 'a) lua" where
  "pred_eval tonum exec data p c = (case p of
      Equals f v \<Rightarrow> lbind (call1 exec (\<lambda>k. HGET k f) data) (\<lambda>r. c (bulk_eq r (Some v)))
    | FieldGt f v \<Rightarrow> lbind (call1 exec (\<lambda>k. HGET k f) data) (\<lambda>r.
        c ((case r of RBulk x \<Rightarrow> (case tonum x of Some n \<Rightarrow> n | None \<Rightarrow> - 999999) | _ \<Rightarrow> - 999999) > v))
    | Absent f \<Rightarrow> lbind (call1 exec (\<lambda>k. HEXISTS k f) data) (\<lambda>r. c (rint r = 0)))"

fun preds_eval :: "(string \<Rightarrow> real option) \<Rightarrow> 's server \<Rightarrow> string option \<Rightarrow> Predicate list \<Rightarrow> (bool \<Rightarrow> ('s, 'a) lua) \<Rightarrow> ('s, 'a) lua" where
  "preds_eval tonum exec data [] c = c True"
| "preds_eval tonum exec data (p # ps) c =
     pred_eval tonum exec data p (\<lambda>b. if b then preds_eval tonum exec data ps c else c False)"

definition semantic_lua ::
  "(string \<Rightarrow> real option) \<Rightarrow> 's server \<Rightarrow> Predicate list \<Rightarrow> string list \<Rightarrow> string list \<Rightarrow> ('s, int \<times> int) lua" where
  "semantic_lua tonum exec preds KEYS ARGV =
     lbind (call1 exec EXISTS (lua_arg KEYS 3)) (\<lambda>d.
     if rint d = 0 then lret (0, 0)
     else lbind (call1 exec EXISTS (lua_arg KEYS 1)) (\<lambda>x.
     if rint x = 1 then lret (0, 0)
     else preds_eval tonum exec (lua_arg KEYS 3) preds (\<lambda>ok.
     if \<not> ok then lret (0, 0)
     else lbind (call3 exec SET_PX (lua_arg KEYS 1) (lua_arg ARGV 1) (lua_arg ARGV 2)) (\<lambda>_.
     lbind (call1 exec INCR (lua_arg KEYS 2)) (\<lambda>fence. lret (1, rint fence))))))"

section \<open>Builder\<close>

record SemanticGuard =
  sg_key :: string
  sg_preds :: "Predicate list"
  sg_ttl :: duration

definition acquire_where :: "string \<Rightarrow> SemanticGuard" where
  "acquire_where key = \<lparr>sg_key = key, sg_preds = [], sg_ttl = from_secs 30\<rparr>"

definition where_pred :: "Predicate \<Rightarrow> SemanticGuard \<Rightarrow> SemanticGuard" where
  "where_pred p g = g\<lparr>sg_preds := sg_preds g @ [p]\<rparr>"

definition field_equals :: "string \<Rightarrow> string \<Rightarrow> SemanticGuard \<Rightarrow> SemanticGuard" where
  "field_equals f v g = g\<lparr>sg_preds := sg_preds g @ [Equals f v]\<rparr>"

definition field_gt :: "string \<Rightarrow> real \<Rightarrow> SemanticGuard \<Rightarrow> SemanticGuard" where
  "field_gt f v g = g\<lparr>sg_preds := sg_preds g @ [FieldGt f v]\<rparr>"

definition field_absent :: "string \<Rightarrow> SemanticGuard \<Rightarrow> SemanticGuard" where
  "field_absent f g = g\<lparr>sg_preds := sg_preds g @ [Absent f]\<rparr>"

definition guard_ttl :: "duration \<Rightarrow> SemanticGuard \<Rightarrow> SemanticGuard" where
  "guard_ttl d g = g\<lparr>sg_ttl := d\<rparr>"

definition data_key_for :: "string \<Rightarrow> string" where
  "data_key_for key = key @ '':data''"

definition semantic_acquire ::
  "(string \<Rightarrow> real option) \<Rightarrow> 's server \<Rightarrow> delivery \<Rightarrow> string \<Rightarrow> SemanticGuard \<Rightarrow> 's \<Rightarrow> HandleShared result \<times> 's" where
  "semantic_acquire tonum exec d token g s =
     (if sg_preds g = [] then (Inl (InvalidConfig ''at least one predicate required''), s)
      else case invoke d ''semantic acquire failed''
          (semantic_lua tonum exec (sg_preds g) [sg_key g, fence_key_for (sg_key g), data_key_for (sg_key g)]
            [token, ttl_arg (sg_ttl g)]) s of
          (Inl e, t) \<Rightarrow> (Inl e, t)
        | (Inr (status, fence), t) \<Rightarrow>
            if status \<noteq> 1 then (Inl (Held (sg_key g)), t)
            else (Inr (build_handle_from_parts (sg_key g) token (of_int fence) (sg_ttl g)), t))"

section \<open>Evaluation\<close>

text \<open>What a predicate says of a hash.\<close>

definition pred_holds :: "(string \<Rightarrow> real option) \<Rightarrow> (string \<times> string) list \<Rightarrow> Predicate \<Rightarrow> bool" where
  "pred_holds tonum h p = (case p of
      Equals f v \<Rightarrow> map_of h f = Some v
    | FieldGt f v \<Rightarrow> (case Option.bind (map_of h f) tonum of Some n \<Rightarrow> n > v | None \<Rightarrow> - 999999 > v)
    | Absent f \<Rightarrow> map_of h f = None)"

context redis_server
begin

lemma pred_eval_run:
  assumes "ks s k = Some (VHash h, e)"
  shows "\<exists>s'. pred_eval tonum exec (Some k) p c s = c (pred_holds tonum h p) s' \<and> ks s' = ks s \<and> clock s' = clock s"
proof (cases p)
  case (Equals f v)
  with assms show ?thesis
    by (intro exI [of _ "snd (lcall exec (HGET k f) s)"])
      (auto simp: pred_eval_def pred_holds_def lua_simps lcall_simps redis_simps with_hash_def split: option.splits)
next
  case (FieldGt f v)
  with assms show ?thesis
    by (intro exI [of _ "snd (lcall exec (HGET k f) s)"])
      (auto simp: pred_eval_def pred_holds_def lua_simps lcall_simps redis_simps with_hash_def split: option.splits)
next
  case (Absent f)
  with assms show ?thesis
    by (intro exI [of _ "snd (lcall exec (HEXISTS k f) s)"])
      (auto simp: pred_eval_def pred_holds_def lua_simps lcall_simps redis_simps with_hash_def split: option.splits)
qed

lemma preds_eval_run:
  assumes "ks s k = Some (VHash h, e)"
  shows "\<exists>s'. preds_eval tonum exec (Some k) ps c s = c (\<forall>p \<in> set ps. pred_holds tonum h p) s' \<and>
    ks s' = ks s \<and> clock s' = clock s"
  using assms
proof (induction ps arbitrary: s)
  case (Cons p ps)
  let ?c = "\<lambda>b. if b then preds_eval tonum exec (Some k) ps c else c False"
  obtain s1 where s1: "pred_eval tonum exec (Some k) p ?c s = ?c (pred_holds tonum h p) s1"
    "ks s1 = ks s" "clock s1 = clock s"
    using pred_eval_run [OF Cons.prems] by blast
  show ?case
  proof (cases "pred_holds tonum h p")
    case True
    with Cons.IH [of s1] Cons.prems s1 show ?thesis by simp
  next
    case False
    with s1 show ?thesis by auto
  qed
qed auto

end

lemma data_key_neq [simp]:
  "data_key_for k \<noteq> k" "k \<noteq> data_key_for k"
  by (simp_all add: data_key_for_def)

context redis_server
begin

lemma semantic_run:
  fixes k t ps tok s tonum
  assumes h: "ks s (data_key_for k) = Some (VHash h, e)" and free: "ks s k = None"
    and t: "ttl_ok (clock s) t" and n: "counter (ks s) (fence_key_for k) = Some n" "n < i64_max"
  defines "r \<equiv> semantic_lua tonum exec ps [k, fence_key_for k, data_key_for k] [tok, show_nat t] s"
  shows "if \<forall>p \<in> set ps. pred_holds tonum h p
    then fst r = Inr (1, n + 1) \<and> ks (snd r) k = Some (VStr tok, Some (clock s + t))
    else fst r = Inr (0, 0) \<and> ks (snd r) = ks s"
proof -
  let ?s1 = "snd (lcall exec (EXISTS (data_key_for k)) s)"
  let ?s2 = "snd (lcall exec (EXISTS k) ?s1)"
  let ?c = "\<lambda>ok. if \<not> ok then lret (0 :: int, 0)
     else lbind (call3 exec SET_PX (Some k) (Some tok) (Some (show_nat t))) (\<lambda>_.
     lbind (call1 exec INCR (Some (fence_key_for k))) (\<lambda>fence. lret (1, rint fence)))"
  have s1: "fst (lcall exec (EXISTS (data_key_for k)) s) = Inr (RInt 1)" "ks ?s1 = ks s"
    and s2: "fst (lcall exec (EXISTS k) ?s1) = Inr (RInt 0)" "ks ?s2 = ks s" "clock ?s2 = clock s"
    using h free by (simp_all add: lcall_simps redis_simps of_bool_int_def)
  have start: "r = preds_eval tonum exec (Some (data_key_for k)) ps ?c ?s2"
    unfolding r_def semantic_lua_def using s1(1) s2(1)
    by (simp add: lbind_run [of "lcall exec (EXISTS _)"] call1_def [of exec EXISTS] need_def [of "Some _"] rint_def cong: if_cong)
  obtain s3 where run: "preds_eval tonum exec (Some (data_key_for k)) ps ?c ?s2 =
      ?c (\<forall>p \<in> set ps. pred_holds tonum h p) s3" and s3: "ks s3 = ks s" "clock s3 = clock s"
    using preds_eval_run [of ?s2 "data_key_for k" h e tonum ps ?c] h s2 by auto
  define A where "A \<longleftrightarrow> (\<forall>p \<in> set ps. pred_holds tonum h p)"
  have r: "r = ?c A s3" unfolding A_def using start run by (rule trans)
  have yes: "fst (?c True s3) = Inr (1, n + 1) \<and> ks (snd (?c True s3)) k = Some (VStr tok, Some (clock s + t))"
    using s3 t n by (simp add: lua_simps lcall_simps redis_simps)
  have no: "fst (?c False s3) = Inr (0, 0) \<and> ks (snd (?c False s3)) = ks s"
    using s3 by (simp add: lret_def)
  have "if A then fst r = Inr (1, n + 1) \<and> ks (snd r) k = Some (VStr tok, Some (clock s + t))
    else fst r = Inr (0, 0) \<and> ks (snd r) = ks s"
    using r yes no by (cases A) (simp_all only: if_True if_False)
  then show ?thesis unfolding A_def .
qed

end

section \<open>Quoting\<close>

text \<open>The rest of a single-quoted Lua literal: a backslash escapes the next character, a bare quote
  ends it, a bare line feed is an error.\<close>

fun lua_literal :: "string \<Rightarrow> (string \<times> string) option" where
  "lua_literal [] = None"
| "lua_literal (c # cs) =
     (if c = CHR 0x27 then Some ([], cs)
      else if c = CHR 0x0A then None
      else if c = CHR 0x5C then
        (case cs of [] \<Rightarrow> None
         | d # ds \<Rightarrow> if d \<in> {CHR 0x27, CHR 0x5C}
                    then map_option (\<lambda>(v, r). (d # v, r)) (lua_literal ds) else None)
      else map_option (\<lambda>(v, r). (c # v, r)) (lua_literal cs))"

lemma esc_simps [simp]: "esc [] = []"
  "esc (c # cs) = (if c = CHR 0x27 then [CHR 0x5C, CHR 0x27] else [c]) @ esc cs"
  by (simp_all add: esc_def)

lemma literal_esc:
  "CHR 0x5C \<notin> set s \<Longrightarrow> CHR 0x0A \<notin> set s \<Longrightarrow> lua_literal (esc s @ CHR 0x27 # rest) = Some (s, rest)"
  by (induction s) auto

section \<open>Properties\<close>


definition ex_guard :: SemanticGuard where
  "ex_guard = field_gt ''stock'' 3 (field_equals ''state'' ''open'' (acquire_where ''o''))"

definition ex_sem_srv :: "string \<Rightarrow> mem" where
  "ex_sem_srv v = (0, [''o:data'' \<mapsto> (VHash [(''state'', ''open''), (''stock'', v)], None)])"


text \<open>Quoting is transparent without backslashes, and only then. A field or value
  without backslash or line feed reads back from the generated literal as itself; but a backslash
  before a quote defeats the escaping: the literal ends early and the rest of the caller's text
  becomes script code.\<close>

theorem quoting_transparent:
  "(CHR 0x5C \<notin> set v \<and> CHR 0x0A \<notin> set v \<longrightarrow> lua_literal (tl (quoted v) @ rest) = Some (v, rest)) \<and>
   lua_literal (tl (quoted ([CHR 0x5C, CHR 0x27] @ code)) @ rest) = Some ([CHR 0x5C], esc code @ [CHR 0x27] @ rest)"
  by (simp add: quoted_def literal_esc)

theorem quoting_transparent_witness:
  "lua_literal (tl (quoted ''open'') @ '')'') = Some (''open'', '')'') \<and>
   lua_literal (tl (quoted ([CHR 0x5C, CHR 0x27] @ '') or (1 == 1'')) @ '')'') =
     Some ([CHR 0x5C], '') or (1 == 1'' @ [CHR 0x27] @ '')'')"
  using quoting_transparent [of "''open''" "'')''" "'') or (1 == 1''"] by simp

end
