(* ===== verification/Ownership.thy ===== *)
theory Ownership
  imports Mutex
begin

text \<open>
  What the mutex operations do to the keys that carry a client's own tokens, whatever happens to
  their calls: an attempt that finds the lock held changes nothing, a grant makes the key carry the
  client's token and touches no other key but the counter, and a delivered release makes it stop
  carrying it. Clients of the mutex (the multi-lock, the service) build on these facts.
\<close>

text \<open>Whether a key carries the token that a client drew for it.\<close>

definition ours :: "('s \<Rightarrow> keyspace) \<Rightarrow> (string \<Rightarrow> string) \<Rightarrow> 's \<Rightarrow> string \<Rightarrow> bool" where
  "ours ks tok s k \<longleftrightarrow> (\<exists>e. ks s k = Some (VStr (tok k), e))"

definition fresh_handle :: "(string \<Rightarrow> string) \<Rightarrow> HandleShared \<Rightarrow> bool" where
  "fresh_handle tok h \<longleftrightarrow> \<not> hs_released h \<and> hs_token h = tok (hs_key h) \<and> hs_fence_key h = fence_key_for (hs_key h)"

context redis_server
begin

lemma acquire_refused:
  fixes k fk tok t ft s
  defines "r \<equiv> acquire_lua exec [k, fk] [tok, show_nat t, show_nat ft] s"
  assumes r: "fst r = Inr (st, f)" "st \<noteq> 1" "st \<noteq> 2"
  shows "ks (snd r) = ks s" and "\<nexists>e. ks s k = Some (VStr tok, e)"
proof -
  have t: "ttl_ok (clock s) t"
    using acquire_bad_ttl [of s t k fk tok "show_nat ft"] r(1) by (auto simp: r_def)
  have busy: "ks s k \<noteq> None"
  proof
    assume "ks s k = None"
    with r t show False unfolding r_def acquire_lua_def
      by (simp add: lua_simps lcall_simps doc_ttl(2) split: sum.splits)
  qed
  show no: "\<nexists>e. ks s k = Some (VStr tok, e)"
  proof
    assume "\<exists>e. ks s k = Some (VStr tok, e)"
    with r t show False unfolding r_def acquire_lua_def
      by (auto simp: lua_simps lcall_simps doc_ttl(2) doc_plain split: sum.splits)
  qed
  from busy no show "ks (snd r) = ks s"
    unfolding r_def by (metis acquire_other(1) not_None_eq surj_pair)
qed

lemma release_step:
  assumes "fresh_handle tok h" "handle_release exec d h s = (res, h', s')"
  shows "ours ks tok s' x \<Longrightarrow> ours ks tok s x" and "d = Delivered \<Longrightarrow> \<not> ours ks tok s' (hs_key h)"
proof -
  have h: "hs_fence_key h = fence_key_for (hs_key h)" "hs_token h = tok (hs_key h)" "\<not> hs_released h"
    using assms(1) by (auto simp: fresh_handle_def)
  let ?s = "rel_state (hs_key h) (hs_token h) s"
  have "s' = s \<or> s' = ?s" using handle_release_state [OF assms(2) h(1)] .
  then show "ours ks tok s' x \<Longrightarrow> ours ks tok s x"
    by (auto simp: ours_def rel_state_ks split: if_splits)
  show "\<not> ours ks tok s' (hs_key h)" if "d = Delivered"
  proof -
    have "s' = ?s"
      using that assms(2) h
      by (auto simp: handle_release_def mark_released_def run_release_def invoke_def
          split: prod.splits sum.splits if_splits)
    then show ?thesis using h(2) by (auto simp: ours_def rel_state_ks)
  qed
qed

lemma try_lock_with_held:
  assumes "try_lock_with exec d mgr tok k opts s = (Inl (Held k'), s')"
  shows "ks s' = ks s" and "\<nexists>e. ks s k = Some (VStr tok, e)"
proof -
  let ?P = "acquire_lua exec [k, fence_key_for k] [tok, ttl_arg (lo_ttl opts), fence_ttl_arg (lo_ttl opts)]"
  from assms obtain st f where i: "invoke d ''acquire script failed'' ?P s = (Inr (st, f), s')"
    and st: "st \<noteq> 1" "st \<noteq> 2"
    using invoke_Inl [of d "''acquire script failed''" ?P s "Held k'"]
    by (auto simp: try_lock_with_def validate_def split: sum.splits prod.splits if_splits)
  from invoke_InrD [OF i] have "fst (?P s) = Inr (st, f)" "s' = snd (?P s)" by auto
  with acquire_refused [of k "fence_key_for k" tok _ _ s st f] st
  show "ks s' = ks s" and "\<nexists>e. ks s k = Some (VStr tok, e)"
    by (simp_all add: ttl_arg_def fence_ttl_arg_def)
qed

lemma try_lock_with_taken:
  assumes "try_lock_with exec d mgr (tok k) k opts s = (Inr h, s')"
  shows "hs_key h = k" "fresh_handle tok h" "ours ks tok s' k"
    and "x \<noteq> k \<Longrightarrow> x \<noteq> fence_key_for k \<Longrightarrow> ours ks tok s' x = ours ks tok s x"
proof -
  from assms show "hs_key h = k" "fresh_handle tok h"
    by (auto simp: try_lock_with_def fresh_handle_def split: sum.splits prod.splits if_splits)
  from try_lock_with_grant [OF assms] obtain st f where g: "st = 1 \<or> st = 2"
    "s' = acq_state k (tok k) (lo_ttl opts) s"
    "fst (acquire_lua exec [k, fence_key_for k]
      [tok k, ttl_arg (lo_ttl opts), fence_ttl_arg (lo_ttl opts)] s) = Inr (st, f)" by blast
  from acquire_grant(5) [of k "fence_key_for k" "tok k" _ _ s st f] g show "ours ks tok s' k"
    by (simp add: ours_def ttl_arg_def fence_ttl_arg_def)
  show "ours ks tok s' x = ours ks tok s x" if "x \<noteq> k" "x \<noteq> fence_key_for k"
    using acquire_frame [OF that] g(2) by (simp add: ours_def)
qed

end

end
