(* ===== verification/Multi.thy ===== *)
theory Multi
  imports Ownership "HOL-Library.Char_ord" "HOL-Library.List_Lexorder"
begin

text \<open>
  All-or-nothing locking of several keys (\<^verbatim>\<open>crates/redis/src/multi.rs\<close>): keys are sorted, duplicates
  refused, and each round either takes every key in order or releases what it took in reverse.
  Rust orders strings by their bytes; that is the lexicographic order of lists of characters.

  One round talks to the server many times. Its environment (\<open>mround\<close>) fixes, per key,
  the token drawn, how the lock call and the release call are delivered, and what other clients
  and time do before each of them.
\<close>

section \<open>Rounds\<close>

record 's mround =
  mr_token :: "string \<Rightarrow> string"
  mr_lock :: "string \<Rightarrow> delivery"
  mr_release :: "string \<Rightarrow> delivery"
  mr_before_lock :: "string \<Rightarrow> 's \<Rightarrow> 's"
  mr_before_release :: "string \<Rightarrow> 's \<Rightarrow> 's"
  mr_now :: nat

datatype round_result = Taken "HandleShared list" | RolledBack error | Aborted error

definition multi_keys :: "HandleShared list \<Rightarrow> string list" where
  "multi_keys hs = map hs_key hs"

definition multi_fences :: "HandleShared list \<Rightarrow> FencingToken list" where
  "multi_fences hs = map hs_fence hs"

text \<open>Releases in the given order, keeping the first error and the handles' new flags. The
  rollback discards both.\<close>

fun release_each ::
  "'s server \<Rightarrow> 's mround \<Rightarrow> HandleShared list \<Rightarrow> 's \<Rightarrow> error option \<times> HandleShared list \<times> 's" where
  "release_each exec r [] s = (None, [], s)"
| "release_each exec r (h # hs) s =
     (case handle_release exec (mr_release r (hs_key h)) h (mr_before_release r (hs_key h) s) of
        (res, h', t) \<Rightarrow>
          (case release_each exec r hs t of
             (err, hs', u) \<Rightarrow>
               ((case res of Inl e \<Rightarrow> Some e | Inr _ \<Rightarrow> err), h' # hs', u)))"

definition multi_release_all ::
  "'s server \<Rightarrow> 's mround \<Rightarrow> HandleShared list \<Rightarrow> 's \<Rightarrow> unit result \<times> HandleShared list \<times> 's" where
  "multi_release_all exec r hs s =
     (case release_each exec r (rev hs) s of
        (None, hs', t) \<Rightarrow> (Inr (), rev hs', t)
      | (Some e, hs', t) \<Rightarrow> (Inl e, rev hs', t))"

text \<open>Dropping a vector drops its elements from the front.\<close>

fun drop_each :: "'s server \<Rightarrow> 's mround \<Rightarrow> HandleShared list \<Rightarrow> 's \<Rightarrow> 's" where
  "drop_each exec r [] s = s"
| "drop_each exec r (h # hs) s =
     drop_each exec r hs (handle_drop exec (mr_release r (hs_key h)) True h (mr_before_release r (hs_key h) s))"

fun lock_round ::
  "'s server \<Rightarrow> RedisLockManager \<Rightarrow> LockOptions \<Rightarrow> 's mround \<Rightarrow> string list \<Rightarrow> HandleShared list \<Rightarrow> 's \<Rightarrow> round_result \<times> 's" where
  "lock_round exec mgr options r [] handles s = (Taken handles, s)"
| "lock_round exec mgr options r (key # keys) handles s =
     (case try_lock_with exec (mr_lock r key) mgr (mr_token r key) key options (mr_before_lock r key s) of
        (Inr h, t) \<Rightarrow> lock_round exec mgr options r keys (handles @ [h]) t
      | (Inl e, t) \<Rightarrow>
          (case e of
             Held _ \<Rightarrow> (RolledBack e, snd (snd (release_each exec r (rev handles) t)))
           | Backend _ \<Rightarrow> (RolledBack e, snd (snd (release_each exec r (rev handles) t)))
           | _ \<Rightarrow> (Aborted e, drop_each exec r handles t)))"

section \<open>Acquisition\<close>

text \<open>\<^verbatim>\<open>sorted.windows(2).any(|w| w[0] == w[1])\<close>.\<close>

fun adjacent_dup :: "string list \<Rightarrow> bool" where
  "adjacent_dup (x # y # zs) = (x = y \<or> adjacent_dup (y # zs))"
| "adjacent_dup _ = False"

text \<open>\<^verbatim>\<open>{sorted:?}\<close>. Control characters and the two quoting characters are escaped; bytes of
  characters outside ASCII are kept, as the formatter keeps printable ones.\<close>

definition hex_digit :: "nat \<Rightarrow> char" where
  "hex_digit n = ''0123456789abcdef'' ! n"

definition debug_char :: "char \<Rightarrow> string" where
  "debug_char c =
     (let n = of_char c :: nat; esc = (\<lambda>d. [CHR 0x5C, d]) in
      if n = 34 \<or> n = 92 then esc c
      else if n = 9 then esc (CHR ''t'')
      else if n = 10 then esc (CHR ''n'')
      else if n = 13 then esc (CHR ''r'')
      else if n = 0 then esc (CHR ''0'')
      else if n < 16 then esc (CHR ''u'') @ ''{'' @ [hex_digit n] @ ''}''
      else if n < 32 \<or> n = 127 then esc (CHR ''u'') @ ''{'' @ [hex_digit (n div 16), hex_digit (n mod 16)] @ ''}''
      else [c])"

definition debug_str :: "string \<Rightarrow> string" where
  "debug_str s = [CHR 0x22] @ concat (map debug_char s) @ [CHR 0x22]"

fun join_comma :: "string list \<Rightarrow> string" where
  "join_comma [] = []"
| "join_comma [x] = x"
| "join_comma (x # y # ys) = x @ '', '' @ join_comma (y # ys)"

definition multi_name :: "string list \<Rightarrow> string" where
  "multi_name ks = ''multi:['' @ join_comma (map debug_str ks) @ '']''"

fun try_lock_all_loop ::
  "'s server \<Rightarrow> RedisLockManager \<Rightarrow> LockOptions \<Rightarrow> string list \<Rightarrow> nat \<Rightarrow> 's mround list \<Rightarrow> 's \<Rightarrow>
   (HandleShared list result \<times> 's) option" where
  "try_lock_all_loop exec mgr options srt deadline [] s = None"
| "try_lock_all_loop exec mgr options srt deadline (r # rs) s =
     (case lock_round exec mgr options r srt [] s of
        (Taken hs, t) \<Rightarrow> Some (Inr hs, t)
      | (Aborted e, t) \<Rightarrow> Some (Inl e, t)
      | (RolledBack e, t) \<Rightarrow>
          (case e of
             Held _ \<Rightarrow> if deadline \<le> mr_now r then Some (Inl (Timeout (multi_name srt)), t)
                       else try_lock_all_loop exec mgr options srt deadline rs t
           | _ \<Rightarrow> Some (Inl e, t)))"

definition try_lock_all ::
  "'s server \<Rightarrow> RedisLockManager \<Rightarrow> nat \<Rightarrow> string list \<Rightarrow> LockOptions \<Rightarrow> duration \<Rightarrow> 's mround list \<Rightarrow> 's \<Rightarrow>
   panic + (HandleShared list result \<times> 's) option" where
  "try_lock_all exec mgr now keys options wait rs s =
     (case validate options of
        Inl e \<Rightarrow> Inr (Some (Inl e, s))
      | Inr _ \<Rightarrow>
          let srt = sort keys in
          if adjacent_dup srt
          then Inr (Some (Inl (InvalidConfig ''multi-lock received duplicate keys''), s))
          else map_sum id (\<lambda>deadline. try_lock_all_loop exec mgr options srt deadline rs s) (instant_add now wait))"

section \<open>Helper lemmas\<close>

lemma adjacent_dup_sorted: "sorted xs \<Longrightarrow> adjacent_dup xs \<longleftrightarrow> \<not> distinct xs"
proof (induction xs rule: adjacent_dup.induct)
  case (1 x y zs)
  from "1.prems" have "x \<le> y" "\<forall>z \<in> set zs. y \<le> z" by auto
  then have "x \<in> set (y # zs) \<longleftrightarrow> x = y" by (auto intro: order_antisym)
  with 1 show ?case by auto
qed auto

text \<open>What the environment of a round is allowed to do: neither take away a key that carries one
  of the round's tokens nor produce one.\<close>

definition undisturbed :: "('s \<Rightarrow> keyspace) \<Rightarrow> string set \<Rightarrow> 's mround \<Rightarrow> bool" where
  "undisturbed ks K r \<longleftrightarrow> (\<forall>k s. \<forall>x \<in> K.
     ours ks (mr_token r) (mr_before_lock r k s) x = ours ks (mr_token r) s x \<and>
     ours ks (mr_token r) (mr_before_release r k s) x = ours ks (mr_token r) s x)"

context redis_server
begin

lemma release_each_clears:
  assumes "undisturbed ks K r" "\<forall>h \<in> set hs. fresh_handle (mr_token r) h \<and> hs_key h \<in> K"
    and "\<forall>x \<in> K. mr_release r x = Delivered"
    and "x \<in> K" "ours ks (mr_token r) (snd (snd (release_each exec r hs s))) x"
  shows "ours ks (mr_token r) s x \<and> x \<notin> hs_key ` set hs"
  using assms
proof (induction hs arbitrary: s)
  case (Cons h hs)
  let ?b = "mr_before_release r (hs_key h) s"
  obtain res h' t where rel: "handle_release exec (mr_release r (hs_key h)) h ?b = (res, h', t)"
    using prod_cases3 by blast
  with Cons.prems have "ours ks (mr_token r) (snd (snd (release_each exec r hs t))) x"
    by (auto split: prod.splits)
  with Cons have "ours ks (mr_token r) t x \<and> x \<notin> hs_key ` set hs" by simp
  moreover note release_step [OF _ rel, of "mr_token r"] Cons.prems
  ultimately show ?case by (auto simp: undisturbed_def)
qed simp

text \<open>The state of a round: the handles taken so far are exactly the keys that carry its
  tokens.\<close>

definition round_inv :: "string set \<Rightarrow> 's mround \<Rightarrow> HandleShared list \<Rightarrow> 's \<Rightarrow> bool" where
  "round_inv K r hs s \<longleftrightarrow> (\<forall>h \<in> set hs. fresh_handle (mr_token r) h) \<and> hs_key ` set hs \<subseteq> K \<and>
     (\<forall>x \<in> K. ours ks (mr_token r) s x \<longleftrightarrow> x \<in> hs_key ` set hs)"

lemma lock_round_outcome:
  assumes "undisturbed ks K r" "\<forall>x \<in> K. \<forall>y \<in> K. x \<noteq> fence_key_for y"
    and "set keys \<subseteq> K" "distinct keys" "set keys \<inter> hs_key ` set hs = {}" "round_inv K r hs s"
  shows "case lock_round exec mgr opts r keys hs s of
      (Taken hs', t) \<Rightarrow> multi_keys hs' = multi_keys hs @ keys \<and> round_inv K r hs' t
    | (RolledBack (Held _), t) \<Rightarrow>
        (\<forall>x \<in> K. mr_release r x = Delivered) \<longrightarrow> (\<forall>x \<in> K. \<not> ours ks (mr_token r) t x)
    | _ \<Rightarrow> True"
  using assms(3-)
proof (induction keys arbitrary: hs s)
  case (Cons k keys)
  let ?s = "mr_before_lock r k s"
  have inv: "round_inv K r hs ?s"
    using Cons.prems(4) assms(1) by (auto simp: round_inv_def undisturbed_def)
  obtain res t where att: "try_lock_with exec (mr_lock r k) mgr (mr_token r k) k opts ?s = (res, t)"
    by fastforce
  show ?case
  proof (cases res)
    case (Inr h)
    note taken = try_lock_with_taken [where tok = "mr_token r", OF att [unfolded Inr]]
    have kK: "k \<in> K" using Cons.prems(1) by simp
    have "ours ks (mr_token r) t x \<longleftrightarrow> x = k \<or> x \<in> hs_key ` set hs" if "x \<in> K" for x
      using inv taken(3) taken(4) [of x] assms(2) that kK by (cases "x = k") (auto simp: round_inv_def)
    then have "round_inv K r (hs @ [h]) t"
      using inv taken(1,2) kK by (simp add: round_inv_def)
    moreover have m: "multi_keys (hs @ [h]) @ keys = multi_keys hs @ k # keys"
      using taken(1) by (simp add: multi_keys_def)
    ultimately show ?thesis
      using Cons.IH [of "hs @ [h]" t, unfolded m] Cons.prems taken(1) att Inr by simp
  next
    case (Inl e)
    have "\<not> ours ks (mr_token r) (snd (snd (release_each exec r (rev hs) t))) x"
      if "e = Held k'" "\<forall>x \<in> K. mr_release r x = Delivered" "x \<in> K" for k' x
    proof
      assume o: "ours ks (mr_token r) (snd (snd (release_each exec r (rev hs) t))) x"
      have "ks t = ks ?s" using try_lock_with_held(1) att Inl that(1) by blast
      moreover have "\<forall>h \<in> set (rev hs). fresh_handle (mr_token r) h \<and> hs_key h \<in> K"
        using inv by (auto simp: round_inv_def)
      ultimately show False
        using release_each_clears [OF assms(1) _ that(2,3) o] inv that(3) by (auto simp: round_inv_def ours_def)
    qed
    with att Inl show ?thesis by (cases e) auto
  qed
qed (simp add: multi_keys_def)

end

section \<open>Properties\<close>


lemma lock_round_keys:
  "lock_round exec mgr opts r keys hs s = (Taken hs', t) \<Longrightarrow> multi_keys hs' = multi_keys hs @ keys"
proof (induction keys arbitrary: hs s)
  case (Cons k keys)
  obtain res u where att: "try_lock_with exec (mr_lock r k) mgr (mr_token r k) k opts (mr_before_lock r k s) = (res, u)"
    by fastforce
  with Cons.prems obtain h where h: "res = Inr h" "lock_round exec mgr opts r keys (hs @ [h]) u = (Taken hs', t)"
    by (auto split: sum.splits error.splits)
  from att h(1) have "hs_key h = k"
    by (auto simp: try_lock_with_def split: sum.splits prod.splits if_splits)
  with Cons.IH [OF h(2)] show ?case by (simp add: multi_keys_def)
qed (simp add: multi_keys_def)

lemma lock_round_aborted: "lock_round exec mgr opts r keys hs s \<noteq> (Aborted (Held k), t)"
  by (induction keys arbitrary: hs s) (auto split: prod.splits sum.splits error.splits)

lemma try_lock_all_loop_answer:
  assumes "\<exists>r \<in> set rs. deadline \<le> mr_now r"
  shows "\<exists>res t. try_lock_all_loop exec mgr opts keys deadline rs s = Some (res, t) \<and>
     (\<forall>k. res \<noteq> Inl (Held k)) \<and> (\<forall>hs. res = Inr hs \<longrightarrow> multi_keys hs = keys)"
  using assms
proof (induction rs arbitrary: s)
  case (Cons r rs)
  obtain x t where r: "lock_round exec mgr opts r keys [] s = (x, t)" by fastforce
  have aborted: "x = Aborted e \<Longrightarrow> e \<noteq> Held k" for e k using lock_round_aborted r by metis
  show ?case
    using Cons r lock_round_keys [of exec mgr opts r keys "[]" s] aborted
    by (auto simp: multi_keys_def split: round_result.splits error.splits)
qed simp

text \<open>Multi-locking answers. Options below the floor and duplicate keys are refused
  without touching the server; otherwise, as soon as one round ends with the clock at or past the
  deadline, the call returns; it never answers \<open>Held\<close>, and every handle list it returns
  lists the keys, which are then distinct, in sorted order.\<close>

theorem try_lock_all_answers:
  assumes "\<exists>r \<in> set rs. now + wait \<le> mr_now r" "now + wait < INSTANT_LIMIT"
  shows "if lo_ttl opts < MIN_TTL then \<exists>m. try_lock_all exec mgr now keys opts wait rs s = Inr (Some (Inl (InvalidConfig m), s))
    else if \<not> distinct keys then try_lock_all exec mgr now keys opts wait rs s =
        Inr (Some (Inl (InvalidConfig ''multi-lock received duplicate keys''), s))
    else \<exists>res t. try_lock_all exec mgr now keys opts wait rs s = Inr (Some (res, t)) \<and>
        (\<forall>k. res \<noteq> Inl (Held k)) \<and> (\<forall>hs. res = Inr hs \<longrightarrow> multi_keys hs = sort keys)"
proof -
  have "adjacent_dup (sort keys) \<longleftrightarrow> \<not> distinct keys" by (simp add: adjacent_dup_sorted)
  moreover have "instant_add now wait = Inr (now + wait)" using assms(2) by (simp add: instant_add_Inr)
  ultimately show ?thesis
    using try_lock_all_loop_answer [OF assms(1)]
    by (simp add: try_lock_all_def validate_def Let_def)
qed

text \<open>The environment of the witnesses: nothing happens between the calls, tokens are per key.\<close>

definition ex_round :: "mem mround" where
  "ex_round = \<lparr>mr_token = (\<lambda>k. ''t-'' @ k), mr_lock = (\<lambda>_. Delivered), mr_release = (\<lambda>_. Delivered),
     mr_before_lock = (\<lambda>_. id), mr_before_release = (\<lambda>_. id), mr_now = 5\<rparr>"

lemma ex_round_undisturbed: "undisturbed mem_ks K ex_round"
  by (simp add: undisturbed_def ex_round_def)

lemma ex_round_taken:
  "\<exists>hs t. lock_round mem_exec ex_mgr default_options ex_round (sort [''b'', ''a'']) [] mem_init = (Taken hs, t)"
proof -
  let ?s = "snd (try_lock_with mem_exec Delivered ex_mgr ''t-a'' ''a'' default_options mem_init)"
  note a = mem.try_lock_with_free [OF ex_init, of ex_mgr "''t-a''" "''a''"]
  have b: "lease_ok (lo_ttl default_options) (fst ?s)" "mem_ks ?s ''b'' = None"
    "counter (mem_ks ?s) (fence_key_for ''b'') = Some 0"
    using a ex_init by (simp_all add: fence_key_for_def mem_init_def mem_ks_def expire_def)
  note b = mem.try_lock_with_free(1) [OF b, of ex_mgr "''t-b''"]
  have k: "sort [''b'', ''a''] = [''a'', ''b'']" by simp
  from a(1) b show ?thesis
    by (simp add: k ex_round_def split_beta)
qed


theorem try_lock_all_answers_witness:
  "try_lock_all mem_exec ex_mgr 0 [''b'', ''b''] default_options 5 [ex_round] mem_init =
     Inr (Some (Inl (InvalidConfig ''multi-lock received duplicate keys''), mem_init)) \<and>
   (\<exists>res t. try_lock_all mem_exec ex_mgr 0 [''b'', ''a''] default_options 5 [ex_round] mem_init = Inr (Some (res, t)) \<and>
        (\<forall>k. res \<noteq> Inl (Held k)))"
proof -
  have now: "\<exists>r \<in> set [ex_round]. 0 + 5 \<le> mr_now r" by (simp add: ex_round_def)
  have fits: "0 + 5 < INSTANT_LIMIT" by (simp add: INSTANT_LIMIT_def)
  have ttl: "\<not> lo_ttl default_options < MIN_TTL"
    by (simp add: default_options_def MIN_TTL_def from_secs_def from_millis_def)
  show ?thesis
    using try_lock_all_answers [OF now fits, of default_options mem_exec ex_mgr "[''b'', ''b'']" mem_init]
      try_lock_all_answers [OF now fits, of default_options mem_exec ex_mgr "[''b'', ''a'']" mem_init] ttl by auto
qed

end
