(* ===== verification/Config.thy ===== *)
theory Config
  imports Single
begin

text \<open>
  Connection settings of the Redis backend (\<^verbatim>\<open>crates/redis/src/config.rs\<close>) and what
  \<^verbatim>\<open>RedisLockManager::connect\<close> makes of them. Opening a client and connecting is library code; its
  outcome is an argument. Text is a sequence of UTF-8 bytes.
\<close>

section \<open>Blank text\<close>

text \<open>\<^verbatim>\<open>s.trim().is_empty()\<close>: every character is Unicode white space.\<close>

fun blank_bytes :: "nat list \<Rightarrow> bool" where
  "blank_bytes [] = True"
| "blank_bytes (a # bs) =
     (if 9 \<le> a \<and> a \<le> 13 \<or> a = 32 then blank_bytes bs
      else case bs of
        b # cs \<Rightarrow>
          (if a = 0xC2 \<and> (b = 0x85 \<or> b = 0xA0) then blank_bytes cs
           else case cs of
             c # ds \<Rightarrow>
               (a = 0xE1 \<and> b = 0x9A \<and> c = 0x80 \<or>
                a = 0xE2 \<and> b = 0x80 \<and> (0x80 \<le> c \<and> c \<le> 0x8A \<or> c = 0xA8 \<or> c = 0xA9 \<or> c = 0xAF) \<or>
                a = 0xE2 \<and> b = 0x81 \<and> c = 0x9F \<or>
                a = 0xE3 \<and> b = 0x80 \<and> c = 0x80) \<and> blank_bytes ds
           | [] \<Rightarrow> False)
      | [] \<Rightarrow> False)"

definition trim_empty :: "string \<Rightarrow> bool" where
  "trim_empty s = blank_bytes (map of_char s)"

section \<open>Settings\<close>

record RedisConfig =
  rc_url :: string
  rc_default_ttl :: duration
  rc_watchdog :: bool
  rc_response_timeout :: duration

definition redis_config_new :: "string \<Rightarrow> RedisConfig" where
  "redis_config_new url = \<lparr>rc_url = url, rc_default_ttl = from_secs 30, rc_watchdog = False,
     rc_response_timeout = from_secs 5\<rparr>"

definition with_default_ttl :: "duration \<Rightarrow> RedisConfig \<Rightarrow> RedisConfig" where
  "with_default_ttl ttl c = c\<lparr>rc_default_ttl := ttl\<rparr>"

definition with_response_timeout :: "duration \<Rightarrow> RedisConfig \<Rightarrow> RedisConfig" where
  "with_response_timeout t c = c\<lparr>rc_response_timeout := t\<rparr>"

definition with_watchdog_default :: "bool \<Rightarrow> RedisConfig \<Rightarrow> RedisConfig" where
  "with_watchdog_default w c = c\<lparr>rc_watchdog := w\<rparr>"

definition redis_config_validate :: "RedisConfig \<Rightarrow> unit result" where
  "redis_config_validate c =
     (if trim_empty (rc_url c) then Inl (InvalidConfig ''redis url is empty'')
      else if rc_default_ttl c < MIN_TTL then Inl (InvalidConfig ''default ttl is below the floor'')
      else Inr ())"

text \<open>The outcome of the library's open and connect calls.\<close>

datatype connection = Connected | BadUrl | Unreachable

definition redis_connect :: "(string \<Rightarrow> duration \<Rightarrow> connection) \<Rightarrow> RedisConfig \<Rightarrow> RedisLockManager result" where
  "redis_connect open c =
     rbind (redis_config_validate c) (\<lambda>_.
     case open (rc_url c) (rc_response_timeout c) of
       BadUrl \<Rightarrow> Inl (InvalidConfig (''bad redis url `'' @ rc_url c))
     | Unreachable \<Rightarrow> Inl (Backend (''connect '' @ rc_url c))
     | Connected \<Rightarrow> Inr \<lparr>default_ttl = rc_default_ttl c, watchdog_default = rc_watchdog c\<rparr>)"

text \<open>A manager only ever carries a default lease that its own options check accepts.\<close>

lemma redis_connect_default_ok:
  assumes "redis_connect open c = Inr mgr"
  shows "validate (with_ttl_opt (default_ttl mgr) default_options) = Inr ()"
  using assms
  by (auto simp: redis_connect_def redis_config_validate_def validate_def with_ttl_opt_def
      split: if_splits connection.splits)

end
