(* ===== verification/Float64.thy ===== *)
theory Float64
  imports Prelude Complex_Main
begin

text \<open>
  Arithmetic on \<^verbatim>\<open>f64\<close>. The result of an operation is the real result rounded to the nearest number
  with 53 significant binary digits and an exponent of at least -1074, ties to the even
  significand. Magnitudes stay far below the overflow threshold in the code modelled here, so infinities and
  NaN do not occur. The locale \<open>rounding\<close> lists the facts that the users of this
  theory need; the rounding function satisfies them.
\<close>

section \<open>Rounding\<close>

definition rne :: "real \<Rightarrow> int" where
  "rne y = (let n = \<lfloor>y\<rfloor>; r = y - of_int n in
     if r < 1 / 2 then n else if 1 / 2 < r then n + 1 else if even n then n else n + 1)"

definition f64_exp :: "real \<Rightarrow> int" where
  "f64_exp x = max (\<lfloor>log 2 \<bar>x\<bar>\<rfloor> - 52) (- 1074)"

definition f64 :: "real \<Rightarrow> real" where
  "f64 x = (if x = 0 then 0 else of_int (rne (x / 2 powr f64_exp x)) * 2 powr f64_exp x)"

locale rounding =
  fixes fl :: "real \<Rightarrow> real"
  assumes fl_mono: "x \<le> y \<Longrightarrow> fl x \<le> fl y"
    and fl_int: "\<bar>n\<bar> \<le> 2 ^ 53 \<Longrightarrow> fl (of_int n) = of_int n"
    and fl_fl: "fl (fl x) = fl x"
    and fl_uminus: "fl (- x) = - fl x"
    and fl_rel: "(1 / 2) ^ 100 \<le> \<bar>x\<bar> \<Longrightarrow> \<bar>fl x - x\<bar> \<le> \<bar>x\<bar> * (1 / 2) ^ 53"
    and fl_gap: "fl x < 1 \<Longrightarrow> fl x \<le> 1 - (1 / 2) ^ 53"
    and fl_gap_above: "1 < fl x \<Longrightarrow> 1 + (1 / 2) ^ 52 \<le> fl x"
    and fl_half: "\<bar>x\<bar> \<le> 1 \<Longrightarrow> \<bar>fl x - x\<bar> \<le> (1 / 2) ^ 53"

lemma rne_bounds: "\<bar>of_int (rne y) - y\<bar> \<le> 1 / 2"
  unfolding rne_def Let_def using floor_correct [of y] by (auto simp: abs_le_iff)

lemma rne_int [simp]: "rne (of_int n) = n"
  by (simp add: rne_def)

lemma rne_mono: "x \<le> y \<Longrightarrow> rne x \<le> rne y"
proof (rule ccontr)
  assume le: "x \<le> y" and "\<not> rne x \<le> rne y"
  then have gt: "rne y + 1 \<le> rne x" by simp
  then have "of_int (rne y) + 1 \<le> (of_int (rne x) :: real)" by linarith
  then have eq: "x = y" using le rne_bounds [of x] rne_bounds [of y] by (auto simp: abs_le_iff)
  with gt show False by simp
qed

lemma rne_uminus: "rne (- y) = - rne y"
proof (cases "y = of_int \<lfloor>y\<rfloor>")
  case True
  then show ?thesis by (metis of_int_minus rne_int)
next
  case False
  then have f: "\<lfloor>- y\<rfloor> = - \<lfloor>y\<rfloor> - 1" by (smt (verit) ceiling_def ceiling_altdef floor_minus of_int_floor_le)
  show ?thesis unfolding rne_def Let_def f by auto
qed

lemma f64_exp_uminus [simp]: "f64_exp (- x) = f64_exp x"
  by (simp add: f64_exp_def)

lemma f64_uminus: "f64 (- x) = - f64 x"
  by (simp add: f64_def rne_uminus flip: minus_divide_left)

section \<open>Errors and exactness\<close>

lemma log_bounds: "x \<noteq> 0 \<Longrightarrow> 2 powr real_of_int \<lfloor>log 2 \<bar>x\<bar>\<rfloor> \<le> \<bar>x\<bar> \<and> \<bar>x\<bar> < 2 powr (real_of_int \<lfloor>log 2 \<bar>x\<bar>\<rfloor> + 1)"
  using floor_log_eq_powr_iff [of "\<bar>x\<bar>" 2 "\<lfloor>log 2 \<bar>x\<bar>\<rfloor>"] by auto

lemma f64_error: "\<bar>f64 x - x\<bar> \<le> 2 powr f64_exp x / 2"
proof (cases "x = 0")
  case False
  let ?u = "2 powr real_of_int (f64_exp x)"
  have "f64 x - x = (of_int (rne (x / ?u)) - x / ?u) * ?u" using False by (simp add: f64_def field_simps)
  then have "\<bar>f64 x - x\<bar> = \<bar>of_int (rne (x / ?u)) - x / ?u\<bar> * ?u" by (simp add: abs_mult)
  also have "\<dots> \<le> 1 / 2 * ?u" using rne_bounds by (intro mult_right_mono) auto
  finally show ?thesis by simp
qed (simp add: f64_def)

lemma powr_int_half: "2 powr (- real n) = (1 / 2) ^ n"
  by (simp add: powr_minus_divide powr_realpow power_one_over)

lemma f64_half: "\<bar>x\<bar> \<le> 1 \<Longrightarrow> \<bar>f64 x - x\<bar> \<le> (1 / 2) ^ 53"
proof (cases "x = 0")
  case False
  assume "\<bar>x\<bar> \<le> 1"
  then have "log 2 \<bar>x\<bar> \<le> 0" using False by simp
  then have "real_of_int (f64_exp x) \<le> - real 52" by (simp add: f64_exp_def) linarith
  then have "2 powr real_of_int (f64_exp x) \<le> (1 / 2) ^ 52"
    using powr_mono [of "real_of_int (f64_exp x)" "- real 52" 2] powr_int_half [of 52] by linarith
  then show ?thesis using f64_error [of x] by (simp add: power_Suc2 [of _ 52, simplified])
qed (simp add: f64_def)

lemma f64_rel: "(1 / 2) ^ 100 \<le> \<bar>x\<bar> \<Longrightarrow> \<bar>f64 x - x\<bar> \<le> \<bar>x\<bar> * (1 / 2) ^ 53"
proof -
  assume le: "(1 / 2) ^ 100 \<le> \<bar>x\<bar>"
  then have nz: "x \<noteq> 0" by (auto simp: power_one_over)
  have "2 powr (- real 100) \<le> \<bar>x\<bar>" unfolding powr_int_half using le .
  then have "- 100 \<le> log 2 \<bar>x\<bar>" using nz by (simp add: le_log_iff)
  then have e: "f64_exp x = \<lfloor>log 2 \<bar>x\<bar>\<rfloor> - 52" by (simp add: f64_exp_def) linarith
  have "2 powr real_of_int (f64_exp x) = 2 powr real_of_int \<lfloor>log 2 \<bar>x\<bar>\<rfloor> * (1 / 2) ^ 52"
    unfolding e using powr_add [of 2 "real_of_int \<lfloor>log 2 \<bar>x\<bar>\<rfloor>" "- real 52"] powr_int_half [of 52] by simp
  also have "\<dots> \<le> \<bar>x\<bar> * (1 / 2) ^ 52" using log_bounds [OF nz] by (intro mult_right_mono) auto
  finally show ?thesis using f64_error [of x] by (simp add: power_Suc2 [of _ 52, simplified])
qed

text \<open>A multiple of a power of two with at most 53 digits is its own rounding.\<close>

lemma f64_exact_small:
  assumes "\<bar>n\<bar> < 2 ^ 53" "- 1074 \<le> k"
  shows "f64 (of_int n * 2 powr of_int k) = of_int n * 2 powr of_int k"
proof (cases "n = 0")
  case False
  let ?x = "real_of_int n * 2 powr of_int k"
  have nz: "?x \<noteq> 0" using False by simp
  have "\<bar>?x\<bar> < 2 ^ 53 * 2 powr of_int k"
    using assms(1) by (simp add: abs_mult flip: of_int_abs)
  also have "\<dots> = 2 powr (of_int k + 53)" by (simp add: powr_add flip: powr_realpow)
  finally have "log 2 \<bar>?x\<bar> < of_int k + 53" using nz by (simp add: log_less_iff)
  then have le: "f64_exp ?x \<le> k" using assms(2) by (simp add: f64_exp_def) linarith
  then obtain m where m: "k = f64_exp ?x + int m" using zle_iff_zadd by blast
  have "?x / 2 powr of_int (f64_exp ?x) = of_int (n * 2 ^ m)"
    by (subst (1) m) (simp add: powr_add powr_realpow)
  then have "f64 ?x = ?x / 2 powr of_int (f64_exp ?x) * 2 powr of_int (f64_exp ?x)"
    using nz unfolding f64_def by (simp only: rne_int if_False)
  then show ?thesis by simp
qed (simp add: f64_def)

lemma f64_exact:
  assumes "\<bar>n\<bar> \<le> 2 ^ 53" "- 1074 \<le> k"
  shows "f64 (of_int n * 2 powr of_int k) = of_int n * 2 powr of_int k"
proof (cases "\<bar>n\<bar> = 2 ^ 53")
  case True
  then have "n = 2 ^ 52 * 2 \<or> n = - (2 ^ 52) * 2" by auto
  then obtain m :: int where m: "n = m * 2" "\<bar>m\<bar> < 2 ^ 53" by fastforce
  have "real_of_int n * 2 powr of_int k = of_int m * 2 powr of_int (k + 1)" by (simp add: m(1) powr_add)
  then show ?thesis using f64_exact_small [OF m(2), of "k + 1"] assms(2) by simp
qed (use assms f64_exact_small in auto)

lemma f64_int: "\<bar>n\<bar> \<le> 2 ^ 53 \<Longrightarrow> f64 (of_int n) = of_int n"
  using f64_exact [of n 0] by simp

section \<open>Order\<close>

lemma rne_digits: "x \<noteq> 0 \<Longrightarrow> \<bar>rne (x / 2 powr of_int (f64_exp x))\<bar> \<le> 2 ^ 53"
proof -
  assume nz: "x \<noteq> 0"
  let ?y = "x / 2 powr of_int (f64_exp x)"
  have "real_of_int \<lfloor>log 2 \<bar>x\<bar>\<rfloor> + 1 \<le> of_int (f64_exp x) + 53" by (simp add: f64_exp_def)
  then have "2 powr (real_of_int \<lfloor>log 2 \<bar>x\<bar>\<rfloor> + 1) \<le> (2 :: real) powr (of_int (f64_exp x) + 53)" by (intro powr_mono) auto
  then have "\<bar>x\<bar> \<le> 2 powr (of_int (f64_exp x) + 53)" using log_bounds [OF nz] by linarith
  then have "\<bar>?y\<bar> \<le> 2 ^ 53" by (simp add: powr_add field_simps)
  then have "?y \<le> 2 ^ 53" "- (2 ^ 53) \<le> ?y" by linarith+
  then have "rne ?y \<le> rne (of_int (2 ^ 53))" "rne (of_int (- (2 ^ 53))) \<le> rne ?y" by (auto intro!: rne_mono)
  then show ?thesis unfolding rne_int by simp
qed

lemma f64_pos_mono:
  assumes "0 < x" "x \<le> y"
  shows "f64 x \<le> f64 y"
proof -
  let ?ex = "f64_exp x" and ?ey = "f64_exp y"
  have "log 2 x \<le> log 2 y" using assms by simp
  then have le: "?ex \<le> ?ey" using assms floor_mono [of "log 2 x" "log 2 y"] by (simp add: f64_exp_def)
  show ?thesis
  proof (cases "?ex = ?ey")
    case True
    have "rne (x / 2 powr of_int ?ey) \<le> rne (y / 2 powr of_int ?ey)" using assms by (intro rne_mono divide_right_mono) auto
    then show ?thesis using assms True by (simp add: f64_def)
  next
    case False
    then have lt: "?ex + 1 \<le> ?ey" using le by simp
    then have ey: "of_int ?ey + 52 = real_of_int \<lfloor>log 2 \<bar>y\<bar>\<rfloor>" by (auto simp: f64_exp_def max_def split: if_splits)
    have "f64 x \<le> 2 ^ 53 * 2 powr of_int ?ex"
      using rne_digits [of x] assms by (simp add: f64_def)
    also have "\<dots> = 2 ^ 52 * 2 powr (of_int ?ex + 1)" by (simp add: powr_add)
    also have "\<dots> \<le> 2 ^ 52 * 2 powr of_int ?ey" using lt by simp
    also have "\<dots> \<le> f64 y"
    proof -
      have "2 powr (of_int ?ey + 52) \<le> y" unfolding ey using log_bounds [of y] assms by simp
      then have "of_int (2 ^ 52) \<le> y / 2 powr of_int ?ey" by (simp add: powr_add field_simps)
      from rne_mono [OF this] have "2 ^ 52 \<le> rne (y / 2 powr of_int ?ey)" unfolding rne_int .
      then have "(2 ^ 52 :: real) \<le> of_int (rne (y / 2 powr of_int ?ey))" by (metis of_int_le_iff of_int_numeral of_int_power)
      then show ?thesis using assms by (simp add: f64_def)
    qed
    finally show ?thesis .
  qed
qed

lemma f64_nonneg: "0 \<le> x \<Longrightarrow> 0 \<le> f64 x"
  using rne_mono [of "of_int 0" "x / 2 powr of_int (f64_exp x)"] unfolding rne_int by (simp add: f64_def)

lemma f64_mono: "x \<le> y \<Longrightarrow> f64 x \<le> f64 y"
proof -
  assume le: "x \<le> y"
  consider "0 < x" | "x \<le> 0" "0 \<le> y" | "y < 0" by linarith
  then show ?thesis
  proof cases
    case 1
    then show ?thesis using le f64_pos_mono by blast
  next
    case 2
    then show ?thesis using f64_nonneg [of y] f64_nonneg [of "- x"] by (simp add: f64_uminus)
  next
    case 3
    then show ?thesis using f64_pos_mono [of "- y" "- x"] le by (simp add: f64_uminus)
  qed
qed

lemma f64_f64: "f64 (f64 x) = f64 x"
proof (cases "x = 0")
  case False
  then show ?thesis
    using f64_exact [OF rne_digits, of x "f64_exp x"] by (simp add: f64_def [of x] f64_exp_def)
qed (simp add: f64_def)

text \<open>A rounded number is a multiple of its unit in the last place.\<close>

lemma f64_grid:
  assumes "f64 x \<noteq> 0" "f64_exp (f64 x) = - int k"
  obtains n where "f64 x = of_int n * (1 / 2) ^ k"
proof
  have "2 powr real_of_int (- int k) = (1 / 2 :: real) ^ k" using powr_int_half [of k] by simp
  then show "f64 x = of_int (rne (f64 x / (1 / 2) ^ k)) * (1 / 2) ^ k"
    using f64_f64 [of x] assms f64_def [of "f64 x"] by simp
qed

lemma f64_gap: "f64 x < 1 \<Longrightarrow> f64 x \<le> 1 - (1 / 2) ^ 53"
proof (cases "f64 x < 1 / 2")
  case False
  assume lt: "f64 x < 1"
  have "\<lfloor>log 2 (f64 x)\<rfloor> = - 1" using False lt floor_log_eq_powr_iff [of "f64 x" 2 "- 1"] by (simp add: powr_minus_divide)
  then obtain n where n: "f64 x = of_int n * (1 / 2) ^ 53" using f64_grid [of x 53] False by (auto simp: f64_exp_def)
  with lt have "of_int n < (2 ^ 53 :: real)" by (simp add: field_simps power_one_over)
  then have "n \<le> 2 ^ 53 - 1" by (metis of_int_less_iff of_int_numeral of_int_power zle_diff1_eq)
  then have "real_of_int n \<le> of_int (2 ^ 53 - 1)" by (simp only: of_int_le_iff)
  then show ?thesis unfolding n by (simp add: field_simps power_one_over)
next
  case True
  moreover have "(1 / 2 :: real) ^ 53 \<le> (1 / 2) ^ 1" by (intro power_decreasing) auto
  ultimately show ?thesis by simp
qed

lemma f64_gap_above: "1 < f64 x \<Longrightarrow> 1 + (1 / 2) ^ 52 \<le> f64 x"
proof (cases "f64 x < 2")
  case True
  assume gt: "1 < f64 x"
  then have "\<lfloor>log 2 (f64 x)\<rfloor> = 0" using True floor_log_eq_powr_iff [of "f64 x" 2 0] by simp
  then obtain n where n: "f64 x = of_int n * (1 / 2) ^ 52" using f64_grid [of x 52] gt by (auto simp: f64_exp_def)
  with gt have "(2 ^ 52 :: real) < of_int n" by (simp add: field_simps power_one_over)
  then have "2 ^ 52 + 1 \<le> n" by (metis of_int_less_iff of_int_numeral of_int_power zless_iff_Suc_zadd add1_zle_eq)
  then have "of_int (2 ^ 52 + 1) \<le> real_of_int n" by (simp only: of_int_le_iff)
  then show ?thesis unfolding n by (simp add: field_simps power_one_over)
next
  case False
  moreover have "(1 / 2 :: real) ^ 52 \<le> (1 / 2) ^ 0" by (intro power_decreasing) auto
  ultimately show ?thesis by simp
qed

section \<open>Consequences\<close>

context rounding
begin

lemma fl_0: "fl 0 = 0" and fl_1: "fl 1 = 1"
  using fl_int [of 0] fl_int [of 1] by simp_all

lemma fl_le_int: "x \<le> of_int n \<Longrightarrow> \<bar>n\<bar> \<le> 2 ^ 53 \<Longrightarrow> fl x \<le> of_int n"
  using fl_mono [of x "of_int n"] fl_int [of n] by simp

lemma fl_nonneg: "0 \<le> x \<Longrightarrow> 0 \<le> fl x"
  using fl_mono [of 0 x] fl_0 by simp

lemma eps_small: "(1 / 2 :: real) ^ 53 \<le> 1 / 1000000"
  by (simp add: power_one_over)

lemma fl_near: "\<bar>x\<bar> \<le> 1 \<Longrightarrow> \<bar>fl x - x\<bar> \<le> 1 / 1000000"
  using fl_half eps_small by (meson order_trans)

lemma fl_above:
  assumes "(1 / 2) ^ 54 \<le> y"
  shows "fl y \<le> y * (1000001 / 1000000)"
proof -
  have "(1 / 2 :: real) ^ 100 \<le> (1 / 2) ^ 54" by (intro power_decreasing) auto
  moreover have nn: "0 \<le> y" using assms zero_le_power [of "1 / 2 :: real" 54] by linarith
  ultimately have "\<bar>fl y - y\<bar> \<le> \<bar>y\<bar> * (1 / 2) ^ 53" using assms by (intro fl_rel) linarith
  then have "fl y - y \<le> y * (1 / 2) ^ 53" using nn by (simp add: abs_le_iff)
  with mult_left_mono [OF eps_small nn] show ?thesis by linarith
qed

end

text \<open>
  A weighted average \<open>x + alpha * (t - x)\<close> with a rounded gain between zero and one.
\<close>

locale averaging = rounding +
  fixes alpha :: real
  assumes alpha_pos: "0 \<le> alpha"
    and alpha_le: "alpha \<le> 1"
begin

definition avg :: "real \<Rightarrow> real \<Rightarrow> real" where
  "avg x t = fl (x + fl (alpha * fl (t - x)))"

lemma avg_fl: "fl (avg x t) = avg x t"
  by (simp add: avg_def fl_fl)

lemma avg_mono: "s \<le> t \<Longrightarrow> avg x s \<le> avg x t"
  unfolding avg_def using alpha_pos by (intro fl_mono add_mono mult_left_mono order_refl) (auto intro: fl_mono)

lemma avg_zero: "fl x = x \<Longrightarrow> avg x 0 = fl (x - fl (alpha * x))"
  by (simp add: avg_def fl_uminus)

lemma avg_nonneg:
  assumes "fl x = x" "0 \<le> x" "0 \<le> t"
  shows "0 \<le> avg x t"
proof -
  have "fl (alpha * x) \<le> fl x" using alpha_le assms by (intro fl_mono mult_left_le_one_le alpha_pos) auto
  then have "0 \<le> avg x 0" using assms by (simp add: avg_zero fl_nonneg)
  also have "\<dots> \<le> avg x t" using assms(3) by (rule avg_mono)
  finally show ?thesis .
qed

lemma avg_ge_one:
  assumes "fl x = x" "1 \<le> x" "1 \<le> t" "alpha \<le> 1 / 2"
  shows "1 \<le> avg x t"
proof -
  have "fl (alpha * fl (x - 1)) \<le> x - 1"
  proof (cases "x = 1")
    case True
    then show ?thesis by (simp add: fl_0)
  next
    case False
    then have "(1 / 2) ^ 52 \<le> x - 1" using fl_gap_above [of x] assms by simp
    moreover have "(1 / 2 :: real) ^ 54 = (1 / 2) ^ 52 / 4" by (simp add: power_one_over)
    ultimately have gap: "(1 / 2) ^ 54 \<le> x - 1" "(1 / 2) ^ 54 \<le> (x - 1) * (6 / 10)" using assms by simp_all
    have "alpha * fl (x - 1) \<le> 1 / 2 * ((x - 1) * (1000001 / 1000000))"
      using fl_above [OF gap(1)] assms alpha_pos by (intro mult_mono) (auto intro: fl_nonneg)
    then have "fl (alpha * fl (x - 1)) \<le> fl ((x - 1) * (6 / 10))" using assms by (intro fl_mono) simp
    also have "\<dots> \<le> (x - 1) * (6 / 10) * (1000001 / 1000000)" using gap(2) by (rule fl_above)
    finally show ?thesis using assms by simp
  qed
  then have "1 \<le> x + fl (alpha * fl (1 - x))" using fl_uminus [of "x - 1"] fl_uminus [of "alpha * fl (x - 1)"] by simp
  then have "1 \<le> avg x 1" using fl_mono [of 1 "x + fl (alpha * fl (1 - x))"] fl_1 by (simp add: avg_def)
  then show ?thesis using avg_mono [OF assms(3), of x] by linarith
qed

end

interpretation f64: rounding f64
  by unfold_locales (fact f64_mono f64_int f64_f64 f64_uminus f64_rel f64_gap f64_gap_above f64_half)+

section \<open>Relative errors\<close>

text \<open>Closeness up to a relative error, and how the error grows.\<close>

definition close_to :: "real \<Rightarrow> real \<Rightarrow> real \<Rightarrow> bool" where
  "close_to e y x \<longleftrightarrow> y * (1 - e) \<le> x \<and> x \<le> y * (1 + e)"

lemma close_self: "0 \<le> y \<Longrightarrow> 0 \<le> e \<Longrightarrow> close_to e y y"
  by (simp add: close_to_def mult_left_le mult_le_cancel_left1)

lemma close_mono: "close_to e y x \<Longrightarrow> 0 \<le> y \<Longrightarrow> e \<le> e' \<Longrightarrow> close_to e' y x"
  unfolding close_to_def by (meson add_left_mono diff_left_mono mult_left_mono order_trans)

lemma close_add: "close_to e y x \<Longrightarrow> close_to e y' x' \<Longrightarrow> close_to e (y + y') (x + x')"
  unfolding close_to_def distrib_right by linarith

lemma close_mult:
  assumes "close_to a y x" "close_to b y' x'" "0 \<le> y" "0 \<le> y'" "0 \<le> a" "a \<le> 1" "0 \<le> b" "b \<le> 1"
  shows "close_to (a + b + a * b) (y * y') (x * x')"
proof -
  have n: "0 \<le> y * (1 - a)" "0 \<le> y' * (1 - b)" using assms by simp_all
  then have p: "0 \<le> x" "0 \<le> x'" using assms(1,2) unfolding close_to_def by linarith+
  have "x * x' \<le> (y * (1 + a)) * (y' * (1 + b))"
    by (rule mult_mono) (use assms p in \<open>simp_all add: close_to_def\<close>)
  also have "\<dots> = y * y' * (1 + (a + b + a * b))" by (simp add: algebra_simps)
  finally have up: "x * x' \<le> y * y' * (1 + (a + b + a * b))" .
  have "y * y' * (1 - (a + b + a * b)) \<le> y * y' * ((1 - a) * (1 - b))"
    by (rule mult_left_mono) (use assms in \<open>simp_all add: algebra_simps\<close>)
  also have "\<dots> = (y * (1 - a)) * (y' * (1 - b))" by simp
  also have "\<dots> \<le> x * x'" by (rule mult_mono) (use assms n p in \<open>simp_all add: close_to_def\<close>)
  finally show ?thesis using up by (simp add: close_to_def)
qed

lemma close_f64:
  assumes "close_to e y x" "y = 0 \<or> (1 / 2) ^ 90 \<le> y" "0 \<le> e" "e \<le> 1 / 2"
  shows "close_to (e + (1 + e) * (1 / 2) ^ 53) y (f64 x)"
proof (cases "y = 0")
  case True
  with assms(1) have "x = 0" by (simp add: close_to_def)
  with True show ?thesis by (simp add: close_to_def f64_def)
next
  case False
  let ?u = "(1 / 2 :: real) ^ 53"
  have y: "(1 / 2) ^ 90 \<le> y" using assms(2) False by blast
  then have y0: "0 \<le> y" by (rule order_trans [rotated]) simp
  have "(1 / 2) ^ 90 * (1 / 2) \<le> y * (1 - e)" by (rule mult_mono) (use y y0 assms(4) in \<open>simp_all\<close>)
  with assms(1) have x: "(1 / 2) ^ 100 \<le> x" by (simp add: close_to_def power_one_over)
  then have pos: "0 \<le> x" by (rule order_trans [rotated]) simp
  with f64_rel [of x] x have "\<bar>f64 x - x\<bar> \<le> x * ?u" by simp
  then have "close_to ?u x (f64 x)" by (auto simp: close_to_def algebra_simps abs_le_iff)
  moreover have "x * (1 + ?u) \<le> y * (1 + e) * (1 + ?u)" using assms(1) by (intro mult_right_mono) (simp_all add: close_to_def)
  moreover have "y * (1 - e) * (1 - ?u) \<le> x * (1 - ?u)" using assms(1) by (intro mult_right_mono) (simp_all add: close_to_def power_le_one)
  moreover have "y * (1 - (e + (1 + e) * ?u)) \<le> y * (1 - e) * (1 - ?u)"
    using y assms(3) mult_left_mono [of "1 - (e + (1 + e) * ?u)" "(1 - e) * (1 - ?u)" y] y0
    by (simp add: algebra_simps)
  moreover have "y * (1 + e) * (1 + ?u) = y * (1 + (e + (1 + e) * ?u))" by (simp add: algebra_simps)
  ultimately show ?thesis unfolding close_to_def by linarith
qed

section \<open>Durations in seconds\<close>

text \<open>\<^verbatim>\<open>Duration::as_secs_f64\<close>: the whole seconds plus the nanoseconds over a billion.\<close>

definition as_secs_f64 :: "duration \<Rightarrow> real" where
  "as_secs_f64 d = f64 (f64 (real (d div 1000000000)) + f64 (f64 (real (d mod 1000000000)) / f64 1000000000))"

lemma close_as_secs_f64: "close_to (3 * (1 / 2) ^ 53) (real d / 1000000000) (as_secs_f64 d)"
proof -
  let ?s = "real (d div 1000000000)" and ?n = "real (d mod 1000000000)" and ?u = "(1 / 2 :: real) ^ 53"
  have exact: "f64 ?n = ?n" "f64 1000000000 = 1000000000"
    using f64_int [of "int (d mod 1000000000)"] f64_int [of 1000000000] by simp_all
  have d: "real d / 1000000000 = ?s + ?n / 1000000000"
  proof -
    have "real d = real (d div 1000000000 * 1000000000 + d mod 1000000000)" by (simp only: div_mult_mod_eq)
    then show ?thesis unfolding of_nat_add of_nat_mult by simp
  qed
  have "?s = 0 \<or> (1 / 2) ^ 90 \<le> ?s"
    by (cases "d div 1000000000 = 0") (auto intro: order_trans [of _ "1 :: real"] simp: power_le_one simp del: div_eq_0_iff)
  from close_f64 [OF close_self [of _ 0] this] have s: "close_to ?u ?s (f64 ?s)" by simp
  have "?n / 1000000000 = 0 \<or> (1 / 2) ^ 90 \<le> ?n / 1000000000"
  proof (cases "d mod 1000000000 = 0")
    case False
    then have "1 / 1000000000 \<le> ?n / 1000000000" by (intro divide_right_mono) auto
    then show ?thesis by (auto intro: order_trans [rotated] simp: power_one_over)
  qed simp
  from close_f64 [OF close_self [of _ 0] this] have n: "close_to ?u (?n / 1000000000) (f64 (?n / 1000000000))" by simp
  have "real d / 1000000000 = 0 \<or> (1 / 2) ^ 90 \<le> real d / 1000000000"
  proof (cases "d = 0")
    case False
    then have "1 / 1000000000 \<le> real d / 1000000000" by (intro divide_right_mono) auto
    then show ?thesis by (auto intro: order_trans [rotated] simp: power_one_over)
  qed simp
  from close_f64 [OF close_add [OF s n, folded d] this]
  have "close_to (?u + (1 + ?u) * ?u) (real d / 1000000000) (as_secs_f64 d)" by (simp add: as_secs_f64_def exact power_one_over)
  then show ?thesis by (rule close_mono) (simp_all add: power_one_over)
qed

lemma close_as_secs_f64_scaled:
  assumes "0 < d"
  shows "close_to (6 * (1 / 2) ^ 53) (real d / 1000000000 * (9 / 10)) (f64 (as_secs_f64 d * f64 (9 / 10)))"
proof -
  let ?x = "real d / 1000000000" and ?u = "(1 / 2 :: real) ^ 53"
  have "close_to ?u (9 / 10) (f64 (9 / 10))"
    using close_f64 [OF close_self [of "9 / 10" 0]] by (simp add: power_one_over)
  from close_mult [OF close_as_secs_f64 [of d] this]
  have "close_to (3 * ?u + ?u + 3 * ?u * ?u) (?x * (9 / 10)) (as_secs_f64 d * f64 (9 / 10))" by (simp add: power_one_over)
  then have m: "close_to (9 / 2 * ?u) (?x * (9 / 10)) (as_secs_f64 d * f64 (9 / 10))"
    by (rule close_mono) (simp_all add: power_one_over)
  have "1 / 1000000000 * (9 / 10) \<le> ?x * (9 / 10)" using assms by simp
  then have "(1 / 2) ^ 90 \<le> ?x * (9 / 10)" by (rule order_trans [rotated]) (simp add: power_one_over)
  from close_f64 [OF m disjI2 [OF this]]
  have "close_to (9 / 2 * ?u + (1 + 9 / 2 * ?u) * ?u) (?x * (9 / 10)) (f64 (as_secs_f64 d * f64 (9 / 10)))" by (simp add: power_one_over)
  then show ?thesis by (rule close_mono) (simp_all add: power_one_over)
qed

end
