(* ===== verification/Redlock.thy ===== *)
theory Redlock
  imports Config Float64
begin

text \<open>
  Quorum locking over independent masters (\<^verbatim>\<open>crates/redis/src/redlock.rs\<close>).

  The ring is the list of its nodes' server states. A round visits the nodes in order; its
  environment (\<open>rround\<close>) says for each call how it is delivered or whether its time slice
  ran out, and what other clients and time do to the whole ring before it. The elapsed time is
  compared with nine tenths of the lease in \<^verbatim>\<open>f64\<close> seconds, as the code does it.
\<close>

section \<open>Configuration\<close>

record RedlockConfig =
  rl_nodes :: "string list"

definition redlock_config_new :: "string list \<Rightarrow> RedlockConfig" where
  "redlock_config_new nodes = \<lparr>rl_nodes = nodes\<rparr>"

definition node_count :: "RedlockConfig \<Rightarrow> nat" where
  "node_count c = length (rl_nodes c)"

definition redlock_validate :: "RedlockConfig \<Rightarrow> unit result" where
  "redlock_validate c =
     (if length (rl_nodes c) < 3
      then Inl (InvalidConfig (''redlock needs at least 3 independent masters, got '' @ show_nat (length (rl_nodes c))))
      else if \<exists>u \<in> set (rl_nodes c). trim_empty u then Inl (InvalidConfig ''empty redlock node url'')
      else Inr ())"

record RedlockManager =
  rm_nodes :: nat
  rm_quorum :: nat
  rm_default_ttl :: duration

fun open_nodes :: "(string \<Rightarrow> connection) \<Rightarrow> string list \<Rightarrow> unit result" where
  "open_nodes client_open [] = Inr ()"
| "open_nodes client_open (u # us) = (case client_open u of
      BadUrl \<Rightarrow> Inl (InvalidConfig (''bad redlock url `'' @ u))
    | Unreachable \<Rightarrow> Inl (Backend (''redlock connect '' @ u))
    | Connected \<Rightarrow> open_nodes client_open us)"

definition redlock_connect :: "(string \<Rightarrow> connection) \<Rightarrow> RedlockConfig \<Rightarrow> RedlockManager result" where
  "redlock_connect client_open c =
     rbind (redlock_validate c) (\<lambda>_.
     rbind (open_nodes client_open (rl_nodes c)) (\<lambda>_.
     Inr \<lparr>rm_nodes = length (rl_nodes c), rm_quorum = length (rl_nodes c) div 2 + 1,
          rm_default_ttl = from_secs 30\<rparr>))"

section \<open>Rounds\<close>

datatype node_call = Answered delivery | SliceElapsed bool

record 's rround =
  rr_token :: string
  rr_call :: "nat \<Rightarrow> node_call"
  rr_before :: "nat \<Rightarrow> 's list \<Rightarrow> 's list"
  rr_elapsed :: duration
  rr_fence :: delivery
  rr_before_fence :: "'s list \<Rightarrow> 's list"
  rr_release :: "nat \<Rightarrow> delivery"
  rr_before_release :: "nat \<Rightarrow> 's list \<Rightarrow> 's list"
  rr_now :: nat

text \<open>The grant script on one node. \<open>SliceElapsed took\<close>: the caller gave up waiting; the
  script may still have run.\<close>

definition node_acquire :: "'s server \<Rightarrow> string \<Rightarrow> string \<Rightarrow> duration \<Rightarrow> ('s, int \<times> int) lua" where
  "node_acquire exec key token ttl =
     acquire_lua exec [key, fence_key_for key] [token, ttl_arg ttl, fence_ttl_arg ttl]"

fun lock_nodes ::
  "'s server \<Rightarrow> 's rround \<Rightarrow> string \<Rightarrow> duration \<Rightarrow> nat list \<Rightarrow> nat list \<Rightarrow> 's list \<Rightarrow> nat list result \<times> 's list" where
  "lock_nodes exec r key ttl [] acquired ss = (Inr acquired, ss)"
| "lock_nodes exec r key ttl (i # is) acquired ss =
     (let us = rr_before r i ss; P = node_acquire exec key (rr_token r) ttl in
      case rr_call r i of
        SliceElapsed took \<Rightarrow>
          lock_nodes exec r key ttl is acquired (if took then us[i := snd (P (us ! i))] else us)
      | Answered d \<Rightarrow>
          (case invoke d (''redlock node '' @ show_nat i) P (us ! i) of
             (Inl e, t) \<Rightarrow> (Inl e, us[i := t])
           | (Inr (status, _), t) \<Rightarrow>
               lock_nodes exec r key ttl is
                 (if status = 1 \<or> status = 2 then acquired @ [i] else acquired) (us[i := t])))"

definition allocate_fence :: "'s server \<Rightarrow> delivery \<Rightarrow> 's list \<Rightarrow> FencingToken result \<times> 's list" where
  "allocate_fence exec d ss =
     (case query exec d ''fence allocation failed'' (INCR ''__palisade__:fence-allocator'') (ss ! 0) of
        (Inl e, t) \<Rightarrow> (Inl e, ss[0 := t])
      | (Inr v, t) \<Rightarrow> (Inr (FencingToken (of_int (rint v))), ss[0 := t]))"

definition release_node ::
  "'s server \<Rightarrow> delivery \<Rightarrow> nat \<Rightarrow> string \<Rightarrow> string \<Rightarrow> 's list \<Rightarrow> int option \<times> 's list" where
  "release_node exec d i key token ss =
     (case invoke d ''release'' (release_lua exec [key, fence_key_for key] [token]) (ss ! i) of
        (Inl _, t) \<Rightarrow> (None, ss[i := t])
      | (Inr n, t) \<Rightarrow> (Some n, ss[i := t]))"

text \<open>Visits nodes in order and collects the answers.\<close>

fun release_nodes ::
  "'s server \<Rightarrow> 's rround \<Rightarrow> string \<Rightarrow> string \<Rightarrow> nat list \<Rightarrow> 's list \<Rightarrow> int option list \<times> 's list" where
  "release_nodes exec r key token [] ss = ([], ss)"
| "release_nodes exec r key token (i # is) ss =
     (case release_node exec (rr_release r i) i key token (rr_before_release r i ss) of
        (a, us) \<Rightarrow> (case release_nodes exec r key token is us of (as, vs) \<Rightarrow> (a # as, vs)))"

definition MAX_ROUND_FRACTION :: real where
  "MAX_ROUND_FRACTION = f64 (9 / 10)"

definition round_in_budget :: "duration \<Rightarrow> duration \<Rightarrow> bool" where
  "round_in_budget elapsed ttl \<longleftrightarrow> as_secs_f64 elapsed < f64 (as_secs_f64 ttl * MAX_ROUND_FRACTION)"

record RedlockShared =
  rs_key :: string
  rs_token :: string
  rs_fence :: FencingToken
  rs_ttl :: duration
  rs_gone :: bool
  rs_poisoned :: bool
  rs_lost :: bool

definition make_handle :: "string \<Rightarrow> string \<Rightarrow> FencingToken \<Rightarrow> duration \<Rightarrow> RedlockShared" where
  "make_handle key token fence ttl =
     \<lparr>rs_key = key, rs_token = token, rs_fence = fence, rs_ttl = ttl, rs_gone = False,
      rs_poisoned = False, rs_lost = False\<rparr>"

definition redlock_try_lock ::
  "'s server \<Rightarrow> RedlockManager \<Rightarrow> string \<Rightarrow> LockOptions \<Rightarrow> 's rround \<Rightarrow> 's list \<Rightarrow> RedlockShared result \<times> 's list" where
  "redlock_try_lock exec mgr key options r ss =
     (case validate options of
        Inl e \<Rightarrow> (Inl e, ss)
      | Inr _ \<Rightarrow>
          (case lock_nodes exec r key (lo_ttl options) [0..<rm_nodes mgr] [] ss of
             (Inl e, us) \<Rightarrow> (Inl e, us)
           | (Inr acquired, us) \<Rightarrow>
               if rm_quorum mgr \<le> length acquired \<and> round_in_budget (rr_elapsed r) (lo_ttl options) then
                 (case allocate_fence exec (rr_fence r) (rr_before_fence r us) of
                    (Inl e, vs) \<Rightarrow> (Inl e, vs)
                  | (Inr fence, vs) \<Rightarrow> (Inr (make_handle key (rr_token r) fence (lo_ttl options)), vs))
               else (Inl (Held key), snd (release_nodes exec r key (rr_token r) acquired us))))"

definition redlock_try_lock_for ::
  "'s server \<Rightarrow> RedlockManager \<Rightarrow> nat \<Rightarrow> string \<Rightarrow> LockOptions \<Rightarrow> duration \<Rightarrow> 's rround list \<Rightarrow> 's list \<Rightarrow>
   panic + (RedlockShared result \<times> 's list) option" where
  "redlock_try_lock_for exec mgr now key options = poll_for (redlock_try_lock exec mgr key options) rr_now key now"

definition try_lock_default ::
  "'s server \<Rightarrow> RedlockManager \<Rightarrow> string \<Rightarrow> 's rround \<Rightarrow> 's list \<Rightarrow> RedlockShared result \<times> 's list" where
  "try_lock_default exec mgr key =
     redlock_try_lock exec mgr key (with_ttl_opt (rm_default_ttl mgr) default_options)"

section \<open>Handles\<close>

definition rs_mark_gone :: "RedlockShared \<Rightarrow> bool \<times> RedlockShared" where
  "rs_mark_gone h = (\<not> rs_gone h, h\<lparr>rs_gone := True\<rparr>)"

definition rs_mark_lost :: "RedlockShared \<Rightarrow> RedlockShared" where
  "rs_mark_lost h = h\<lparr>rs_poisoned := True, rs_lost := True\<rparr>"

definition rs_lost_error :: "RedlockShared \<Rightarrow> error" where
  "rs_lost_error h = Lost (rs_key h) (fence_value (rs_fence h))"

text \<open>One extension round: what each node answered, \<open>None\<close> for an error.\<close>

fun extend_nodes ::
  "'s server \<Rightarrow> 's rround \<Rightarrow> RedlockShared \<Rightarrow> duration \<Rightarrow> nat list \<Rightarrow> 's list \<Rightarrow> int option list \<times> 's list" where
  "extend_nodes exec r h ttl [] ss = ([], ss)"
| "extend_nodes exec r h ttl (i # is) ss =
     (let us = rr_before r i ss in
      case invoke (rr_release r i) ''extend'' (extend_lua exec [rs_key h, fence_key_for (rs_key h)]
          [rs_token h, ttl_arg ttl, fence_ttl_arg ttl]) (us ! i) of
        (a, t) \<Rightarrow>
          (case extend_nodes exec r h ttl is (us[i := t]) of
             (as, vs) \<Rightarrow> ((case a of Inl _ \<Rightarrow> None | Inr n \<Rightarrow> Some n) # as, vs)))"

definition extend_verdict :: "RedlockManager \<Rightarrow> int option list \<Rightarrow> bool result" where
  "extend_verdict mgr as =
     (if rm_quorum mgr \<le> length (filter (\<lambda>a. a = Some 1) as) then Inr True
      else if \<exists>a \<in> set as. a \<noteq> None \<and> a \<noteq> Some 1 then Inr False
      else Inl (Backend ''extend round failed on all nodes''))"

definition redlock_fire_extend ::
  "'s server \<Rightarrow> RedlockManager \<Rightarrow> 's rround \<Rightarrow> RedlockShared \<Rightarrow> duration \<Rightarrow> 's list \<Rightarrow> bool result \<times> 's list" where
  "redlock_fire_extend exec mgr r h ttl ss =
     (case extend_nodes exec r h ttl [0..<rm_nodes mgr] ss of (as, us) \<Rightarrow> (extend_verdict mgr as, us))"

definition release_verdict :: "RedlockShared \<Rightarrow> int option list \<Rightarrow> unit result" where
  "release_verdict h as =
     (if Some 1 \<in> set as then Inr ()
      else if Some 0 \<in> set as then Inl (rs_lost_error h)
      else Inl (Backend ''release failed on all nodes''))"

definition redlock_run_release ::
  "'s server \<Rightarrow> RedlockManager \<Rightarrow> 's rround \<Rightarrow> RedlockShared \<Rightarrow> 's list \<Rightarrow> unit result \<times> 's list" where
  "redlock_run_release exec mgr r h ss =
     (case release_nodes exec r (rs_key h) (rs_token h) [0..<rm_nodes mgr] ss of
        (as, us) \<Rightarrow> (release_verdict h as, us))"

definition redlock_release ::
  "'s server \<Rightarrow> RedlockManager \<Rightarrow> 's rround \<Rightarrow> RedlockShared \<Rightarrow> 's list \<Rightarrow> unit result \<times> RedlockShared \<times> 's list" where
  "redlock_release exec mgr r h ss =
     (case rs_mark_gone h of
        (False, h') \<Rightarrow> (Inr (), h', ss)
      | (True, h') \<Rightarrow> (case redlock_run_release exec mgr r h' ss of (a, us) \<Rightarrow> (a, h', us)))"

definition redlock_drop :: "'s server \<Rightarrow> RedlockManager \<Rightarrow> bool \<Rightarrow> 's rround \<Rightarrow> RedlockShared \<Rightarrow> 's list \<Rightarrow> 's list" where
  "redlock_drop exec mgr runtime r h ss =
     (case rs_mark_gone h of
        (False, _) \<Rightarrow> ss
      | (True, h') \<Rightarrow> if runtime then snd (redlock_run_release exec mgr r (h'\<lparr>rs_lost := True\<rparr>) ss) else ss)"

definition redlock_extend ::
  "'s server \<Rightarrow> RedlockManager \<Rightarrow> 's rround \<Rightarrow> duration \<Rightarrow> RedlockShared \<Rightarrow> 's list \<Rightarrow> unit result \<times> RedlockShared \<times> 's list" where
  "redlock_extend exec mgr r ttl h ss =
     (if ttl < MIN_TTL then (Inl (InvalidConfig ''extend ttl is below the floor''), h, ss)
      else if rs_gone h then (Inl (rs_lost_error h), h, ss)
      else case redlock_fire_extend exec mgr r h ttl ss of
        (Inr True, us) \<Rightarrow> (Inr (), h, us)
      | (Inr False, us) \<Rightarrow> (Inl (rs_lost_error h), rs_mark_lost h, us)
      | (Inl e, us) \<Rightarrow> (Inl e, h, us))"

definition RENEWAL_DIVISOR :: nat where
  "RENEWAL_DIVISOR = 3"

definition MAX_CONSECUTIVE_RENEW_FAILURES :: u32 where
  "MAX_CONSECUTIVE_RENEW_FAILURES = 2"

definition redlock_watchdog_tick ::
  "'s server \<Rightarrow> RedlockManager \<Rightarrow> bool \<Rightarrow> 's rround \<Rightarrow> watchdog \<Rightarrow> RedlockShared \<Rightarrow> 's list \<Rightarrow> watchdog \<times> RedlockShared \<times> 's list" where
  "redlock_watchdog_tick exec mgr alive r w h ss =
     (if \<not> wd_running w then (w, h, ss)
      else if \<not> alive \<or> rs_gone h then (w\<lparr>wd_running := False\<rparr>, h, ss)
      else case redlock_fire_extend exec mgr r h (rs_ttl h) ss of
        (Inr True, us) \<Rightarrow> (w\<lparr>wd_failures := 0\<rparr>, h, us)
      | (Inr False, us) \<Rightarrow> (w\<lparr>wd_running := False\<rparr>, rs_mark_lost h, us)
      | (Inl _, us) \<Rightarrow>
          (let n = wd_failures w + 1 in
           if MAX_CONSECUTIVE_RENEW_FAILURES \<le> n
           then (w\<lparr>wd_failures := n, wd_running := False\<rparr>, rs_mark_lost h, us)
           else (w\<lparr>wd_failures := n\<rparr>, h, us)))"

section \<open>The time budget\<close>

text \<open>The check on rounded numbers is, up to a thousandth, the one on exact numbers.\<close>

lemma round_in_budget_sound:
  assumes "round_in_budget e ttl" "0 < ttl"
  shows "1000 * e < 901 * ttl"
proof -
  let ?E = "real e / 1000000000" and ?X = "real ttl / 1000000000" and ?u = "(1 / 2 :: real) ^ 53"
  have "?E * (1 - 3 * ?u) < ?X * (9 / 10) * (1 + 6 * ?u)"
    using assms(1) close_as_secs_f64 [of e] close_as_secs_f64_scaled [OF assms(2)]
    unfolding close_to_def round_in_budget_def MAX_ROUND_FRACTION_def by linarith
  then have "real e * (1 - 3 * ?u) < real ttl * (9 / 10 * (1 + 6 * ?u))" by (simp add: field_simps)
  moreover have "real e * (9999 / 10000) \<le> real e * (1 - 3 * ?u)" by (rule mult_left_mono) (simp_all add: power_one_over)
  moreover have "real ttl * (9 / 10 * (1 + 6 * ?u)) \<le> real ttl * (9001 / 10000)" by (rule mult_left_mono) (simp_all add: power_one_over)
  ultimately show ?thesis using assms(2) by linarith
qed

lemma round_in_budget_complete:
  assumes "1000 * e \<le> 899 * ttl" "0 < ttl"
  shows "round_in_budget e ttl"
proof -
  let ?E = "real e / 1000000000" and ?X = "real ttl / 1000000000" and ?u = "(1 / 2 :: real) ^ 53"
  have "real e * (1 + 3 * ?u) \<le> real e * (10001 / 10000)" by (rule mult_left_mono) (simp_all add: power_one_over)
  moreover have "real ttl * (8999 / 10000) \<le> real ttl * (9 / 10 * (1 - 6 * ?u))" by (rule mult_left_mono) (simp_all add: power_one_over)
  ultimately have "real e * (1 + 3 * ?u) < real ttl * (9 / 10 * (1 - 6 * ?u))" using assms by linarith
  then have "?E * (1 + 3 * ?u) < ?X * (9 / 10) * (1 - 6 * ?u)" by (simp add: field_simps)
  then show ?thesis
    using close_as_secs_f64 [of e] close_as_secs_f64_scaled [OF assms(2)]
    unfolding close_to_def round_in_budget_def MAX_ROUND_FRACTION_def by linarith
qed

section \<open>Quorums\<close>

text \<open>The nodes on which a token is recorded as the owner of a key.\<close>

definition holders :: "('s \<Rightarrow> keyspace) \<Rightarrow> string \<Rightarrow> string \<Rightarrow> 's list \<Rightarrow> nat set" where
  "holders ks k tok ss = {j. j < length ss \<and> (\<exists>e. ks (ss ! j) k = Some (VStr tok, e))}"

text \<open>What exclusion needs of a notion of quorum, and that majorities of a ring provide it.\<close>

locale quorum_system =
  fixes quorum :: "nat set \<Rightarrow> bool"
  assumes meet: "quorum A \<Longrightarrow> quorum B \<Longrightarrow> A \<inter> B \<noteq> {}"
begin

lemma blocked: "quorum A \<Longrightarrow> A \<inter> B = {} \<Longrightarrow> \<not> quorum B"
  using meet by blast

end

definition majority :: "nat \<Rightarrow> nat set \<Rightarrow> bool" where
  "majority n A \<longleftrightarrow> A \<subseteq> {..<n} \<and> n div 2 + 1 \<le> card A"

interpretation majority: quorum_system "majority n" for n
proof
  fix A B :: "nat set"
  assume *: "majority n A" "majority n B"
  show "A \<inter> B \<noteq> {}"
  proof
    assume "A \<inter> B = {}"
    moreover have "finite A" "finite B" using * finite_subset by (auto simp: majority_def)
    ultimately have "card A + card B = card (A \<union> B)" by (simp add: card_Un_disjoint)
    also have "\<dots> \<le> n" using card_mono [of "{..<n}" "A \<union> B"] * by (simp add: majority_def)
    finally have "card A + card B \<le> n" .
    with * show False unfolding majority_def by linarith
  qed
qed

lemma majority_grow: "majority n A \<Longrightarrow> A \<subseteq> B \<Longrightarrow> B \<subseteq> {..<n} \<Longrightarrow> majority n B"
  by (meson card_mono finite_lessThan finite_subset le_trans majority_def)

section \<open>One round\<close>

lemma lock_nodes_visited:
  "lock_nodes exec r key ttl is acc ss = (Inr acc', us) \<Longrightarrow> distinct (acc @ is) \<Longrightarrow>
   distinct acc' \<and> set acc' \<subseteq> set acc \<union> set is"
proof (induction "is" arbitrary: acc ss)
  case (Cons i "is")
  from Cons.prems obtain acc1 ss1 where step: "lock_nodes exec r key ttl is acc1 ss1 = (Inr acc', us)"
    "acc1 = acc \<or> acc1 = acc @ [i]"
    by (auto simp: Let_def split: node_call.splits prod.splits sum.splits if_splits)
  then have "distinct (acc1 @ is)" using Cons.prems(2) by auto
  from Cons.IH [OF step(1) this] step(2) show ?case by auto
qed simp

context redis_server
begin

lemma node_acquire_foreign:
  assumes "ks s k = Some (VStr tok', e)" "tok' \<noteq> tok"
  shows "ks (snd (node_acquire exec k tok ttl s)) = ks s"
    and "fst (node_acquire exec k tok ttl s) \<in> {Inr (0, 0)} \<union> range Inl"
  using acquire_other [OF assms(1), of tok] assms(2)
  by (simp_all add: node_acquire_def ttl_arg_def)

end

text \<open>A quiet round over free nodes takes each of them for the lease.\<close>

definition node_free :: "('s \<Rightarrow> keyspace) \<Rightarrow> ('s \<Rightarrow> nat) \<Rightarrow> string \<Rightarrow> duration \<Rightarrow> 's \<Rightarrow> bool" where
  "node_free ks clock k ttl s \<longleftrightarrow> lease_ok ttl (clock s) \<and> ks s k = None \<and>
     (\<exists>n < i64_max. counter (ks s) (fence_key_for k) = Some n)"

context redis_server
begin

lemma node_acquire_free:
  assumes "node_free ks clock k ttl s"
  shows "\<exists>f. fst (node_acquire exec k tok ttl s) = Inr (1, f)"
    and "ks (snd (node_acquire exec k tok ttl s)) k = Some (VStr tok, Some (clock s + as_millis ttl))"
proof -
  from assms obtain n where n: "counter (ks s) (fence_key_for k) = Some n" "n < i64_max"
    and l: "lease_ok ttl (clock s)" "ks s k = None" by (auto simp: node_free_def)
  note l' = lease_okD [OF l(1)]
  from acquire_free [OF fence_key_neq(2) l(2) l'(2,3) n]
  show "\<exists>f. fst (node_acquire exec k tok ttl s) = Inr (1, f)"
    and "ks (snd (node_acquire exec k tok ttl s)) k = Some (VStr tok, Some (clock s + as_millis ttl))"
    by (simp_all add: node_acquire_def l'(4,5))
qed

lemma lock_nodes_free:
  assumes "\<forall>i \<in> set is. rr_before r i = id" "set is \<subseteq> {..<length ss}" "distinct is"
    and "\<forall>i \<in> set is. rr_call r i = Answered Delivered \<and> node_free ks clock k ttl (ss ! i)"
  shows "lock_nodes exec r k ttl (is @ rest) acc ss = lock_nodes exec r k ttl rest (acc @ is)
     (map (\<lambda>j. if j \<in> set is then snd (node_acquire exec k (rr_token r) ttl (ss ! j)) else ss ! j) [0..<length ss])"
  using assms
proof (induction "is" arbitrary: acc ss)
  case Nil
  then show ?case by (simp add: map_nth)
next
  case (Cons i "is")
  let ?P = "node_acquire exec k (rr_token r) ttl"
  from Cons.prems(4) have "node_free ks clock k ttl (ss ! i)" by simp
  from node_acquire_free(1) [OF this] obtain f where "fst (?P (ss ! i)) = Inr (1, f)" by blast
  then have "lock_nodes exec r k ttl ((i # is) @ rest) acc ss =
      lock_nodes exec r k ttl (is @ rest) (acc @ [i]) (ss[i := snd (?P (ss ! i))])"
    using Cons.prems(1,4) by (simp add: Let_def invoke_Delivered)
  also have "\<dots> = lock_nodes exec r k ttl rest ((acc @ [i]) @ is)
     (map (\<lambda>j. if j \<in> set is then snd (?P (ss[i := snd (?P (ss ! i))] ! j)) else ss[i := snd (?P (ss ! i))] ! j)
       [0..<length (ss[i := snd (?P (ss ! i))])])"
    using Cons.prems by (intro Cons.IH) (auto simp: nth_list_update)
  also have "map (\<lambda>j. if j \<in> set is then snd (?P (ss[i := snd (?P (ss ! i))] ! j)) else ss[i := snd (?P (ss ! i))] ! j)
       [0..<length (ss[i := snd (?P (ss ! i))])] =
     map (\<lambda>j. if j \<in> set (i # is) then snd (?P (ss ! j)) else ss ! j) [0..<length ss]"
    using Cons.prems(2,3) by (intro nth_equalityI) (auto simp: nth_list_update)
  finally show ?case by simp
qed

end

lemma lock_nodes_lost:
  "\<forall>i \<in> set is. rr_call r i = SliceElapsed False \<Longrightarrow> lock_nodes exec r k ttl is acc ss = (Inr acc, fold (rr_before r) is ss)"
  by (induction "is" arbitrary: ss) (simp_all add: Let_def)

context redis_server
begin

text \<open>A round that takes a quorum of free nodes at once, then waits in vain for the rest, is granted if there is time.\<close>

lemma redlock_grant:
  assumes quick: "\<forall>i < q. rr_before r i = id \<and> rr_call r i = Answered Delivered \<and> node_free ks clock k (lo_ttl opts) (ss ! i)"
    and lost: "\<forall>i \<in> {q..<rm_nodes mgr}. rr_call r i = SliceElapsed False"
    and mgr: "length ss = rm_nodes mgr" "rm_quorum mgr \<le> q" "q \<le> rm_nodes mgr"
    and time: "round_in_budget (rr_elapsed r) (lo_ttl opts)" "MIN_TTL \<le> lo_ttl opts"
    and ws: "ws = rr_before_fence r (fold (rr_before r) [q..<rm_nodes mgr]
       (map (\<lambda>j. if j < q then snd (node_acquire exec k (rr_token r) (lo_ttl opts) (ss ! j)) else ss ! j) [0..<rm_nodes mgr]))"
    and incr: "rr_fence r = Delivered" "fst (lcall exec (INCR ''__palisade__:fence-allocator'') (ws ! 0)) = Inr v"
  shows "redlock_try_lock exec mgr k opts r ss = (Inr (make_handle k (rr_token r) (FencingToken (of_int (rint v))) (lo_ttl opts)),
     ws[0 := snd (lcall exec (INCR ''__palisade__:fence-allocator'') (ws ! 0))])"
proof -
  let ?P = "node_acquire exec k (rr_token r) (lo_ttl opts)"
  let ?vs = "map (\<lambda>j. if j < q then snd (?P (ss ! j)) else ss ! j) [0..<rm_nodes mgr]"
  have split: "[0..<rm_nodes mgr] = [0..<q] @ [q..<rm_nodes mgr]"
    using mgr(3) upt_add_eq_append [of 0 q "rm_nodes mgr - q"] by simp
  have "lock_nodes exec r k (lo_ttl opts) [0..<rm_nodes mgr] [] ss = lock_nodes exec r k (lo_ttl opts) [q..<rm_nodes mgr] [0..<q] ?vs"
    unfolding split using lock_nodes_free [of "[0..<q]" r ss k "lo_ttl opts" "[q..<rm_nodes mgr]" "[]"] quick mgr
    by (simp add: split [symmetric] subset_eq cong: map_cong)
  also have "\<dots> = (Inr [0..<q], fold (rr_before r) [q..<rm_nodes mgr] ?vs)"
    by (rule lock_nodes_lost) (use lost in simp)
  finally show ?thesis
    using mgr(2) time incr
    by (simp add: redlock_try_lock_def validate_def allocate_fence_def query_def invoke_Delivered flip: ws)
qed

end

section \<open>Properties\<close>

lemma redlock_granted_round:
  assumes "redlock_connect client_open c = Inr mgr" "redlock_try_lock exec mgr k opts r ss = (res, us)" "is_ok res"
  obtains acc vs where "lock_nodes exec r k (lo_ttl opts) [0..<rm_nodes mgr] [] ss = (Inr acc, vs)"
    "majority (rm_nodes mgr) (set acc)" "us = snd (allocate_fence exec (rr_fence r) (rr_before_fence r vs))"
proof -
  have q: "rm_quorum mgr = rm_nodes mgr div 2 + 1"
    using assms(1) by (auto simp: redlock_connect_def rbind_def split: sum.splits)
  from assms(2,3) obtain acc vs where g: "lock_nodes exec r k (lo_ttl opts) [0..<rm_nodes mgr] [] ss = (Inr acc, vs)"
    "rm_quorum mgr \<le> length acc" "us = snd (allocate_fence exec (rr_fence r) (rr_before_fence r vs))"
    by (auto simp: redlock_try_lock_def split: sum.splits prod.splits if_splits)
  from lock_nodes_visited [OF g(1)] have "distinct acc" "set acc \<subseteq> {..<rm_nodes mgr}" by auto
  with g q show ?thesis by (intro that) (auto simp: majority_def distinct_card)
qed

text \<open>A failed round is not rolled back. If the nodes before \<open>m\<close> are free and
  grant, and the call to node \<open>m\<close> comes back with an error, the acquisition reports that
  error and leaves its token on every node it had taken, for the whole lease; with
  \<open>m\<close> past half of the ring this is a majority, and nobody can take the lock.\<close>

theorem redlock_error_abandons:
  assumes srv: "redis_server exec ks clock pass"
    and r: "rr_before r = (\<lambda>_. id)" "m < rm_nodes mgr" "length ss = rm_nodes mgr" "rr_call r m = Answered NotSent"
      "\<forall>i < m. rr_call r i = Answered Delivered \<and> node_free ks clock k (lo_ttl opts) (ss ! i)"
    and opts: "MIN_TTL \<le> lo_ttl opts"
  shows "fst (redlock_try_lock exec mgr k opts r ss) = Inl (Backend (''redlock node '' @ show_nat m)) \<and>
    {..<m} \<subseteq> holders ks k (rr_token r) (snd (redlock_try_lock exec mgr k opts r ss)) \<and>
    (\<forall>i < m. ks (snd (redlock_try_lock exec mgr k opts r ss) ! i) k =
        Some (VStr (rr_token r), Some (clock (ss ! i) + as_millis (lo_ttl opts))))"
proof -
  let ?P = "node_acquire exec k (rr_token r) (lo_ttl opts)"
  define us where "us = map (\<lambda>j. if j \<in> set [0..<m] then snd (?P (ss ! j)) else ss ! j) [0..<length ss]"
  have split: "[0..<rm_nodes mgr] = [0..<m] @ m # [Suc m..<rm_nodes mgr]"
    using upt_add_eq_append [of 0 m "rm_nodes mgr - m"] r(2) by (simp add: upt_conv_Cons)
  have "lock_nodes exec r k (lo_ttl opts) [0..<rm_nodes mgr] [] ss =
      lock_nodes exec r k (lo_ttl opts) (m # [Suc m..<rm_nodes mgr]) [0..<m] us"
    unfolding split us_def using redis_server.lock_nodes_free [OF srv, of "[0..<m]" r ss k "lo_ttl opts"
      "m # [Suc m..<rm_nodes mgr]" "[]"] r(1,2,3,5) by (simp add: subset_eq del: lock_nodes.simps)
  also have "\<dots> = (Inl (Backend (''redlock node '' @ show_nat m)), us)"
    using r(1,4) by (simp add: Let_def invoke_def list_update_same_conv [symmetric] del: list_update_same_conv)
  finally have run: "redlock_try_lock exec mgr k opts r ss = (Inl (Backend (''redlock node '' @ show_nat m)), us)"
    using opts by (simp add: redlock_try_lock_def validate_def)
  have "ks (us ! i) k = Some (VStr (rr_token r), Some (clock (ss ! i) + as_millis (lo_ttl opts)))" if "i < m" for i
    using redis_server.node_acquire_free(2) [OF srv] r that by (simp add: us_def)
  then show ?thesis using run r(2,3) by (auto simp: holders_def us_def)
qed

definition ex_rround :: "node_call \<Rightarrow> mem rround" where
  "ex_rround c = \<lparr>rr_token = ''t'', rr_call = (\<lambda>i. if i = 2 then c else Answered Delivered), rr_before = (\<lambda>_. id),
     rr_elapsed = 0, rr_fence = Delivered, rr_before_fence = id, rr_release = (\<lambda>_. Delivered),
     rr_before_release = (\<lambda>_. id), rr_now = 0\<rparr>"

definition ex_ring :: RedlockManager where
  "ex_ring = \<lparr>rm_nodes = 3, rm_quorum = 2, rm_default_ttl = from_secs 30\<rparr>"

lemma ex_ring_connect: "redlock_connect (\<lambda>_. Connected) (redlock_config_new [''a'', ''b'', ''c'']) = Inr ex_ring"
  by (simp add: redlock_connect_def redlock_config_new_def redlock_validate_def ex_ring_def trim_empty_def)

lemma ex_node_free: "node_free mem_ks fst k (lo_ttl default_options) mem_init"
  unfolding node_free_def by (simp add: lease_ok_def default_options_def MIN_TTL_def from_secs_def from_millis_def
      as_millis_def mem_init_def mem_ks_def expire_def counter_def)

theorem redlock_error_abandons_witness:
  "fst (redlock_try_lock mem_exec ex_ring ''k'' default_options (ex_rround (Answered NotSent)) [mem_init, mem_init, mem_init]) =
     Inl (Backend ''redlock node 2'') \<and>
   {..<2} \<subseteq> holders mem_ks ''k'' ''t'' (snd (redlock_try_lock mem_exec ex_ring ''k'' default_options
     (ex_rround (Answered NotSent)) [mem_init, mem_init, mem_init]))"
proof -
  have "MIN_TTL \<le> lo_ttl default_options"
    by (simp add: default_options_def MIN_TTL_def from_secs_def from_millis_def)
  moreover have "\<forall>i < 2. node_free mem_ks fst ''k'' (lo_ttl default_options) ([mem_init, mem_init, mem_init] ! i)"
    using ex_node_free by (auto simp: less_2_cases_iff)
  ultimately show ?thesis
    using redlock_error_abandons [OF mem.redis_server_axioms, of "ex_rround (Answered NotSent)" 2 ex_ring
      "[mem_init, mem_init, mem_init]" "''k''" default_options]
    by (auto simp: ex_rround_def ex_ring_def show_nat.simps [of 2] digit_def)
qed

lemma ex_redlock_grant:
  "is_ok (fst (redlock_try_lock mem_exec ex_ring ''k'' default_options (ex_rround (Answered Delivered)) [mem_init, mem_init, mem_init]))"
proof -
  let ?r = "ex_rround (Answered Delivered)" and ?ss = "[mem_init, mem_init, mem_init]"
  let ?P = "node_acquire mem_exec ''k'' ''t'' (lo_ttl default_options)"
  let ?us = "map (\<lambda>j. if j < 3 then snd (?P (?ss ! j)) else ?ss ! j) [0..<3]"
  have "mem_ks (snd (?P mem_init)) ''__palisade__:fence-allocator'' = mem_ks mem_init ''__palisade__:fence-allocator''"
    unfolding node_acquire_def by (rule mem.acquire_frame) (simp_all add: fence_key_for_def)
  then have "mem_ks (?us ! 0) ''__palisade__:fence-allocator'' = None"
    by (simp add: mem_init_def mem_ks_def expire_def)
  then have incr: "fst (lcall mem_exec (INCR ''__palisade__:fence-allocator'') (?us ! 0)) = Inr (RInt 1)"
    by (simp add: mem.fst_lcall doc_step.simps add_to_string_def)
  have free: "\<forall>i < 3. node_free mem_ks fst ''k'' (lo_ttl default_options) (?ss ! i)"
    using ex_node_free [of "''k''"] by (simp add: numeral_3_eq_3 less_Suc_eq all_conj_distrib)
  show ?thesis
    by (subst mem.redlock_grant [where q = 3 and ws = ?us, OF _ _ _ _ _ _ _ _ _ incr])
      (use free in \<open>auto simp: ex_ring_def ex_rround_def default_options_def MIN_TTL_def from_secs_def from_millis_def
        intro!: round_in_budget_complete\<close>)
qed

end
