(* ===== verification/RingLease.thy ===== *)
theory RingLease
  imports Redlock
begin

text \<open>
  How long a Redlock grant is worth (\<^verbatim>\<open>crates/redis/src/redlock.rs\<close>).

  The leases on the nodes of a ring run out one by one, on each node's own clock. This theory gives every
  grant and every confirmed extension a validity: the milliseconds for which a majority of the nodes keeps
  the token whatever everybody else does. Between the calls of a client each node lives its own life
  (\<open>node_world\<close>): its clock moves, other clients run the three scripts on the key or anything at
  all on other keys, and calls of the holder that were given up may still arrive. The one thing the holder
  must not do is release, or ask for a shorter lease than the validity it counts on.

  Two tokens are never valid at once; a client that stops trusting its handle when the validity is used up
  is alone. The handle of the code does not carry the validity, and its watchdog first renews a third of
  the lease after the round has ended, however long the round took; the last section shows what follows.
\<close>

section \<open>The life of a node\<close>

inductive node_world ::
  "'s server \<Rightarrow> ('s \<Rightarrow> keyspace) \<Rightarrow> ('s \<Rightarrow> nat) \<Rightarrow> (nat \<Rightarrow> 's \<Rightarrow> 's) \<Rightarrow> string \<Rightarrow> string \<Rightarrow> nat \<Rightarrow> nat \<Rightarrow> 's \<Rightarrow> 's \<Rightarrow> bool"
  for exec ks clock pass k tok B
where
  idle: "node_world exec ks clock pass k tok B 0 s s"
| time: "node_world exec ks clock pass k tok B D s t \<Longrightarrow> node_world exec ks clock pass k tok B (D + d) s (pass d t)"
| acquiring: "node_world exec ks clock pass k tok B D s t \<Longrightarrow> u \<noteq> tok \<or> B \<le> n \<Longrightarrow>
    node_world exec ks clock pass k tok B D s (snd (acquire_lua exec [k, fence_key_for k] [u, show_nat n, show_nat f] t))"
| extending: "node_world exec ks clock pass k tok B D s t \<Longrightarrow> u \<noteq> tok \<or> B \<le> n \<Longrightarrow>
    node_world exec ks clock pass k tok B D s (snd (extend_lua exec [k, fence_key_for k] [u, show_nat n, show_nat f] t))"
| releasing: "node_world exec ks clock pass k tok B D s t \<Longrightarrow> u \<noteq> tok \<Longrightarrow>
    node_world exec ks clock pass k tok B D s (snd (release_lua exec [k, fence_key_for k] [u] t))"
| elsewhere: "node_world exec ks clock pass k tok B D s t \<Longrightarrow> clock t' = clock t \<Longrightarrow> ks t' k = ks t k \<Longrightarrow>
    node_world exec ks clock pass k tok B D s t'"

text \<open>A token holds a node for at least \<open>m\<close> more milliseconds of that node's clock.\<close>

definition node_leased :: "('s \<Rightarrow> keyspace) \<Rightarrow> ('s \<Rightarrow> nat) \<Rightarrow> string \<Rightarrow> string \<Rightarrow> nat \<Rightarrow> 's \<Rightarrow> bool" where
  "node_leased ks clock k tok m s \<longleftrightarrow> (\<exists>e. ks s k = Some (VStr tok, Some e) \<and> clock s + m \<le> e)"

lemma node_leased_mono: "node_leased ks clock k tok m s \<Longrightarrow> n \<le> m \<Longrightarrow> node_leased ks clock k tok n s"
  by (auto simp: node_leased_def)

lemma node_leased_same:
  "clock t = clock s \<Longrightarrow> ks t k = ks s k \<Longrightarrow> node_leased ks clock k tok m t = node_leased ks clock k tok m s"
  by (simp add: node_leased_def)

context redis_server
begin

text \<open>A repeated acquisition by the owner sets the lease or changes nothing.\<close>

lemma acquire_again:
  fixes k fk tok t ft s
  defines "r \<equiv> acquire_lua exec [k, fk] [tok, show_nat t, show_nat ft] s"
  assumes own: "ks s k = Some (VStr tok, e)" and "k \<noteq> fk"
  shows "ks (snd r) k \<in> {ks s k, Some (VStr tok, Some (clock s + t))}"
proof (cases "ttl_ok (clock s) t")
  case False
  then show ?thesis using acquire_bad_ttl by (simp add: r_def)
next
  case True
  have incr: "snd (doc_step (INCR fk) now m) k = m k" for now m
    using \<open>k \<noteq> fk\<close> by (auto simp: doc_step.simps add_to_string_def split: option.splits rval.splits)
  from own True show ?thesis unfolding r_def acquire_lua_def
    by (auto simp: lua_simps lcall_simps ks_lcall redis_simps incr pexpire_other [OF \<open>k \<noteq> fk\<close> [symmetric]]
        split: sum.splits)
qed

lemma script_leased:
  assumes "node_leased ks clock k tok m s" "0 < m" "u \<noteq> tok \<or> m \<le> n"
  shows "node_leased ks clock k tok m (snd (acquire_lua exec [k, fence_key_for k] [u, show_nat n, show_nat f] s))"
    and "node_leased ks clock k tok m (snd (extend_lua exec [k, fence_key_for k] [u, show_nat n, show_nat f] s))"
    and "u \<noteq> tok \<Longrightarrow> node_leased ks clock k tok m (snd (release_lua exec [k, fence_key_for k] [u] s))"
proof -
  from assms(1) obtain e where e: "ks s k = Some (VStr tok, Some e)" "clock s + m \<le> e"
    by (auto simp: node_leased_def)
  show "node_leased ks clock k tok m (snd (acquire_lua exec [k, fence_key_for k] [u, show_nat n, show_nat f] s))"
  proof (cases "u = tok")
    case True
    with acquire_again [OF e(1) fence_key_neq(2), of n f] e assms(3) show ?thesis
      by (auto simp: node_leased_def script_clock)
  next
    case False
    with acquire_other(1) [OF e(1), of u] e show ?thesis by (auto simp: node_leased_def script_clock)
  qed
  show "node_leased ks clock k tok m (snd (extend_lua exec [k, fence_key_for k] [u, show_nat n, show_nat f] s))"
  proof (cases "u = tok")
    case True
    with extend_effect [OF e(1) fence_key_neq(2), of n f] e assms(2,3) show ?thesis
      by (auto simp: node_leased_def script_clock)
  next
    case False
    with extend_not_own(2) [of s k u] e show ?thesis by (auto simp: node_leased_def script_clock)
  qed
  show "node_leased ks clock k tok m (snd (release_lua exec [k, fence_key_for k] [u] s))" if "u \<noteq> tok"
    using that release_not_own(2) [of s k u] e by (auto simp: node_leased_def script_clock)
qed

lemma pass_leased: "node_leased ks clock k tok (d + m) s \<Longrightarrow> 0 < m \<Longrightarrow> node_leased ks clock k tok m (pass d s)"
  by (auto simp: node_leased_def pass_clock pass_ks expire_def)

text \<open>A lease outlives whatever happens on its node by what it had left.\<close>

lemma node_world_leased:
  assumes "node_world exec ks clock pass k tok B D s t" "node_leased ks clock k tok (D + m) s" "0 < m" "D + m \<le> B"
  shows "node_leased ks clock k tok m t"
  using assms
proof (induction arbitrary: m rule: node_world.induct)
  case (time D s t d)
  then show ?case by (intro pass_leased) (simp_all add: add.assoc)
next
  case (elsewhere D s t t')
  then show ?case using node_leased_same [of clock t' t ks k] by simp
qed (auto intro!: script_leased)

end

lemma node_world_trans:
  assumes "node_world exec ks clock pass k tok B E t v" "node_world exec ks clock pass k tok B D s t"
  shows "node_world exec ks clock pass k tok B (D + E) s v"
  using assms
proof (induction rule: node_world.induct)
  case (time E t v d)
  then show ?case using node_world.time [of exec ks clock pass k tok B "D + E" s v d] by (simp add: add.assoc)
qed (auto intro: node_world.intros)

section \<open>The life of a ring\<close>

definition ring_world ::
  "'s server \<Rightarrow> ('s \<Rightarrow> keyspace) \<Rightarrow> ('s \<Rightarrow> nat) \<Rightarrow> (nat \<Rightarrow> 's \<Rightarrow> 's) \<Rightarrow> string \<Rightarrow> string \<Rightarrow> nat \<Rightarrow> nat \<Rightarrow> 's list \<Rightarrow> 's list \<Rightarrow> bool" where
  "ring_world exec ks clock pass k tok B D ss us \<longleftrightarrow> length us = length ss \<and>
     (\<forall>i < length ss. \<exists>d \<le> D. node_world exec ks clock pass k tok B d (ss ! i) (us ! i))"

definition leased :: "('s \<Rightarrow> keyspace) \<Rightarrow> ('s \<Rightarrow> nat) \<Rightarrow> string \<Rightarrow> string \<Rightarrow> nat \<Rightarrow> 's list \<Rightarrow> nat set" where
  "leased ks clock k tok m ss = {j. j < length ss \<and> node_leased ks clock k tok m (ss ! j)}"

lemma ring_world_length: "ring_world exec ks clock pass k tok B D ss us \<Longrightarrow> length us = length ss"
  by (simp add: ring_world_def)

lemma ring_world_idle [simp, intro]: "ring_world exec ks clock pass k tok B D ss ss"
  by (auto simp: ring_world_def intro!: exI [of _ 0] node_world.idle)

lemma ring_world_trans [trans]:
  assumes "ring_world exec ks clock pass k tok B D ss us" "ring_world exec ks clock pass k tok B E us vs"
  shows "ring_world exec ks clock pass k tok B (D + E) ss vs"
  unfolding ring_world_def
proof (intro conjI allI impI)
  show "length vs = length ss" using assms by (simp add: ring_world_def)
  fix i assume "i < length ss"
  with assms obtain d e where "d \<le> D" "e \<le> E" "node_world exec ks clock pass k tok B d (ss ! i) (us ! i)"
    "node_world exec ks clock pass k tok B e (us ! i) (vs ! i)" unfolding ring_world_def by metis
  then show "\<exists>d \<le> D + E. node_world exec ks clock pass k tok B d (ss ! i) (vs ! i)"
    by (intro exI [of _ "d + e"]) (auto intro: node_world_trans)
qed

lemma ring_world_mono: "ring_world exec ks clock pass k tok B D ss us \<Longrightarrow> D \<le> E \<Longrightarrow> ring_world exec ks clock pass k tok B E ss us"
  unfolding ring_world_def by (meson le_trans)

lemma ring_world_node:
  assumes "node_world exec ks clock pass k tok B 0 (ss ! i) t"
  shows "ring_world exec ks clock pass k tok B 0 ss (ss[i := t])"
  unfolding ring_world_def
proof (intro conjI allI impI)
  fix j assume "j < length ss"
  with assms show "\<exists>d \<le> 0. node_world exec ks clock pass k tok B d (ss ! j) (ss[i := t] ! j)"
    by (cases "i = j") (simp_all add: node_world.idle)
qed simp

lemma leased_bounded: "leased ks clock k tok m ss \<subseteq> {..<length ss}"
  by (auto simp: leased_def)

lemma leased_mono: "n \<le> m \<Longrightarrow> leased ks clock k tok m ss \<subseteq> leased ks clock k tok n ss"
  by (auto simp: leased_def intro: node_leased_mono)

lemma leased_disjoint: "t1 \<noteq> t2 \<Longrightarrow> leased ks clock k t1 m ss \<inter> leased ks clock k t2 n ss = {}"
  by (auto simp: leased_def node_leased_def)

lemma leased_upd:
  "A \<subseteq> leased ks clock k tok m ss \<Longrightarrow> i \<notin> A \<or> node_leased ks clock k tok m t \<Longrightarrow> A \<subseteq> leased ks clock k tok m (ss[i := t])"
  by (cases "i < length ss") (auto simp: leased_def nth_list_update list_update_beyond)

context redis_server
begin

lemma ring_world_leased:
  assumes "ring_world exec ks clock pass k tok B D ss us" "0 < m" "D + m \<le> B"
  shows "leased ks clock k tok (D + m) ss \<subseteq> leased ks clock k tok m us"
proof
  fix j assume j: "j \<in> leased ks clock k tok (D + m) ss"
  with assms(1) obtain d where d: "d \<le> D" "node_world exec ks clock pass k tok B d (ss ! j) (us ! j)" "j < length us"
    by (auto simp: ring_world_def leased_def)
  moreover have "node_leased ks clock k tok (d + m) (ss ! j)"
    using j d(1) by (auto simp: leased_def elim: node_leased_mono)
  ultimately show "j \<in> leased ks clock k tok m us"
    using node_world_leased [of k tok B d "ss ! j" "us ! j" m] assms(2,3) by (simp add: leased_def)
qed

end

section \<open>Rounds in time\<close>

text \<open>What happens between the calls of a round, and how far the clocks of the nodes move meanwhile: by at most
  \<open>dl i\<close> before the call to node \<open>i\<close>, \<open>dr i\<close> before its release and \<open>df\<close>
  before the fence is allocated.\<close>

definition round_world ::
  "'s server \<Rightarrow> ('s \<Rightarrow> keyspace) \<Rightarrow> ('s \<Rightarrow> nat) \<Rightarrow> (nat \<Rightarrow> 's \<Rightarrow> 's) \<Rightarrow> string \<Rightarrow> string \<Rightarrow> nat \<Rightarrow>
   (nat \<Rightarrow> nat) \<Rightarrow> nat \<Rightarrow> (nat \<Rightarrow> nat) \<Rightarrow> 's rround \<Rightarrow> bool" where
  "round_world exec ks clock pass k tok B dl df dr r \<longleftrightarrow> (\<forall>i ss.
     ring_world exec ks clock pass k tok B (dl i) ss (rr_before r i ss) \<and>
     ring_world exec ks clock pass k tok B df ss (rr_before_fence r ss) \<and>
     ring_world exec ks clock pass k tok B (dr i) ss (rr_before_release r i ss))"

lemma round_worldD:
  assumes "round_world exec ks clock pass k tok B dl df dr r"
  shows "ring_world exec ks clock pass k tok B (dl i) ss (rr_before r i ss)"
    and "ring_world exec ks clock pass k tok B df ss (rr_before_fence r ss)"
    and "ring_world exec ks clock pass k tok B (dr i) ss (rr_before_release r i ss)"
  using assms by (simp_all add: round_world_def)

abbreviation lease_ms :: "duration \<Rightarrow> nat" where
  "lease_ms ttl \<equiv> unat (as_millis_u64 ttl)"

context redis_server
begin

lemma node_acquire_leased:
  assumes "fst (node_acquire exec k tok ttl s) = Inr (st, f)" "st = 1 \<or> st = 2"
  shows "node_leased ks clock k tok (lease_ms ttl) (snd (node_acquire exec k tok ttl s))"
  using acquire_grant(5) [OF _ assms(2) fence_key_neq(2)] assms(1)
  by (auto simp: node_acquire_def ttl_arg_def fence_ttl_arg_def node_leased_def script_clock)

text \<open>When the last node has answered, every node counted as acquired keeps the token for what the lease has left.\<close>

lemma lock_nodes_leased:
  assumes "round_world exec ks clock pass k (rr_token r) B dl df dr r" "0 < m"
    and "lock_nodes exec r k ttl is acc ss = (Inr acc', us)" "distinct (acc @ is)" "set is \<subseteq> {..<length ss}"
    and "set acc \<subseteq> leased ks clock k (rr_token r) (sum_list (map dl is) + m) ss"
    and "sum_list (map dl is) + m \<le> B" "sum_list (map dl is) + m \<le> lease_ms ttl"
  shows "set acc' \<subseteq> leased ks clock k (rr_token r) m us \<and> length us = length ss"
  using assms(3-)
proof (induction "is" arbitrary: acc ss)
  case (Cons i "is")
  let ?b = "rr_before r i ss" and ?P = "node_acquire exec k (rr_token r) ttl"
  let ?L = "leased ks clock k (rr_token r) (sum_list (map dl is) + m)"
  note world = round_worldD(1) [OF assms(1), of i ss]
  have b: "length ?b = length ss" "set acc \<subseteq> ?L ?b"
    using ring_world_leased [OF world, of "sum_list (map dl is) + m"] ring_world_length [OF world] Cons.prems(4,5) assms(2)
    by (auto simp: add.assoc)
  have i: "i < length ?b" "i \<notin> set acc" using Cons.prems b by auto
  have keep: "set acc \<subseteq> ?L (?b[i := t])" for t by (rule leased_upd [OF b(2)]) (use i in simp)
  have got: "i \<in> ?L (?b[i := snd (?P (?b ! i))])" if "fst (?P (?b ! i)) = Inr (st, f)" "st = 1 \<or> st = 2" for st f
    using node_leased_mono [OF node_acquire_leased [OF that]] i(1) Cons.prems(6) by (simp add: leased_def)
  show ?case
  proof (cases "rr_call r i")
    case (SliceElapsed took)
    with Cons.prems b i keep Cons.IH [of acc "if took then ?b[i := snd (?P (?b ! i))] else ?b"] show ?thesis
      by (auto simp: Let_def)
  next
    case (Answered d)
    with Cons.prems(1) obtain st f t where inv: "invoke d (''redlock node '' @ show_nat i) ?P (?b ! i) = (Inr (st, f), t)"
      and rec: "lock_nodes exec r k ttl is (if st = 1 \<or> st = 2 then acc @ [i] else acc) (?b[i := t]) = (Inr acc', us)"
      by (auto simp: Let_def split: prod.splits sum.splits)
    from invoke_InrD [OF inv] have P: "fst (?P (?b ! i)) = Inr (st, f)" "t = snd (?P (?b ! i))" by auto
    have "set (if st = 1 \<or> st = 2 then acc @ [i] else acc) \<subseteq> ?L (?b[i := t])"
      using keep [of t] got [OF P(1)] P(2) by auto
    then show ?thesis
      using Cons.IH [OF rec] Cons.prems b i by auto
  qed
qed simp

lemma allocate_fence_elsewhere:
  assumes "k \<noteq> ''__palisade__:fence-allocator''"
  shows "ring_world exec ks clock pass k tok B 0 ss (snd (allocate_fence exec d ss))"
    and "leased ks clock k tok m (snd (allocate_fence exec d ss)) = leased ks clock k tok m ss"
proof -
  let ?c = "INCR ''__palisade__:fence-allocator''"
  have "snd (doc_step ?c now m) k = m k" for now m
    using assms by (auto simp: doc_step.simps add_to_string_def split: option.splits rval.splits)
  then have same: "ks (snd (lcall exec ?c s)) k = ks s k" for s by (simp add: ks_lcall)
  define t where "t = snd (invoke d ''fence allocation failed'' (lcall exec ?c) (ss ! 0))"
  have t: "snd (allocate_fence exec d ss) = ss[0 := t]" "t \<in> {ss ! 0, snd (lcall exec ?c (ss ! 0))}"
    using invoke_state [of d "''fence allocation failed''" "lcall exec ?c" "ss ! 0"]
    by (auto simp: t_def allocate_fence_def query_def split: prod.splits sum.splits)
  then have s: "ks t k = ks (ss ! 0) k" "clock t = clock (ss ! 0)" using same by (auto simp: clock_lcall)
  show "ring_world exec ks clock pass k tok B 0 ss (snd (allocate_fence exec d ss))"
    unfolding t(1) using s by (intro ring_world_node node_world.elsewhere [OF node_world.idle]) simp_all
  show "leased ks clock k tok m (snd (allocate_fence exec d ss)) = leased ks clock k tok m ss"
    unfolding t(1) leased_def
    by (rule Collect_cong) (metis s node_leased_same length_list_update nth_list_update_eq nth_list_update_neq)
qed

text \<open>A granted round leaves its token on a majority for what the lease has left at the hand-over.\<close>

lemma granted_leased:
  assumes mgr: "redlock_connect client_open c = Inr mgr" "length ss = rm_nodes mgr" "k \<noteq> ''__palisade__:fence-allocator''"
    and run: "redlock_try_lock exec mgr k opts r ss = (Inr h, us)"
    and world: "round_world exec ks clock pass k (rr_token r) (lease_ms (lo_ttl opts)) dl df dr r"
    and left: "0 < m" "(\<Sum>i < rm_nodes mgr. dl i) + df + m \<le> lease_ms (lo_ttl opts)"
  shows "majority (rm_nodes mgr) (leased ks clock k (rr_token r) m us)" and "length us = rm_nodes mgr"
proof -
  obtain acc vs where g: "lock_nodes exec r k (lo_ttl opts) [0..<rm_nodes mgr] [] ss = (Inr acc, vs)"
      "majority (rm_nodes mgr) (set acc)" "us = snd (allocate_fence exec (rr_fence r) (rr_before_fence r vs))"
    by (rule redlock_granted_round [OF mgr(1) run]) simp
  have sum: "sum_list (map dl [0..<rm_nodes mgr]) = (\<Sum>i < rm_nodes mgr. dl i)"
    by (simp add: interv_sum_list_conv_sum_set_nat atLeast0LessThan)
  from lock_nodes_leased [OF world _ g(1), of "df + m"] mgr(2) left
  have vs: "set acc \<subseteq> leased ks clock k (rr_token r) (df + m) vs" "length vs = length ss"
    by (simp_all add: sum atLeast0LessThan add.assoc)
  note fence = round_worldD(2) [OF world, of vs] allocate_fence_elsewhere [OF mgr(3), of "rr_token r"]
  have sub: "set acc \<subseteq> leased ks clock k (rr_token r) m us"
    using vs(1) ring_world_leased [OF fence(1) left(1)] left(2) unfolding g(3) fence(3) by auto
  show len: "length us = rm_nodes mgr"
    using ring_world_length [OF fence(1)] ring_world_length [OF fence(2) [of 0]] vs(2) mgr(2) by (simp add: g(3))
  show "majority (rm_nodes mgr) (leased ks clock k (rr_token r) m us)"
    using majority_grow [OF g(2) sub] leased_bounded [of ks clock k "rr_token r" m us] len by simp
qed

end

section \<open>Extensions in time\<close>

definition confirmed :: "nat list \<Rightarrow> int option list \<Rightarrow> nat set" where
  "confirmed is as = {i. (i, Some 1) \<in> set (zip is as)}"

lemma confirmed_Cons: "confirmed (i # is) (a # as) = (if a = Some 1 then {i} else {}) \<union> confirmed is as"
  by (auto simp: confirmed_def)

lemma card_confirmed:
  "length as = length is \<Longrightarrow> distinct is \<Longrightarrow> card (confirmed is as) = length (filter (\<lambda>a. a = Some 1) as)"
proof (induction "is" arbitrary: as)
  case (Cons i "is")
  then obtain a bs where as: "as = a # bs" "length bs = length is" by (cases as) auto
  have "confirmed is bs \<subseteq> set is" by (auto simp: confirmed_def dest: set_zip_leftD)
  with Cons.prems have "i \<notin> confirmed is bs" "finite (confirmed is bs)" by (auto intro: finite_subset)
  with Cons.IH [OF as(2)] Cons.prems show ?case by (simp add: as confirmed_Cons)
qed (simp add: confirmed_def)

context redis_server
begin

lemma extend_leased:
  assumes "fst (extend_lua exec [k, fence_key_for k] [tok, ttl_arg ttl, fence_ttl_arg ttl] s) = Inr 1" "0 < lease_ms ttl"
  shows "node_leased ks clock k tok (lease_ms ttl)
    (snd (extend_lua exec [k, fence_key_for k] [tok, ttl_arg ttl, fence_ttl_arg ttl] s))"
proof -
  obtain e where "ks s k = Some (VStr tok, e)"
    using extend_not_own(1) [of s k tok "[fence_key_for k]" "[ttl_arg ttl, fence_ttl_arg ttl]"] assms(1) by force
  from extend_effect [OF this fence_key_neq(2), of "lease_ms ttl" "unat (as_millis_u64 ttl * FENCE_TTL_MULTIPLIER)"] assms
  show ?thesis
    unfolding ttl_arg_def fence_ttl_arg_def node_leased_def script_clock by auto
qed

text \<open>The nodes that confirmed an extension keep the token for what the new lease has left.\<close>

lemma extend_nodes_leased:
  assumes "round_world exec ks clock pass (rs_key h) (rs_token h) B dl df dr r" "0 < m"
    and "extend_nodes exec r h ttl is ss = (as, us)" "distinct is" "set is \<subseteq> {..<length ss}"
    and "A \<subseteq> leased ks clock (rs_key h) (rs_token h) (sum_list (map dl is) + m) ss" "A \<inter> set is = {}"
    and "sum_list (map dl is) + m \<le> B" "sum_list (map dl is) + m \<le> lease_ms ttl"
  shows "A \<union> confirmed is as \<subseteq> leased ks clock (rs_key h) (rs_token h) m us \<and> length us = length ss \<and> length as = length is"
  using assms(3-)
proof (induction "is" arbitrary: A as ss)
  case Nil
  then show ?case by (simp add: confirmed_def)
next
  case (Cons i "is")
  let ?b = "rr_before r i ss" and ?L = "leased ks clock (rs_key h) (rs_token h) (sum_list (map dl is) + m)"
  let ?P = "extend_lua exec [rs_key h, fence_key_for (rs_key h)] [rs_token h, ttl_arg ttl, fence_ttl_arg ttl]"
  note world = round_worldD(1) [OF assms(1), of i ss]
  have b: "length ?b = length ss" "A \<subseteq> ?L ?b"
    using ring_world_leased [OF world, of "sum_list (map dl is) + m"] ring_world_length [OF world] Cons.prems(4,6) assms(2)
    by (auto simp: add.assoc)
  obtain x t where inv: "invoke (rr_release r i) ''extend'' ?P (?b ! i) = (x, t)" by (rule prod.exhaust)
  let ?a = "case x of Inl _ \<Rightarrow> None | Inr n \<Rightarrow> Some n"
  obtain bs where rec: "extend_nodes exec r h ttl is (?b[i := t]) = (bs, us)" and as: "as = ?a # bs"
    using Cons.prems(1) inv by (auto simp: Let_def split: prod.splits)
  let ?A = "A \<union> (if ?a = Some 1 then {i} else {})"
  have "i \<in> ?L (?b[i := t])" if "?a = Some 1"
  proof -
    from that inv have "fst (?P (?b ! i)) = Inr 1" "t = snd (?P (?b ! i))"
      by (auto dest: invoke_InrD split: sum.splits)
    with extend_leased [of "rs_key h" "rs_token h" ttl "?b ! i"] Cons.prems(3,7) assms(2) b(1) show ?thesis
      by (auto simp: leased_def elim: node_leased_mono)
  qed
  moreover have "A \<subseteq> ?L (?b[i := t])" by (rule leased_upd [OF b(2)]) (use Cons.prems(5) in auto)
  ultimately have "?A \<subseteq> ?L (?b[i := t])" by auto
  from Cons.IH [OF rec _ _ this] Cons.prems b(1) show ?case
    by (auto simp: as confirmed_Cons split: if_splits)
qed

lemma renewed_leased:
  assumes mgr: "redlock_connect client_open c = Inr mgr" "length ss = rm_nodes mgr"
    and run: "redlock_fire_extend exec mgr r h ttl ss = (Inr True, us)"
    and world: "round_world exec ks clock pass (rs_key h) (rs_token h) (lease_ms ttl) dl df dr r"
    and left: "0 < m" "(\<Sum>i < rm_nodes mgr. dl i) + m \<le> lease_ms ttl"
  shows "majority (rm_nodes mgr) (leased ks clock (rs_key h) (rs_token h) m us)" and "length us = rm_nodes mgr"
proof -
  have q: "rm_quorum mgr = rm_nodes mgr div 2 + 1"
    using mgr(1) by (auto simp: redlock_connect_def rbind_def split: sum.splits)
  obtain as where e: "extend_nodes exec r h ttl [0..<rm_nodes mgr] ss = (as, us)"
    and v: "rm_quorum mgr \<le> length (filter (\<lambda>a. a = Some 1) as)"
    using run by (auto simp: redlock_fire_extend_def extend_verdict_def split: prod.splits if_splits)
  have sum: "sum_list (map dl [0..<rm_nodes mgr]) = (\<Sum>i < rm_nodes mgr. dl i)"
    by (simp add: interv_sum_list_conv_sum_set_nat atLeast0LessThan)
  from extend_nodes_leased [OF world left(1) e, of "{}"] left mgr(2)
  have l: "confirmed [0..<rm_nodes mgr] as \<subseteq> leased ks clock (rs_key h) (rs_token h) m us"
    and len: "length us = length ss" "length as = rm_nodes mgr" by (auto simp: sum atLeast0LessThan)
  then show "length us = rm_nodes mgr" using mgr(2) by simp
  have "confirmed [0..<rm_nodes mgr] as \<subseteq> {..<rm_nodes mgr}" by (auto simp: confirmed_def dest: set_zip_leftD)
  then have "majority (rm_nodes mgr) (confirmed [0..<rm_nodes mgr] as)"
    using card_confirmed [of as "[0..<rm_nodes mgr]"] len v q by (simp add: majority_def)
  from majority_grow [OF this l] leased_bounded [of ks clock "rs_key h" "rs_token h" m us] len mgr(2)
  show "majority (rm_nodes mgr) (leased ks clock (rs_key h) (rs_token h) m us)" by simp
qed

end

section \<open>Validity\<close>

text \<open>When a token is worth trusting, and for how many milliseconds more: a round was granted, or an extension confirmed, with
  that much of the lease left when it returned, or it was worth more and time passed.\<close>

inductive validated ::
  "'s server \<Rightarrow> ('s \<Rightarrow> keyspace) \<Rightarrow> ('s \<Rightarrow> nat) \<Rightarrow> (nat \<Rightarrow> 's \<Rightarrow> 's) \<Rightarrow> RedlockManager \<Rightarrow> string \<Rightarrow> string \<Rightarrow> nat \<Rightarrow> 's list \<Rightarrow> bool"
  for exec ks clock pass mgr k
where
  granted: "redlock_try_lock exec mgr k opts r ss = (Inr h, us) \<Longrightarrow> length ss = rm_nodes mgr \<Longrightarrow>
    round_world exec ks clock pass k (rr_token r) (lease_ms (lo_ttl opts)) dl df dr r \<Longrightarrow>
    (\<Sum>i < rm_nodes mgr. dl i) + df + m \<le> lease_ms (lo_ttl opts) \<Longrightarrow>
    validated exec ks clock pass mgr k (rr_token r) m us"
| renewed: "redlock_fire_extend exec mgr r h ttl ss = (Inr True, us) \<Longrightarrow> rs_key h = k \<Longrightarrow> length ss = rm_nodes mgr \<Longrightarrow>
    round_world exec ks clock pass k (rs_token h) (lease_ms ttl) dl df dr r \<Longrightarrow>
    (\<Sum>i < rm_nodes mgr. dl i) + m \<le> lease_ms ttl \<Longrightarrow>
    validated exec ks clock pass mgr k (rs_token h) m us"
| later: "validated exec ks clock pass mgr k tok (D + m) us \<Longrightarrow> ring_world exec ks clock pass k tok (D + m) D us vs \<Longrightarrow>
    validated exec ks clock pass mgr k tok m vs"

context redis_server
begin

lemma validated_leased:
  assumes "redlock_connect client_open c = Inr mgr" "k \<noteq> ''__palisade__:fence-allocator''"
    and "validated exec ks clock pass mgr k tok m us" "0 < m"
  shows "majority (rm_nodes mgr) (leased ks clock k tok m us) \<and> length us = rm_nodes mgr"
  using assms(3,4)
proof (induction rule: validated.induct)
  case (granted opts r ss h us dl df dr m)
  from granted_leased [OF assms(1) granted(2) assms(2) granted(1,3,5,4)] show ?case by blast
next
  case (renewed r h ttl ss us dl df dr m)
  from renewed_leased [OF assms(1) renewed(3,1)] renewed show ?case by blast
next
  case (later tok D m us vs)
  then have IH: "majority (rm_nodes mgr) (leased ks clock k tok (D + m) us)" "length us = rm_nodes mgr" by auto
  have "length vs = rm_nodes mgr" using ring_world_length [OF later(2)] IH(2) by simp
  then show ?case
    using majority_grow [OF IH(1) ring_world_leased [OF later(2) later(4)]] leased_bounded [of ks clock k tok m vs] by simp
qed

end

section \<open>Operations are part of the life of a ring\<close>

text \<open>Whole operations under other tokens, and renewals under the same one, are worlds, so that worlds can be made of them.\<close>

lemma node_acquire_world:
  "u \<noteq> tok \<or> B \<le> lease_ms ttl \<Longrightarrow> node_world exec ks clock pass k tok B 0 s (snd (node_acquire exec k u ttl s))"
  unfolding node_acquire_def ttl_arg_def fence_ttl_arg_def by (rule node_world.acquiring [OF node_world.idle])

lemma invoke_world:
  assumes "invoke d msg P (ss ! i) = (x, t)" "node_world exec ks clock pass k tok B 0 (ss ! i) (snd (P (ss ! i)))"
  shows "ring_world exec ks clock pass k tok B 0 ss (ss[i := t])"
  using invoke_state [of d msg P "ss ! i"] assms by (auto intro: ring_world_node)

lemma lock_nodes_world:
  assumes "round_world exec ks clock pass k tok B dl df dr r" "rr_token r \<noteq> tok \<or> B \<le> lease_ms ttl"
  shows "ring_world exec ks clock pass k tok B (sum_list (map dl is)) ss (snd (lock_nodes exec r k ttl is acc ss))"
proof (induction "is" arbitrary: acc ss)
  case (Cons i "is")
  let ?b = "rr_before r i ss" and ?P = "node_acquire exec k (rr_token r) ttl"
  note before = round_worldD(1) [OF assms(1), of i ss] and node = node_acquire_world [OF assms(2)]
  have go: "ring_world exec ks clock pass k tok B (sum_list (map dl (i # is))) ss (snd (lock_nodes exec r k ttl is acc' vs))"
    if "ring_world exec ks clock pass k tok B 0 ?b vs" for acc' vs
    using ring_world_trans [OF before ring_world_trans [OF that Cons.IH [of vs acc']]] by simp
  show ?case
  proof (cases "rr_call r i")
    case (SliceElapsed took)
    have "ring_world exec ks clock pass k tok B 0 ?b (if took then ?b[i := snd (?P (?b ! i))] else ?b)"
      by (simp add: ring_world_node node)
    from go [OF this] SliceElapsed show ?thesis by (simp add: Let_def)
  next
    case (Answered d)
    obtain x t where inv: "invoke d (''redlock node '' @ show_nat i) ?P (?b ! i) = (x, t)" by (rule prod.exhaust)
    note step = invoke_world [OF inv node]
    show ?thesis
    proof (cases x)
      case (Inl e)
      with Answered inv ring_world_mono [OF ring_world_trans [OF before step]] show ?thesis by (simp add: Let_def)
    next
      case (Inr y)
      then show ?thesis using Answered inv go [OF step] by (cases y) (simp add: Let_def)
    qed
  qed
qed auto

lemma release_nodes_world:
  assumes "round_world exec ks clock pass k tok B dl df dr r" "u \<noteq> tok"
  shows "ring_world exec ks clock pass k tok B (sum_list (map dr is)) ss (snd (release_nodes exec r k u is ss))"
proof (induction "is" arbitrary: ss)
  case (Cons i "is")
  let ?b = "rr_before_release r i ss"
  obtain x t where inv: "invoke (rr_release r i) ''release'' (release_lua exec [k, fence_key_for k] [u]) (?b ! i) = (x, t)"
    by (rule prod.exhaust)
  have "snd (release_node exec (rr_release r i) i k u ?b) = ?b[i := t]"
    using inv by (simp add: release_node_def split: sum.splits)
  then obtain a where rel: "release_node exec (rr_release r i) i k u ?b = (a, ?b[i := t])" by (metis prod.collapse)
  note node = node_world.releasing [OF node_world.idle assms(2)]
  from ring_world_trans [OF round_worldD(3) [OF assms(1), of i ss] ring_world_trans [OF invoke_world [OF inv node] Cons.IH]]
  show ?case using rel by (simp add: split_beta)
qed auto

lemma extend_nodes_world:
  assumes "round_world exec ks clock pass (rs_key h) tok B dl df dr r" "rs_token h \<noteq> tok \<or> B \<le> lease_ms ttl"
  shows "ring_world exec ks clock pass (rs_key h) tok B (sum_list (map dl is)) ss (snd (extend_nodes exec r h ttl is ss))"
proof (induction "is" arbitrary: ss)
  case (Cons i "is")
  let ?b = "rr_before r i ss"
  let ?P = "extend_lua exec [rs_key h, fence_key_for (rs_key h)] [rs_token h, ttl_arg ttl, fence_ttl_arg ttl]"
  obtain x t where inv: "invoke (rr_release r i) ''extend'' ?P (?b ! i) = (x, t)" by (rule prod.exhaust)
  have node: "node_world exec ks clock pass (rs_key h) tok B 0 (?b ! i) (snd (?P (?b ! i)))"
    unfolding ttl_arg_def fence_ttl_arg_def by (rule node_world.extending [OF node_world.idle assms(2)])
  from ring_world_trans [OF round_worldD(1) [OF assms(1), of i ss] ring_world_trans [OF invoke_world [OF inv node] Cons.IH]]
  show ?case using inv by (simp add: Let_def split_beta)
qed auto

lemma sum_visited: "distinct acc \<Longrightarrow> set acc \<subseteq> {..<n :: nat} \<Longrightarrow> sum_list (map f acc) \<le> (\<Sum>i < n. f i :: nat)"
  using sum_mono2 [of "{..<n}" "set acc" f] by (simp add: sum_list_distinct_conv_sum_set)

lemma sum_nodes: "sum_list (map f [0..<n]) = (\<Sum>i < n. f i :: nat)"
  by (simp add: interv_sum_list_conv_sum_set_nat atLeast0LessThan)

context redis_server
begin

lemma redlock_round_world:
  assumes "round_world exec ks clock pass k tok B dl df dr r" "rr_token r \<noteq> tok" "k \<noteq> ''__palisade__:fence-allocator''"
  shows "ring_world exec ks clock pass k tok B ((\<Sum>i < rm_nodes mgr. dl i) + df + (\<Sum>i < rm_nodes mgr. dr i)) ss
    (snd (redlock_try_lock exec mgr k opts r ss))"
proof -
  let ?D = "(\<Sum>i < rm_nodes mgr. dl i) + df + (\<Sum>i < rm_nodes mgr. dr i)"
  obtain x us where l: "lock_nodes exec r k (lo_ttl opts) [0..<rm_nodes mgr] [] ss = (x, us)" by (rule prod.exhaust)
  have us: "ring_world exec ks clock pass k tok B (\<Sum>i < rm_nodes mgr. dl i) ss us"
    using lock_nodes_world [OF assms(1) disjI1 [OF assms(2)], of "[0..<rm_nodes mgr]" ss "lo_ttl opts" "[]"] l
    by (simp add: sum_nodes)
  have fence: "ring_world exec ks clock pass k tok B ?D ss (snd (allocate_fence exec (rr_fence r) (rr_before_fence r us)))"
    by (rule ring_world_mono [OF ring_world_trans [OF us ring_world_trans [OF round_worldD(2) [OF assms(1)]
      allocate_fence_elsewhere(1) [OF assms(3)]]]]) simp
  have undo: "ring_world exec ks clock pass k tok B ?D ss (snd (release_nodes exec r k (rr_token r) acc us))" if "x = Inr acc" for acc
    using sum_visited [of acc "rm_nodes mgr" dr] lock_nodes_visited [OF l [unfolded that]]
    by (intro ring_world_mono [OF ring_world_trans [OF us release_nodes_world [OF assms(1,2)]]])
      (simp add: atLeast0LessThan trans_le_add2)
  have stop: "ring_world exec ks clock pass k tok B ?D ss us" by (rule ring_world_mono [OF us]) simp
  show ?thesis
    using fence undo stop l by (auto simp: redlock_try_lock_def split: sum.splits prod.splits)
qed

end

lemma redlock_release_world:
  assumes "round_world exec ks clock pass (rs_key h) tok B dl df dr r" "rs_token h \<noteq> tok"
  shows "ring_world exec ks clock pass (rs_key h) tok B (\<Sum>i < rm_nodes mgr. dr i) ss (snd (snd (redlock_release exec mgr r h ss)))"
    and "ring_world exec ks clock pass (rs_key h) tok B (\<Sum>i < rm_nodes mgr. dr i) ss (redlock_drop exec mgr rt r h ss)"
  using release_nodes_world [OF assms(1,2), of "[0..<rm_nodes mgr]" ss]
  by (auto simp: redlock_release_def redlock_drop_def rs_mark_gone_def redlock_run_release_def sum_nodes split: prod.splits bool.splits)

lemma redlock_extend_world:
  assumes "round_world exec ks clock pass (rs_key h) tok B dl df dr r"
  shows "rs_token h \<noteq> tok \<or> B \<le> lease_ms ttl \<Longrightarrow>
      ring_world exec ks clock pass (rs_key h) tok B (\<Sum>i < rm_nodes mgr. dl i) ss (snd (snd (redlock_extend exec mgr r ttl h ss)))"
    and "rs_token h \<noteq> tok \<or> B \<le> lease_ms (rs_ttl h) \<Longrightarrow>
      ring_world exec ks clock pass (rs_key h) tok B (\<Sum>i < rm_nodes mgr. dl i) ss (snd (snd (redlock_watchdog_tick exec mgr alive r w h ss)))"
proof -
  note world = extend_nodes_world [OF assms, of _ "[0..<rm_nodes mgr]" ss, unfolded sum_nodes]
  have fire: "ring_world exec ks clock pass (rs_key h) tok B (\<Sum>i < rm_nodes mgr. dl i) ss us"
    if "rs_token h \<noteq> tok \<or> B \<le> lease_ms ttl" "redlock_fire_extend exec mgr r h ttl ss = (x, us)" for ttl x us
    using world [OF that(1)] that(2) by (auto simp: redlock_fire_extend_def split: prod.splits)
  show "ring_world exec ks clock pass (rs_key h) tok B (\<Sum>i < rm_nodes mgr. dl i) ss (snd (snd (redlock_extend exec mgr r ttl h ss)))"
    if "rs_token h \<noteq> tok \<or> B \<le> lease_ms ttl"
    using fire [OF that] by (auto simp: redlock_extend_def split: prod.splits sum.splits bool.splits)
  show "ring_world exec ks clock pass (rs_key h) tok B (\<Sum>i < rm_nodes mgr. dl i) ss
      (snd (snd (redlock_watchdog_tick exec mgr alive r w h ss)))" if "rs_token h \<noteq> tok \<or> B \<le> lease_ms (rs_ttl h)"
    using fire [OF that] by (auto simp: redlock_watchdog_tick_def Let_def split: prod.splits sum.splits bool.splits)
qed

section \<open>Exclusion in time\<close>

context redis_server
begin

text \<open>A round under another token gets none of the nodes that stay leased while it runs.\<close>

lemma lock_nodes_blocked:
  assumes "round_world exec ks clock pass k tok B dl df dr r" "rr_token r \<noteq> tok" "0 < m"
    and "lock_nodes exec r k ttl is acc ss = (Inr acc', us)" "set is \<subseteq> {..<length ss}" "set acc \<inter> H = {}"
    and "H \<subseteq> leased ks clock k tok (sum_list (map dl is) + m) ss" "sum_list (map dl is) + m \<le> B"
  shows "set acc' \<inter> H = {}"
  using assms(4-)
proof (induction "is" arbitrary: acc ss)
  case (Cons i "is")
  let ?b = "rr_before r i ss" and ?P = "node_acquire exec k (rr_token r) ttl"
  let ?L = "leased ks clock k tok (sum_list (map dl is) + m)"
  note world = round_worldD(1) [OF assms(1), of i ss]
  have b: "length ?b = length ss" "H \<subseteq> ?L ?b"
    using ring_world_leased [OF world, of "sum_list (map dl is) + m"] ring_world_length [OF world] Cons.prems(4,5) assms(3)
    by (auto simp: add.assoc)
  have keep: "H \<subseteq> ?L (?b[i := snd (?P (?b ! i))])"
    using b(2) script_leased(1) [of k tok "sum_list (map dl is) + m" "?b ! i" "rr_token r"] assms(2,3)
    by (intro leased_upd [OF b(2)]) (auto simp: leased_def node_acquire_def ttl_arg_def fence_ttl_arg_def)
  have refused: "i \<notin> H" if "fst (?P (?b ! i)) = Inr (st, f)" "st = 1 \<or> st = 2" for st f
    using b(2) node_acquire_foreign(2) [of "?b ! i" k tok _ "rr_token r" ttl] assms(2) that
    by (fastforce simp: leased_def node_leased_def)
  show ?case
  proof (cases "rr_call r i")
    case (SliceElapsed took)
    with Cons.prems b keep show ?thesis
      by (intro Cons.IH [of acc "if took then ?b[i := snd (?P (?b ! i))] else ?b"]) (auto simp: Let_def)
  next
    case (Answered d)
    with Cons.prems(1) obtain st f t where inv: "invoke d (''redlock node '' @ show_nat i) ?P (?b ! i) = (Inr (st, f), t)"
      and rec: "lock_nodes exec r k ttl is (if st = 1 \<or> st = 2 then acc @ [i] else acc) (?b[i := t]) = (Inr acc', us)"
      by (auto simp: Let_def split: prod.splits sum.splits)
    from invoke_InrD [OF inv] have P: "fst (?P (?b ! i)) = Inr (st, f)" "t = snd (?P (?b ! i))" by auto
    show ?thesis
      using Cons.prems b keep refused [OF P(1)] P(2) by (intro Cons.IH [OF rec]) auto
  qed
qed simp

lemma validated_blocks:
  assumes mgr: "redlock_connect client_open c = Inr mgr" "k \<noteq> ''__palisade__:fence-allocator''"
    and val: "validated exec ks clock pass mgr k tok (D + m) ss" "0 < m"
    and world: "round_world exec ks clock pass k tok (D + m) dl df dr r" "rr_token r \<noteq> tok"
    and D: "(\<Sum>i < rm_nodes mgr. dl i) + df + (\<Sum>i < rm_nodes mgr. dr i) = D"
    and run: "redlock_try_lock exec mgr k opts r ss = (res, us)"
  shows "\<not> is_ok res" and "validated exec ks clock pass mgr k tok m us"
proof -
  from validated_leased [OF mgr val(1)] val(2)
  have l: "majority (rm_nodes mgr) (leased ks clock k tok (D + m) ss)" "length ss = rm_nodes mgr" by simp_all
  show "\<not> is_ok res"
  proof
    assume "is_ok res"
    from redlock_granted_round [OF mgr(1) run this] obtain acc vs
      where g: "lock_nodes exec r k (lo_ttl opts) [0..<rm_nodes mgr] [] ss = (Inr acc, vs)" "majority (rm_nodes mgr) (set acc)" .
    let ?n = "\<Sum>i < rm_nodes mgr. dl i"
    have "leased ks clock k tok (D + m) ss \<subseteq> leased ks clock k tok (?n + m) ss" by (rule leased_mono) (use D in simp)
    with lock_nodes_blocked [OF world val(2) g(1), of "leased ks clock k tok (D + m) ss"] D l(2)
    have "set acc \<inter> leased ks clock k tok (D + m) ss = {}" by (simp add: sum_nodes atLeast0LessThan)
    with majority.blocked [OF g(2)] l(1) show False by blast
  qed
  have "ring_world exec ks clock pass k tok (D + m) D ss us"
    using redlock_round_world [OF world mgr(2), of mgr ss opts] run D by simp
  with val(1) show "validated exec ks clock pass mgr k tok m us" by (rule validated.later)
qed

end

text \<open>The budget check of the code, in milliseconds.\<close>

lemma round_in_budget_millis:
  assumes "round_in_budget e ttl" "MIN_TTL \<le> ttl" "from_millis T \<le> e" "20 * d < as_millis ttl"
  shows "T + d < as_millis ttl"
proof -
  note floor = MIN_TTL_millis [OF assms(2)]
  then have "0 < ttl" by (auto simp: as_millis_def intro: gr0I)
  with assms(1,3) have "1000 * (T * 1000000) < 901 * ttl" using round_in_budget_sound [of e ttl] by (simp add: from_millis_def)
  moreover have "ttl < (as_millis ttl + 1) * 1000000" by (simp add: as_millis_def dividend_less_div_times)
  ultimately have "1000 * (T * 1000000) < 901 * ((as_millis ttl + 1) * 1000000)" by linarith
  then have "1000 * T < 901 * as_millis ttl + 901" by simp
  with assms(4) floor show ?thesis by (cases "d = 0") linarith+
qed

text \<open>Property C3. Redlock is mutually exclusive, in time. For a manager built by \<open>redlock_connect\<close> and a key that is not
  the allocator's own counter: two different tokens never both have validity left, however their rounds, extensions and
  releases interleave and whatever calls fail, time out, lose their answers or arrive late. A round by another
  client that runs while a token has validity to spare is refused, and takes from the validity only the
  time it took. And a granted round is worth something: if the clocks of the nodes did not run faster than the client's
  stopwatch and the allocation of the fence took less than a twentieth of the lease, then the code's check
  of the elapsed time leaves validity at the moment the handle is handed out.\<close>

theorem redlock_exclusive_in_time:
  assumes server: "redis_server exec ks clock pass"
    and mgr: "redlock_connect client_open c = Inr mgr" "k \<noteq> ''__palisade__:fence-allocator''"
    and run: "redlock_try_lock exec mgr k opts r ss = (res, us)"
  shows "(validated exec ks clock pass mgr k t1 m1 ss \<and> 0 < m1 \<and> validated exec ks clock pass mgr k t2 m2 ss \<and> 0 < m2 \<longrightarrow> t1 = t2) \<and>
    (validated exec ks clock pass mgr k tok (D + m) ss \<and> 0 < m \<and> rr_token r \<noteq> tok \<and>
       round_world exec ks clock pass k tok (D + m) dl df dr r \<and> (\<Sum>i < rm_nodes mgr. dl i) + df + (\<Sum>i < rm_nodes mgr. dr i) = D \<longrightarrow>
       \<not> is_ok res \<and> validated exec ks clock pass mgr k tok m us) \<and>
    (is_ok res \<and> length ss = rm_nodes mgr \<and> as_millis (lo_ttl opts) < 2 ^ 64 \<and>
       round_world exec ks clock pass k (rr_token r) (as_millis (lo_ttl opts)) dl df dr r \<and>
       from_millis (\<Sum>i < rm_nodes mgr. dl i) \<le> rr_elapsed r \<and> 20 * df < as_millis (lo_ttl opts) \<longrightarrow>
       (\<exists>v > 0. (\<Sum>i < rm_nodes mgr. dl i) + df + v = as_millis (lo_ttl opts) \<and> validated exec ks clock pass mgr k (rr_token r) v us))"
proof (intro conjI impI; elim conjE)
  assume v: "validated exec ks clock pass mgr k t1 m1 ss" "0 < m1" "validated exec ks clock pass mgr k t2 m2 ss" "0 < m2"
  note maj = redis_server.validated_leased [OF server mgr v(1,2)] redis_server.validated_leased [OF server mgr v(3,4)]
  with majority.meet leased_disjoint [of t1 t2] show "t1 = t2" by metis
next
  assume v: "validated exec ks clock pass mgr k tok (D + m) ss" "0 < m" "rr_token r \<noteq> tok"
    "round_world exec ks clock pass k tok (D + m) dl df dr r" "(\<Sum>i < rm_nodes mgr. dl i) + df + (\<Sum>i < rm_nodes mgr. dr i) = D"
  note blocks = redis_server.validated_blocks [OF server mgr v(1,2,4,3,5) run]
  show "\<not> is_ok res" by (rule blocks(1))
  show "validated exec ks clock pass mgr k tok m us" by (rule blocks(2))
next
  let ?T = "\<Sum>i < rm_nodes mgr. dl i" and ?L = "as_millis (lo_ttl opts)"
  assume g: "is_ok res" "length ss = rm_nodes mgr" "?L < 2 ^ 64" "round_world exec ks clock pass k (rr_token r) ?L dl df dr r"
    "from_millis ?T \<le> rr_elapsed r" "20 * df < ?L"
  from g(1) run obtain h where h: "redlock_try_lock exec mgr k opts r ss = (Inr h, us)" by (auto simp: is_ok_def split: sum.splits)
  then have "round_in_budget (rr_elapsed r) (lo_ttl opts)" "MIN_TTL \<le> lo_ttl opts"
    by (auto simp: redlock_try_lock_def validate_ok split: sum.splits prod.splits if_splits)
  from round_in_budget_millis [OF this g(5,6)] have left: "?T + df < ?L" .
  have "validated exec ks clock pass mgr k (rr_token r) (?L - (?T + df)) us"
    by (rule validated.granted [OF h g(2), where dl = dl and df = df and dr = dr]) (use g(3,4) left in \<open>simp_all add: unat_as_millis_u64\<close>)
  with left show "\<exists>v > 0. ?T + df + v = ?L \<and> validated exec ks clock pass mgr k (rr_token r) v us"
    by (intro exI [of _ "?L - (?T + df)"]) simp
qed

lemma ex_rround_world: "round_world exec ks clock pass k tok B (\<lambda>_. 0) 0 (\<lambda>_. 0) (ex_rround c)"
  by (auto simp: round_world_def ex_rround_def)

theorem redlock_exclusive_in_time_witness:
  "\<exists>h us. redlock_try_lock mem_exec ex_ring ''k'' default_options (ex_rround (Answered Delivered)) [mem_init, mem_init, mem_init] = (Inr h, us) \<and>
     validated mem_exec mem_ks fst mem_pass ex_ring ''k'' ''t'' 30000 us \<and>
     \<not> is_ok (fst (redlock_try_lock mem_exec ex_ring ''k'' default_options ((ex_rround (Answered Delivered))\<lparr>rr_token := ''u''\<rparr>) us))"
proof -
  let ?r = "ex_rround (Answered Delivered)" and ?ss = "[mem_init, mem_init, mem_init]" and ?z = "\<lambda>_. 0 :: nat"
  have ms: "as_millis (lo_ttl default_options) = 30000" by (simp add: default_options_def from_secs_def as_millis_def)
  obtain h us where g: "redlock_try_lock mem_exec ex_ring ''k'' default_options ?r ?ss = (Inr h, us)"
    using ex_redlock_grant by (auto simp: is_ok_def split: sum.splits) (metis prod.collapse)
  have v: "validated mem_exec mem_ks fst mem_pass ex_ring ''k'' ''t'' 30000 us"
    using redlock_exclusive_in_time [OF mem.redis_server_axioms ex_ring_connect _ g, where dl = ?z and df = 0 and dr = ?z]
      ex_rround_world [of mem_exec mem_ks fst mem_pass "''k''" "''t''" 30000 "Answered Delivered"]
    by (simp add: ms ex_ring_def ex_rround_def from_millis_def)
  have w: "round_world mem_exec mem_ks fst mem_pass ''k'' ''t'' (0 + 30000) ?z 0 ?z (?r\<lparr>rr_token := ''u''\<rparr>)"
    by (auto simp: round_world_def ex_rround_def)
  from redlock_exclusive_in_time [OF mem.redis_server_axioms ex_ring_connect _ prod.collapse [symmetric],
      where tok = "''t''" and D = 0 and m = 30000 and dl = ?z and df = 0 and dr = ?z and ss = us and r = "?r\<lparr>rr_token := ''u''\<rparr>"
        and k = "''k''" and opts = default_options] v w
  have "\<not> is_ok (fst (redlock_try_lock mem_exec ex_ring ''k'' default_options (?r\<lparr>rr_token := ''u''\<rparr>) us))" by simp
  with g v show ?thesis by blast
qed

section \<open>A handle that outlives its validity\<close>

text \<open>A ring of seven, three of them out of reach of the first client. Its round takes the other four at once, then waits three
  times for a quarter of the lease, which is within the budget; eight seconds later, before its watchdog first
  renews, the leases have run out.\<close>

definition ex_ring7 :: RedlockManager where
  "ex_ring7 = \<lparr>rm_nodes = 7, rm_quorum = 4, rm_default_ttl = from_secs 30\<rparr>"

definition ex_slow :: "mem rround" where
  "ex_slow = \<lparr>rr_token = ''t'', rr_call = (\<lambda>i. if i < 4 then Answered Delivered else SliceElapsed False),
     rr_before = (\<lambda>i. if i \<le> 4 then id else map (mem_pass 7500)), rr_elapsed = from_millis 22500, rr_fence = Delivered,
     rr_before_fence = map (mem_pass 7500), rr_release = (\<lambda>_. Delivered), rr_before_release = (\<lambda>_. id), rr_now = 0\<rparr>"

definition ex_quick :: "mem rround" where
  "ex_quick = (ex_rround (Answered Delivered))\<lparr>rr_token := ''u''\<rparr>"

text \<open>The nodes of the example at time \<open>c\<close>.\<close>

definition ex_node :: "nat \<Rightarrow> int \<Rightarrow> mem \<Rightarrow> bool" where
  "ex_node c b s \<longleftrightarrow> fst s = c \<and> (\<forall>e. mem_ks s ''k'' = Some e \<longrightarrow> e = (VStr ''t'', Some 30000)) \<and>
     (\<forall>e. mem_ks s (fence_key_for ''k'') = Some e \<longrightarrow> fst e = VStr ''1'') \<and>
     (\<exists>n. counter (mem_ks s) ''__palisade__:fence-allocator'' = Some n \<and> 0 \<le> n \<and> n \<le> b)"

lemma ex_node_pass:
  assumes "ex_node c b s" "0 \<le> b"
  shows "ex_node (c + d) b (mem_pass d s)"
proof -
  have sub: "mem_ks (mem_pass d s) x = mem_ks s x \<or> mem_ks (mem_pass d s) x = None" for x
    by (auto simp: mem.pass_ks expire_def [of _ "mem_ks s"] split: option.splits)
  obtain n where n: "counter (mem_ks s) ''__palisade__:fence-allocator'' = Some n" "0 \<le> n" "n \<le> b"
    using assms(1) by (auto simp: ex_node_def)
  have "counter (mem_ks (mem_pass d s)) ''__palisade__:fence-allocator'' = Some n \<or>
      counter (mem_ks (mem_pass d s)) ''__palisade__:fence-allocator'' = Some 0"
    using sub [of "''__palisade__:fence-allocator''"] n(1) by (auto simp: counter_def)
  with n assms(2) have "\<exists>n. counter (mem_ks (mem_pass d s)) ''__palisade__:fence-allocator'' = Some n \<and> 0 \<le> n \<and> n \<le> b"
    by (elim disjE) simp_all
  moreover have "mem_ks (mem_pass d s) x = Some e \<Longrightarrow> mem_ks s x = Some e" for x e using sub [of x] by auto
  moreover have "fst (mem_pass d s) = c + d" using assms(1) by (simp add: mem.pass_clock ex_node_def)
  ultimately show ?thesis using assms(1) unfolding ex_node_def by blast
qed

lemma ex_node_mono: "ex_node c b s \<Longrightarrow> b \<le> b' \<Longrightarrow> ex_node c b' s"
  unfolding ex_node_def by force

lemma ex_node_init: "ex_node 0 0 mem_init"
  by (simp add: ex_node_def mem_init_def mem_ks_def expire_def counter_def)

lemma ex_node_acquire: "ex_node 0 0 (snd (node_acquire mem_exec ''k'' ''t'' (lo_ttl default_options) mem_init))"
proof -
  have free: "mem_ks mem_init = Map.empty" "fst mem_init = 0" by (auto simp: mem_ks_def mem_init_def expire_def)
  have args: "ttl_arg (lo_ttl default_options) = show_nat 30000" "fence_ttl_arg (lo_ttl default_options) = show_nat 300000"
    by (simp_all add: ttl_arg_eq fence_ttl_arg_eq default_options_def from_secs_def as_millis_def)
  have "mem_ks (snd (node_acquire mem_exec ''k'' ''t'' (lo_ttl default_options) mem_init)) =
      (mem_ks mem_init)(''k'' \<mapsto> (VStr ''t'', Some (fst mem_init + 30000)), fence_key_for ''k'' \<mapsto> (VStr (show_int (0 + 1)), Some (fst mem_init + 300000)))"
    unfolding node_acquire_def args
    by (rule mem.acquire_free(2)) (simp_all add: free counter_def ttl_ok_def)
  then show ?thesis
    by (auto simp: ex_node_def free node_acquire_def mem.script_clock fence_key_for_def counter_def show_int_def show_nat.simps digit_def)
qed

lemma ex_node_incr:
  assumes "ex_node c b s" "b < i64_max"
  shows "is_ok (fst (lcall mem_exec (INCR ''__palisade__:fence-allocator'') s))"
    and "ex_node c (b + 1) (snd (lcall mem_exec (INCR ''__palisade__:fence-allocator'') s))"
proof -
  let ?c = "INCR ''__palisade__:fence-allocator''"
  obtain n where n: "counter (mem_ks s) ''__palisade__:fence-allocator'' = Some n" "0 \<le> n" "n \<le> b"
    using assms(1) by (auto simp: ex_node_def)
  note step = doc_incr [OF n(1), of "fst s"]
  show "is_ok (fst (lcall mem_exec ?c s))" using step n(3) assms(2) by (simp add: mem.fst_lcall)
  have "mem_ks (snd (lcall mem_exec ?c s)) = (mem_ks s)(''__palisade__:fence-allocator'' \<mapsto>
      (VStr (show_int (n + 1)), key_expiry (mem_ks s) ''__palisade__:fence-allocator''))"
    using step n(3) assms(2) by (simp add: mem.ks_lcall)
  with assms n show "ex_node c (b + 1) (snd (lcall mem_exec ?c s))"
    by (auto simp: ex_node_def mem.clock_lcall fence_key_for_def counter_str)
qed

lemma ex_node_free_again:
  assumes "ex_node c b s" "30000 \<le> c" "c \<le> 1000000"
  shows "node_free mem_ks fst ''k'' (lo_ttl default_options) s"
proof -
  have "live c (mem_ks s)" using mem.ks_live [of s] assms(1) by (simp add: ex_node_def)
  with assms(1,2) have none: "mem_ks s ''k'' = None" by (cases "mem_ks s ''k''") (fastforce simp: ex_node_def live_def)+
  have "\<exists>n < i64_max. counter (mem_ks s) (fence_key_for ''k'') = Some n"
  proof (cases "mem_ks s (fence_key_for ''k'')")
    case (Some e)
    with assms(1) have "fst e = VStr (show_nat 1)" by (simp add: ex_node_def show_nat.simps digit_def)
    with Some show ?thesis using redis_int_show_nat [of 1] by (cases e) (simp add: counter_def)
  qed (simp add: counter_def)
  then show ?thesis
    using none assms by (simp add: node_free_def lease_ok_def ex_node_def default_options_def MIN_TTL_def from_secs_def from_millis_def as_millis_def)
qed

lemma ex_ring7_simps: "rm_nodes ex_ring7 = 7" "rm_quorum ex_ring7 = 4"
  by (simp_all add: ex_ring7_def)

lemma ex_ring7_connect: "redlock_connect (\<lambda>_. Connected) (redlock_config_new (replicate 7 ''n'')) = Inr ex_ring7"
  by (simp add: redlock_connect_def redlock_config_new_def redlock_validate_def ex_ring7_def trim_empty_def)
    (simp add: numeral_eq_Suc)

lemma ex_times:
  "MIN_TTL \<le> lo_ttl default_options" "round_in_budget (rr_elapsed ex_slow) (lo_ttl default_options)"
  "round_in_budget (rr_elapsed ex_quick) (lo_ttl default_options)" "from_millis 8000 < lo_ttl default_options div RENEWAL_DIVISOR"
  by (simp_all add: round_in_budget_complete default_options_def MIN_TTL_def from_secs_def from_millis_def ex_slow_def ex_quick_def
      ex_rround_def RENEWAL_DIVISOR_def)

lemma ex_slow_granted:
  obtains f us where "redlock_try_lock mem_exec ex_ring7 ''k'' default_options ex_slow (replicate 7 mem_init) =
      (Inr (make_handle ''k'' ''t'' f (lo_ttl default_options)), us)" "length us = 7" "\<forall>j < 7. ex_node 22500 1 (us ! j)"
proof -
  let ?incr = "lcall mem_exec (INCR ''__palisade__:fence-allocator'')" and ?ttl = "lo_ttl default_options"
  define ws where "ws = rr_before_fence ex_slow (fold (rr_before ex_slow) [4..<rm_nodes ex_ring7] (map (\<lambda>j. if j < 4
    then snd (node_acquire mem_exec ''k'' (rr_token ex_slow) ?ttl (replicate 7 mem_init ! j)) else replicate 7 mem_init ! j) [0..<rm_nodes ex_ring7]))"
  have "ws = map (\<lambda>j. mem_pass 7500 (mem_pass 7500 (mem_pass 7500 (if j < 4 then snd (node_acquire mem_exec ''k'' ''t'' ?ttl mem_init) else mem_init)))) [0..<7]"
    unfolding ws_def ex_ring7_simps by (simp add: ex_slow_def upt_rec)
  moreover have three: "ex_node 22500 0 (mem_pass 7500 (mem_pass 7500 (mem_pass 7500 s)))" if "ex_node 0 0 s" for s
    using ex_node_pass [OF that, of 7500] ex_node_pass [of 7500 0 _ 7500] ex_node_pass [of 15000 0 _ 7500] by simp
  ultimately have ws: "length ws = 7" "\<forall>j < 7. ex_node 22500 0 (ws ! j)"
    using three [OF ex_node_acquire] three [OF ex_node_init] by auto
  from ex_node_incr(1) [of 22500 0 "ws ! 0"] ws(2) obtain v where v: "fst (?incr (ws ! 0)) = Inr v"
    by (auto simp: is_ok_def split: sum.splits)
  define us where "us = ws[0 := snd (?incr (ws ! 0))]"
  have "redlock_try_lock mem_exec ex_ring7 ''k'' default_options ex_slow (replicate 7 mem_init) =
      (Inr (make_handle ''k'' (rr_token ex_slow) (FencingToken (of_int (rint v))) ?ttl), us)"
    unfolding us_def
    by (rule mem.redlock_grant [OF _ _ _ _ _ ex_times(2,1) ws_def _ v])
      (simp_all add: ex_ring7_simps ex_slow_def ex_node_free nth_replicate)
  moreover have "ex_node 22500 1 (us ! j)" if "j < 7" for j
  proof (cases "j = 0")
    case True
    with ws ex_node_incr(2) [of 22500 0 "ws ! 0"] show ?thesis by (simp add: us_def)
  next
    case False
    with ws that ex_node_mono [of 22500 0 "ws ! j" 1] show ?thesis by (simp add: us_def)
  qed
  moreover have "length us = 7" "rr_token ex_slow = ''t''" using ws(1) by (simp_all add: us_def ex_slow_def)
  ultimately show ?thesis by (intro that [of _ us]) simp_all
qed

lemma ex_quick_granted:
  assumes ss: "length ss = 7" "\<forall>j < 7. ex_node 30500 1 (ss ! j)"
  shows "\<exists>f vs. redlock_try_lock mem_exec ex_ring7 ''k'' default_options ex_quick ss =
    (Inr (make_handle ''k'' ''u'' f (lo_ttl default_options)), vs)"
proof -
  let ?ttl = "lo_ttl default_options" and ?a = "''__palisade__:fence-allocator''"
  define xs where "xs = rr_before_fence ex_quick (fold (rr_before ex_quick) [7..<rm_nodes ex_ring7] (map (\<lambda>j. if j < 7
    then snd (node_acquire mem_exec ''k'' (rr_token ex_quick) ?ttl (ss ! j)) else ss ! j) [0..<rm_nodes ex_ring7]))"
  have "xs ! 0 = snd (node_acquire mem_exec ''k'' ''u'' ?ttl (ss ! 0))"
    unfolding xs_def ex_ring7_simps by (simp add: ex_quick_def ex_rround_def upt_rec)
  moreover have "mem_ks (snd (node_acquire mem_exec ''k'' ''u'' ?ttl (ss ! 0))) ?a = mem_ks (ss ! 0) ?a"
    unfolding node_acquire_def by (rule mem.acquire_frame) (simp_all add: fence_key_for_def)
  moreover obtain n where n: "counter (mem_ks (ss ! 0)) ?a = Some n" "n \<le> 1"
    using ss(2) [rule_format, of 0] by (auto simp: ex_node_def)
  ultimately have "counter (mem_ks (xs ! 0)) ?a = Some n" by (simp add: counter_def)
  from doc_incr [OF this] n(2) have w: "fst (lcall mem_exec (INCR ?a) (xs ! 0)) = Inr (RInt (n + 1))" by (simp add: mem.fst_lcall)
  have "redlock_try_lock mem_exec ex_ring7 ''k'' default_options ex_quick ss =
      (Inr (make_handle ''k'' (rr_token ex_quick) (FencingToken (of_int (rint (RInt (n + 1))))) ?ttl), xs[0 := snd (lcall mem_exec (INCR ?a) (xs ! 0))])"
    by (rule mem.redlock_grant [OF _ _ _ _ _ ex_times(3,1) xs_def _ w])
      (use ss ex_node_free_again [of 30500 1] in \<open>auto simp: ex_ring7_simps ex_quick_def ex_rround_def\<close>)
  then show ?thesis by (auto simp: ex_quick_def)
qed

text \<open>A grant can outlive its validity unnoticed. The first client's round is granted, within the budget of the code; eight seconds
  later, less than the third of the lease after which its watchdog first renews, a second client is granted the same
  key, and the first handle is neither released nor marked as lost.\<close>

theorem redlock_validity_unnoticed:
  "\<exists>h1 us h2 vs.
     redlock_try_lock mem_exec ex_ring7 ''k'' default_options ex_slow (replicate 7 mem_init) = (Inr h1, us) \<and>
     redlock_try_lock mem_exec ex_ring7 ''k'' default_options ex_quick (map (mem_pass 8000) us) = (Inr h2, vs) \<and>
     from_millis 8000 < lo_ttl default_options div RENEWAL_DIVISOR \<and>
     rs_token h1 \<noteq> rs_token h2 \<and> \<not> rs_gone h1 \<and> \<not> rs_poisoned h1 \<and> \<not> rs_lost h1"
proof (rule ex_slow_granted)
  fix f us
  assume one: "redlock_try_lock mem_exec ex_ring7 ''k'' default_options ex_slow (replicate 7 mem_init) =
      (Inr (make_handle ''k'' ''t'' f (lo_ttl default_options)), us)" and us: "length us = 7" "\<forall>j < 7. ex_node 22500 1 (us ! j)"
  have "\<forall>j < 7. ex_node 30500 1 (map (mem_pass 8000) us ! j)" using us ex_node_pass [of 22500 1 _ 8000] by simp
  from ex_quick_granted [OF _ this] us(1) obtain f' vs where
    "redlock_try_lock mem_exec ex_ring7 ''k'' default_options ex_quick (map (mem_pass 8000) us) =
      (Inr (make_handle ''k'' ''u'' f' (lo_ttl default_options)), vs)" by auto
  with one ex_times(4) show ?thesis by (simp add: make_handle_def)
qed

end
