(* ===== verification/Auth.thy ===== *)
theory Auth
  imports Core "HOL-Library.Sublist" "HOL-Library.Multiset"
begin

text \<open>
  Authorization of the server (\<^verbatim>\<open>crates/server/src/auth.rs\<close>): principals with key prefixes,
  permissions and quotas, and how a request's principal is resolved.

  Clones of a principal share its watcher counter. The counters live in an explicit store indexed
  by the bearer token whose principal owns the cell; the anonymous principal of open mode has a
  cell of its own per request. Reading JSON is library code and a parameter. A hash map is the list
  of its entries in the order it happens to iterate.
\<close>

section \<open>Responses\<close>

datatype Status =
    Unavailable string
  | Unauthenticated string
  | PermissionDenied string
  | ResourceExhausted string
  | InvalidArgument string
  | NotFound string
  | Internal string

type_synonym 'a response = "Status + 'a"

section \<open>Principals\<close>

record PrincipalConfig =
  pc_name :: string
  pc_token :: string
  key_prefixes :: "string list"
  can_lock :: bool
  can_unlock :: bool
  can_extend :: bool
  can_watch :: bool
  can_admin :: bool
  pc_max_keys :: u32
  max_watchers :: u32

datatype AuthMode = File | TrustedHeader

datatype cell = Shared string | Own

record Principal =
  pr_name :: string
  pr_cfg :: PrincipalConfig
  pr_held_keys :: u64
  pr_watchers :: cell

type_synonym watchers = "string \<Rightarrow> u64"

definition default_true :: bool where
  "default_true = True"

definition read_cell :: "watchers \<Rightarrow> cell \<Rightarrow> u64" where
  "read_cell w c = (case c of Shared t \<Rightarrow> w t | Own \<Rightarrow> 0)"

definition write_cell :: "watchers \<Rightarrow> cell \<Rightarrow> u64 \<Rightarrow> watchers" where
  "write_cell w c n = (case c of Shared t \<Rightarrow> w(t := n) | Own \<Rightarrow> w)"

definition may :: "Principal \<Rightarrow> string \<Rightarrow> bool \<Rightarrow> unit response" where
  "may p key allowed =
     (if \<exists>x \<in> set (key_prefixes (pr_cfg p)). prefix x key then
        (if allowed then Inr ()
         else Inl (PermissionDenied (''principal `'' @ pr_name p @ ''` lacks permission for `'' @ key @ ''`'')))
      else Inl (PermissionDenied (''principal `'' @ pr_name p @
        ''` may not touch keys outside its prefixes (`'' @ key @ ''`)'')))"

definition check_lock :: "Principal \<Rightarrow> string \<Rightarrow> unit response" where
  "check_lock p key =
     rbind (may p key (can_lock (pr_cfg p))) (\<lambda>_.
     let max = pc_max_keys (pr_cfg p) in
     if 0 < max \<and> ucast max \<le> pr_held_keys p
     then Inl (ResourceExhausted (''principal `'' @ pr_name p @ ''` hit max_keys='' @ show_nat (unat max)))
     else Inr ())"

definition check_unlock :: "Principal \<Rightarrow> string \<Rightarrow> unit response" where
  "check_unlock p key = may p key (can_unlock (pr_cfg p))"

definition check_extend :: "Principal \<Rightarrow> string \<Rightarrow> unit response" where
  "check_extend p key = may p key (can_extend (pr_cfg p))"

text \<open>\<open>fetch_add\<close> then undo when the quota is exceeded. A success is the guard, which is
  the cell it will decrement.\<close>

definition check_watch :: "Principal \<Rightarrow> string \<Rightarrow> watchers \<Rightarrow> cell response \<times> watchers" where
  "check_watch p key w =
     (case may p key (can_watch (pr_cfg p)) of
        Inl e \<Rightarrow> (Inl e, w)
      | Inr _ \<Rightarrow>
          let max = max_watchers (pr_cfg p); c = pr_watchers p; prev = read_cell w c;
              w1 = write_cell w c (prev + 1) in
          if 0 < max \<and> ucast max \<le> prev
          then (Inl (ResourceExhausted (''principal `'' @ pr_name p @ ''` hit max_watchers='' @ show_nat (unat max))),
                write_cell w1 c (read_cell w1 c - 1))
          else (Inr c, w1))"

definition guard_drop :: "cell \<Rightarrow> watchers \<Rightarrow> watchers" where
  "guard_drop c w = write_cell w c (read_cell w c - 1)"

definition check_admin :: "Principal \<Rightarrow> string \<Rightarrow> unit response" where
  "check_admin p key = may p key (can_admin (pr_cfg p))"

definition max_keys :: "Principal \<Rightarrow> u32" where
  "max_keys p = pc_max_keys (pr_cfg p)"

definition note_watcher_denial :: "Principal \<Rightarrow> watchers \<Rightarrow> watchers" where
  "note_watcher_denial p w = write_cell w (pr_watchers p) (read_cell w (pr_watchers p) - 1)"

section \<open>Access control lists\<close>

record Acl =
  acl_open :: bool
  by_token :: "(string \<times> Principal) list"
  acl_mode :: AuthMode

definition make_principal :: "cell \<Rightarrow> PrincipalConfig \<Rightarrow> Principal" where
  "make_principal c cfg = \<lparr>pr_name = pc_name cfg, pr_cfg = cfg, pr_held_keys = 0, pr_watchers = c\<rparr>"

definition by_name :: "Acl \<Rightarrow> string \<Rightarrow> Principal option" where
  "by_name a name = find (\<lambda>p. pr_name p = name) (map snd (by_token a))"

definition acl_open_mode :: Acl where
  "acl_open_mode = \<lparr>acl_open = True, by_token = [], acl_mode = File\<rparr>"

definition with_mode :: "AuthMode \<Rightarrow> Acl \<Rightarrow> Acl" where
  "with_mode m a = a\<lparr>acl_mode := m\<rparr>"

fun load_principals :: "PrincipalConfig list \<Rightarrow> (string \<times> Principal) list \<Rightarrow> (string \<times> Principal) list result" where
  "load_principals [] m = Inr m"
| "load_principals (cfg # cfgs) m =
     (if pc_token cfg = [] then Inl (InvalidConfig (''principal `'' @ pc_name cfg @ ''` has empty token''))
      else load_principals cfgs (AList.update (pc_token cfg) (make_principal (Shared (pc_token cfg)) cfg) m))"

definition acl_from_json :: "(string \<Rightarrow> PrincipalConfig list option) \<Rightarrow> string \<Rightarrow> Acl result" where
  "acl_from_json parse json =
     (case parse json of
        None \<Rightarrow> Inl (InvalidConfig ''bad acl json'')
      | Some cfgs \<Rightarrow> rbind (load_principals cfgs []) (\<lambda>m.
          Inr \<lparr>acl_open = False, by_token = m, acl_mode = File\<rparr>))"

definition acl_load_file ::
  "(string \<Rightarrow> string option) \<Rightarrow> (string \<Rightarrow> PrincipalConfig list option) \<Rightarrow> string \<Rightarrow> Acl result" where
  "acl_load_file read parse path =
     (case read path of
        None \<Rightarrow> Inl (InvalidConfig (''cannot read acl file '' @ path))
      | Some json \<Rightarrow> acl_from_json parse json)"

definition anonymous :: PrincipalConfig where
  "anonymous = \<lparr>pc_name = ''anonymous'', pc_token = [], key_prefixes = [[]], can_lock = True, can_unlock = True,
     can_extend = True, can_watch = True, can_admin = True, pc_max_keys = 0, max_watchers = 0\<rparr>"

definition strip_prefix :: "string \<Rightarrow> string \<Rightarrow> string option" where
  "strip_prefix p s = (if prefix p s then Some (drop (length p) s) else None)"

definition resolve_with_header :: "Acl \<Rightarrow> string option \<Rightarrow> string option \<Rightarrow> Principal response" where
  "resolve_with_header a bearer principal_hdr =
     (if acl_mode a = TrustedHeader then
        (case principal_hdr of
           None \<Rightarrow> Inl (Unauthenticated ''missing x-palisade-principal header'')
         | Some name \<Rightarrow> (case by_name a name of
             None \<Rightarrow> Inl (Unauthenticated ''unknown principal'')
           | Some p \<Rightarrow> Inr p))
      else if acl_open a then Inr (make_principal Own anonymous)
      else case Option.bind bearer (strip_prefix ''Bearer '') of
          None \<Rightarrow> Inl (Unauthenticated ''missing authorization: Bearer <token>'')
        | Some token \<Rightarrow> (case map_of (by_token a) token of
            None \<Rightarrow> Inl (Unauthenticated ''unknown bearer token'')
          | Some p \<Rightarrow> Inr p))"

definition acl_resolve :: "Acl \<Rightarrow> string option \<Rightarrow> Principal response" where
  "acl_resolve a bearer = resolve_with_header a bearer None"

section \<open>Resolution and permission\<close>

lemma may_ok_iff: "may p key allowed = Inr () \<longleftrightarrow> (\<exists>x \<in> set (key_prefixes (pr_cfg p)). prefix x key) \<and> allowed"
  by (auto simp: may_def)

lemma check_lock_held: "check_lock p key = Inr () \<Longrightarrow> may p key (can_lock (pr_cfg p)) = Inr ()"
  by (auto simp: check_lock_def rbind_def split: sum.splits)

lemma check_watch_unchanged: "fst (check_watch p key w) = Inl e \<Longrightarrow> snd (check_watch p key w) = w"
  by (cases "pr_watchers p")
    (auto simp: check_watch_def Let_def read_cell_def write_cell_def split: sum.splits if_splits)

text \<open>Every principal of a loaded list owns the cell of its token.\<close>

lemma load_principals_cells:
  assumes "load_principals cfgs m = Inr m'" "\<forall>(t, p) \<in> set m. pr_watchers p = Shared t" "distinct (map fst m)"
  shows "(\<forall>(t, p) \<in> set m'. pr_watchers p = Shared t) \<and> distinct (map fst m')"
  using assms
proof (induction cfgs arbitrary: m)
  case (Cons cfg cfgs)
  let ?m = "AList.update (pc_token cfg) (make_principal (Shared (pc_token cfg)) cfg) m"
  have "\<forall>(t, p) \<in> set ?m. pr_watchers p = Shared t"
    using Cons.prems(2) set_update_subset [of "pc_token cfg" "make_principal (Shared (pc_token cfg)) cfg" m]
    by (fastforce simp: make_principal_def)
  with Cons show ?case by (auto simp: distinct_update split: if_splits)
qed simp

lemma acl_from_json_loaded:
  assumes "acl_from_json parse json = Inr a"
  obtains cfgs where "load_principals cfgs [] = Inr (by_token a)" "\<not> acl_open a" "acl_mode a = File"
  using assms by (auto simp: acl_from_json_def rbind_def split: option.splits sum.splits)

lemma acl_cells:
  assumes "acl_from_json parse json = Inr a"
  shows "\<forall>(t, p) \<in> set (by_token a). pr_watchers p = Shared t" "distinct (map fst (by_token a))"
proof -
  obtain cfgs where "load_principals cfgs [] = Inr (by_token a)" using acl_from_json_loaded [OF assms] .
  from load_principals_cells [OF this]
  show "\<forall>(t, p) \<in> set (by_token a). pr_watchers p = Shared t" "distinct (map fst (by_token a))" by simp_all
qed

lemma resolved_cell:
  assumes "acl_from_json parse json = Inr a" "resolve_with_header (with_mode m a) b h = Inr p"
  obtains t where "map_of (by_token a) t = Some p" "pr_watchers p = Shared t"
proof -
  have "\<not> acl_open a" using acl_from_json_loaded [OF assms(1)] .
  then have "(\<exists>n. find (\<lambda>p. pr_name p = n) (map snd (by_token a)) = Some p) \<or> (\<exists>t. map_of (by_token a) t = Some p)"
    using assms(2) by (auto simp: resolve_with_header_def with_mode_def by_name_def split: if_splits option.splits)
  then have "p \<in> set (map snd (by_token a))"
  proof
    assume "\<exists>n. find (\<lambda>p. pr_name p = n) (map snd (by_token a)) = Some p"
    then show ?thesis unfolding find_Some_iff by (metis nth_mem)
  next
    assume "\<exists>t. map_of (by_token a) t = Some p"
    then show ?thesis using map_of_SomeD by force
  qed
  then obtain t where t: "(t, p) \<in> set (by_token a)" by auto
  with acl_cells [OF assms(1)] show ?thesis by (intro that) auto
qed

section \<open>Watcher quotas\<close>

text \<open>Requests come and go: a watch request takes a slot or is refused, and a finished watcher
  returns its slot.\<close>

inductive watch_reach :: "Acl \<Rightarrow> watchers \<Rightarrow> cell multiset \<Rightarrow> bool" for a where
  start: "watch_reach a (\<lambda>_. 0) {#}"
| opened: "watch_reach a w gs \<Longrightarrow> resolve_with_header a b h = Inr p \<Longrightarrow> check_watch p key w = (Inr c, w') \<Longrightarrow>
    watch_reach a w' (add_mset c gs)"
| refused: "watch_reach a w gs \<Longrightarrow> resolve_with_header a b h = Inr p \<Longrightarrow> check_watch p key w = (Inl e, w') \<Longrightarrow>
    watch_reach a w' gs"
| closed: "watch_reach a w gs \<Longrightarrow> c \<in># gs \<Longrightarrow> watch_reach a (guard_drop c w) (gs - {#c#})"

lemma check_watch_ok:
  assumes "check_watch p key w = (Inr c, w')"
  shows "c = pr_watchers p" "w' = write_cell w c (read_cell w c + 1)"
    "0 < max_watchers (pr_cfg p) \<Longrightarrow> read_cell w c < ucast (max_watchers (pr_cfg p))"
  using assms by (auto simp: check_watch_def Let_def split: sum.splits if_splits)

text \<open>Watcher quotas are exact. In every state a server with a loaded access list can
  reach by opening, refusing and closing watchers, a principal's counter is the number of its
  live watchers, and with a quota set that number is at most the quota.\<close>

theorem watch_quota:
  assumes acl: "acl_from_json parse json = Inr a"
    and reach: "watch_reach (with_mode m a) w gs"
    and p: "map_of (by_token a) t = Some p"
  shows "w t = of_nat (count gs (Shared t)) \<and>
    (0 < max_watchers (pr_cfg p) \<longrightarrow> count gs (Shared t) \<le> unat (max_watchers (pr_cfg p)))"
  using reach
proof (induction rule: watch_reach.induct)
  case (opened w gs b h q key c w')
  obtain u where u: "map_of (by_token a) u = Some q" "pr_watchers q = Shared u"
    using resolved_cell [OF acl opened.hyps(2)] .
  note ok = check_watch_ok [OF opened.hyps(3)]
  show ?case
  proof (cases "u = t")
    case True
    with u p have q: "q = p" by simp
    have "count gs (Shared t) < unat (max_watchers (pr_cfg p))" if "0 < max_watchers (pr_cfg p)"
    proof -
      have "count gs (Shared t) \<le> unat (max_watchers (pr_cfg p))" using opened.IH that by blast
      moreover have "unat (max_watchers (pr_cfg p)) < 2 ^ 32" by (rule unat_u32_less)
      ultimately have "unat (of_nat (count gs (Shared t)) :: u64) = count gs (Shared t)" by (simp add: unat_of_nat)
      moreover have "w t < ucast (max_watchers (pr_cfg p))"
        using ok(3) that u(2) True ok(1) q by (simp add: read_cell_def)
      ultimately show ?thesis using opened.IH by (simp add: word_less_nat_alt)
    qed
    with opened.IH ok(1,2) u(2) True show ?thesis by (auto simp: write_cell_def read_cell_def)
  next
    case False
    with opened.IH ok(1,2) u(2) show ?thesis by (simp add: write_cell_def)
  qed
next
  case (refused w gs b h q key e w')
  with check_watch_unchanged [of q key w e] show ?case by simp
next
  case (closed w gs c)
  then have pos: "0 < count gs c" by simp
  with closed.IH show ?case
    by (cases c) (auto simp: guard_drop_def write_cell_def read_cell_def of_nat_diff Suc_le_eq)
qed simp

text \<open>Who a request is. With a loaded list in bearer mode, a request resolves exactly
  when its header is \<^verbatim>\<open>Bearer\<close> followed by a listed token, and then to that token's principal;
  without a header argument, the trusted-header mode refuses every request; open mode resolves
  every request to a principal that may do anything.\<close>

theorem acl_resolution:
  assumes "acl_from_json parse json = Inr a"
  shows "(acl_resolve a bearer = Inr p \<longleftrightarrow>
      (\<exists>t. bearer = Some (''Bearer '' @ t) \<and> map_of (by_token a) t = Some p)) \<and>
    (\<exists>e. acl_resolve (with_mode TrustedHeader a) bearer = Inl (Unauthenticated e)) \<and>
    (acl_resolve acl_open_mode bearer = Inr (make_principal Own anonymous) \<and>
      may (make_principal Own anonymous) key True = Inr ())"
proof (intro conjI)
  have a: "\<not> acl_open a" "acl_mode a = File" using acl_from_json_loaded [OF assms] by blast+
  show "acl_resolve a bearer = Inr p \<longleftrightarrow> (\<exists>t. bearer = Some (''Bearer '' @ t) \<and> map_of (by_token a) t = Some p)"
    using a by (cases bearer)
      (auto simp: acl_resolve_def resolve_with_header_def strip_prefix_def prefix_def split: option.splits)
qed (simp_all add: acl_resolve_def resolve_with_header_def with_mode_def acl_open_mode_def may_def
    make_principal_def anonymous_def)

text \<open>A list with one principal that may watch once.\<close>

definition ex_principal :: PrincipalConfig where
  "ex_principal = anonymous\<lparr>pc_name := ''ci'', pc_token := ''s3cret'', key_prefixes := [''ci/''], max_watchers := 1\<rparr>"

definition ex_acl :: Acl where
  "ex_acl = \<lparr>acl_open = False,
     by_token = [(''s3cret'', make_principal (Shared ''s3cret'') ex_principal)], acl_mode = File\<rparr>"

lemma ex_acl_loaded: "acl_from_json (\<lambda>_. Some [ex_principal]) [] = Inr ex_acl"
  by (simp add: acl_from_json_def ex_principal_def ex_acl_def)

lemma ex_acl_mode: "with_mode File ex_acl = ex_acl"
  by (simp add: with_mode_def ex_acl_def)

theorem watch_quota_witness:
  "\<exists>w. watch_reach ex_acl w {#Shared ''s3cret''#} \<and> w ''s3cret'' = 1 \<and>
     count {#Shared ''s3cret''#} (Shared ''s3cret'') \<le> unat (max_watchers ex_principal)"
proof -
  let ?p = "make_principal (Shared ''s3cret'') ex_principal"
  have p: "resolve_with_header ex_acl (Some ''Bearer s3cret'') None = Inr ?p"
    by (simp add: resolve_with_header_def ex_acl_def strip_prefix_def)
  have c: "check_watch ?p ''ci/x'' (\<lambda>_. 0) = (Inr (Shared ''s3cret''), (\<lambda>_. 0)(''s3cret'' := 1))"
    by (simp add: check_watch_def may_def make_principal_def ex_principal_def anonymous_def read_cell_def write_cell_def)
  have r: "watch_reach ex_acl ((\<lambda>_. 0)(''s3cret'' := 1)) {#Shared ''s3cret''#}"
    by (rule watch_reach.opened [OF watch_reach.start p c])
  then have "watch_reach (with_mode File ex_acl) ((\<lambda>_. 0)(''s3cret'' := 1)) {#Shared ''s3cret''#}"
    by (simp only: ex_acl_mode)
  from watch_quota [OF ex_acl_loaded this, of "''s3cret''" ?p] r show ?thesis
    by (auto simp: ex_acl_def make_principal_def ex_principal_def)
qed

theorem acl_resolution_witness:
  "acl_resolve ex_acl (Some ''Bearer s3cret'') = Inr (make_principal (Shared ''s3cret'') ex_principal) \<and>
   acl_resolve ex_acl (Some ''Basic s3cret'') \<noteq> Inr (make_principal (Shared ''s3cret'') ex_principal) \<and>
   (\<exists>e. acl_resolve (with_mode TrustedHeader ex_acl) (Some ''Bearer s3cret'') = Inl (Unauthenticated e))"
  using acl_resolution [OF ex_acl_loaded, of "Some ''Bearer s3cret''" "make_principal (Shared ''s3cret'') ex_principal"]
    acl_resolution [OF ex_acl_loaded, of "Some ''Basic s3cret''" "make_principal (Shared ''s3cret'') ex_principal"]
  by (auto simp: ex_acl_def)

end
