(* ===== verification/Registry.thy ===== *)
theory Registry
  imports Core
begin

text \<open>
  The ownership registry behind the key quotas (\<^verbatim>\<open>crates/server/src/registry.rs\<close>): which principal
  holds which key, and how many keys each principal holds. The contract its clients rely on is the
  locale \<open>quota_ledger\<close>; the registry implements it.
\<close>

section \<open>Operations\<close>

record HeldRegistry =
  reg_holders :: "string \<Rightarrow> string option"
  reg_counts :: "string \<Rightarrow> nat option"

definition registry_new :: HeldRegistry where
  "registry_new = \<lparr>reg_holders = Map.empty, reg_counts = Map.empty\<rparr>"

definition reg_count :: "HeldRegistry \<Rightarrow> string \<Rightarrow> nat" where
  "reg_count r p = (case reg_counts r p of None \<Rightarrow> 0 | Some n \<Rightarrow> n)"

definition registry_try_acquire :: "string \<Rightarrow> string \<Rightarrow> u32 \<Rightarrow> HeldRegistry \<Rightarrow> bool \<times> HeldRegistry" where
  "registry_try_acquire key who mx r =
     (if reg_holders r key \<noteq> None then (True, r)
      else if 0 < unat mx \<and> unat mx \<le> reg_count r who then (False, r)
      else (True, r\<lparr>reg_holders := (reg_holders r)(key \<mapsto> who),
                    reg_counts := (reg_counts r)(who \<mapsto> reg_count r who + 1)\<rparr>))"

definition registry_release :: "string \<Rightarrow> HeldRegistry \<Rightarrow> string option \<times> HeldRegistry" where
  "registry_release key r =
     (case reg_holders r key of
        None \<Rightarrow> (None, r)
      | Some owner \<Rightarrow>
          let r' = r\<lparr>reg_holders := (reg_holders r)(key := None)\<rparr> in
          (case reg_counts r owner of
             None \<Rightarrow> (None, r')
           | Some n \<Rightarrow> (Some owner, r'\<lparr>reg_counts := (reg_counts r)(owner \<mapsto> n - 1)\<rparr>)))"

section \<open>The contract\<close>

datatype ledger_op = Take string string u32 | Give string

fun ledger_run ::
  "(string \<Rightarrow> string \<Rightarrow> u32 \<Rightarrow> 'r \<Rightarrow> bool \<times> 'r) \<Rightarrow> (string \<Rightarrow> 'r \<Rightarrow> string option \<times> 'r) \<Rightarrow> ledger_op list \<Rightarrow> 'r \<Rightarrow> 'r" where
  "ledger_run acquire release [] r = r"
| "ledger_run acquire release (Take k p m # ops) r = ledger_run acquire release ops (snd (acquire k p m r))"
| "ledger_run acquire release (Give k # ops) r = ledger_run acquire release ops (snd (release k r))"

locale quota_ledger =
  fixes acquire :: "string \<Rightarrow> string \<Rightarrow> u32 \<Rightarrow> 'r \<Rightarrow> bool \<times> 'r"
    and release :: "string \<Rightarrow> 'r \<Rightarrow> string option \<times> 'r"
    and owner :: "'r \<Rightarrow> string \<Rightarrow> string option"
    and invar :: "'r \<Rightarrow> bool"
  assumes finite_owned: "invar r \<Longrightarrow> finite (dom (owner r))"
    and acquire_tracked: "invar r \<Longrightarrow> owner r k \<noteq> None \<Longrightarrow> acquire k p m r = (True, r)"
    and acquire_full: "invar r \<Longrightarrow> owner r k = None \<Longrightarrow> 0 < m \<Longrightarrow> unat m \<le> card {x. owner r x = Some p} \<Longrightarrow>
      acquire k p m r = (False, r)"
    and acquire_new: "invar r \<Longrightarrow> owner r k = None \<Longrightarrow> m = 0 \<or> card {x. owner r x = Some p} < unat m \<Longrightarrow>
      fst (acquire k p m r) \<and> invar (snd (acquire k p m r)) \<and>
      owner (snd (acquire k p m r)) = (owner r)(k \<mapsto> p)"
    and release_laws: "invar r \<Longrightarrow> fst (release k r) = owner r k \<and> invar (snd (release k r)) \<and>
      owner (snd (release k r)) = (owner r)(k := None)"
begin

abbreviation held :: "'r \<Rightarrow> string \<Rightarrow> string set" where
  "held r p \<equiv> {x. owner r x = Some p}"

lemma finite_held: "invar r \<Longrightarrow> finite (held r p)"
  by (rule finite_subset [OF _ finite_owned]) auto

text \<open>One acquisition, on every branch.\<close>

lemma acquire_cases:
  assumes "invar r"
  obtains (tracked) "owner r k \<noteq> None" "acquire k p m r = (True, r)"
  | (full) "owner r k = None" "0 < m" "unat m \<le> card (held r p)" "acquire k p m r = (False, r)"
  | (fresh) r' where "owner r k = None" "m = 0 \<or> card (held r p) < unat m" "acquire k p m r = (True, r')" "invar r'"
      "owner r' = (owner r)(k \<mapsto> p)"
proof (cases "owner r k")
  case None
  show ?thesis
  proof (cases "m = 0 \<or> card (held r p) < unat m")
    case True
    with acquire_new [OF assms None, of m p] None show ?thesis
      by (intro fresh [of "snd (acquire k p m r)"]) (auto simp: prod_eq_iff)
  next
    case False
    then have "0 < m" "unat m \<le> card (held r p)" by (auto simp: word_neq_0_conv)
    with acquire_full [OF assms None] None show ?thesis by (intro full) auto
  qed
next
  case (Some q)
  with acquire_tracked [OF assms, of k p m] show ?thesis by (intro tracked) auto
qed

lemma step_invar: "invar r \<Longrightarrow> invar (snd (acquire k p m r))" "invar r \<Longrightarrow> invar (snd (release k r))"
  using release_laws by (auto intro: acquire_cases [of r k p m])

lemma acquire_bound:
  assumes "invar r" "card (held r q) \<le> n" "p = q \<longrightarrow> 0 < m \<and> unat m \<le> n"
  shows "card (held (snd (acquire k p m r)) q) \<le> n"
  using assms(1)
proof (cases rule: acquire_cases [where k = k and p = p and m = m])
  case (fresh r')
  then have "held r' q = (if p = q then insert k (held r q) else held r q)"
    by auto
  with fresh assms finite_held [OF assms(1), of q] show ?thesis
    by (auto simp: card_insert_if split: if_splits)
qed (use assms in simp_all)

lemma release_bound:
  assumes "invar r" "card (held r q) \<le> n"
  shows "card (held (snd (release k r)) q) \<le> n"
proof -
  have "held (snd (release k r)) q \<subseteq> held r q" using release_laws [OF assms(1), of k] by (auto split: if_splits)
  from card_mono [OF finite_held [OF assms(1)] this] assms(2) show ?thesis by simp
qed

text \<open>Over any sequence of operations that presents the same quota for a principal, the
  principal never holds more keys than that.\<close>

lemma run_bound:
  assumes "invar r" "card (held r q) \<le> unat n" "0 < n"
    and "\<forall>op \<in> set ops. case op of Take k p m \<Rightarrow> p = q \<longrightarrow> m = n | Give k \<Rightarrow> True"
  shows "invar (ledger_run acquire release ops r) \<and> card (held (ledger_run acquire release ops r) q) \<le> unat n"
  using assms
proof (induction ops arbitrary: r)
  case (Cons op ops)
  then show ?case
    by (cases op) (auto intro!: Cons.IH acquire_bound release_bound step_invar)
qed simp

end

section \<open>The registry implements it\<close>

definition registry_inv :: "HeldRegistry \<Rightarrow> bool" where
  "registry_inv r \<longleftrightarrow> finite (dom (reg_holders r)) \<and>
     (\<forall>p. reg_count r p = card {k. reg_holders r k = Some p})"

lemma registry_new_inv: "registry_inv registry_new"
  by (simp add: registry_inv_def registry_new_def reg_count_def)

lemma finite_owned_by: "finite (dom m) \<Longrightarrow> finite {k. m k = Some p}"
  by (rule finite_subset [of _ "dom m"]) auto

interpretation registry: quota_ledger registry_try_acquire registry_release reg_holders registry_inv
proof
  fix r k p and m :: u32
  assume inv: "registry_inv r"
  then have fin: "finite (dom (reg_holders r))" and cnt: "\<And>p. reg_count r p = card {k. reg_holders r k = Some p}"
    by (auto simp: registry_inv_def)
  show "finite (dom (reg_holders r))" by (rule fin)
  show "registry_try_acquire k p m r = (True, r)" if "reg_holders r k \<noteq> None"
    using that by (simp add: registry_try_acquire_def)
  show "registry_try_acquire k p m r = (False, r)"
    if "reg_holders r k = None" "0 < m" "unat m \<le> card {x. reg_holders r x = Some p}"
    using that cnt by (simp add: registry_try_acquire_def word_less_nat_alt)
  show "fst (registry_try_acquire k p m r) \<and> registry_inv (snd (registry_try_acquire k p m r)) \<and>
      reg_holders (snd (registry_try_acquire k p m r)) = (reg_holders r)(k \<mapsto> p)"
    if free: "reg_holders r k = None" and room: "m = 0 \<or> card {x. reg_holders r x = Some p} < unat m"
  proof -
    let ?r = "r\<lparr>reg_holders := (reg_holders r)(k \<mapsto> p), reg_counts := (reg_counts r)(p \<mapsto> reg_count r p + 1)\<rparr>"
    have run: "registry_try_acquire k p m r = (True, ?r)"
      using free room cnt by (auto simp: registry_try_acquire_def)
    have "{x. reg_holders ?r x = Some q} = (if q = p then insert k {x. reg_holders r x = Some p} else {x. reg_holders r x = Some q})" for q
      using free by auto
    then have "reg_count ?r q = card {x. reg_holders ?r x = Some q}" for q
      using cnt [of q] free finite_owned_by [OF fin, of p] by (auto simp: reg_count_def)
    with run fin show ?thesis by (simp add: registry_inv_def)
  qed
  show "fst (registry_release k r) = reg_holders r k \<and> registry_inv (snd (registry_release k r)) \<and>
      reg_holders (snd (registry_release k r)) = (reg_holders r)(k := None)"
  proof (cases "reg_holders r k")
    case None
    then show ?thesis using inv by (auto simp: registry_release_def fun_upd_idem)
  next
    case (Some q)
    let ?H = "{x. reg_holders r x = Some q}"
    have pos: "0 < card ?H" using Some finite_owned_by [OF fin, of q] by (auto simp: card_gt_0_iff)
    then obtain n where n: "reg_counts r q = Some n" "n = card ?H"
      using cnt [of q] by (auto simp: reg_count_def split: option.splits)
    let ?r = "r\<lparr>reg_holders := (reg_holders r)(k := None), reg_counts := (reg_counts r)(q \<mapsto> n - 1)\<rparr>"
    have run: "registry_release k r = (Some q, ?r)" using Some n by (simp add: registry_release_def)
    have "{x. reg_holders ?r x = Some p} = (if p = q then ?H - {k} else {x. reg_holders r x = Some p})" for p
      using Some by auto
    then have "reg_count ?r p = card {x. reg_holders ?r x = Some p}" for p
      using cnt [of p] Some n by (auto simp: reg_count_def card_Diff_singleton)
    with run fin Some show ?thesis by (simp add: registry_inv_def)
  qed
qed

text \<open>Property C24. Key quotas hold. Starting from an empty registry and over any sequence of grants
  and releases, every principal's counter is the number of keys registered to it, and a principal
  whose grants all present the same non-zero quota never has more keys registered than that.\<close>

theorem registry_quota:
  assumes "0 < n" "\<forall>op \<in> set ops. case op of Take k p m \<Rightarrow> p = q \<longrightarrow> m = n | Give k \<Rightarrow> True"
  shows "reg_count (ledger_run registry_try_acquire registry_release ops registry_new) q = card {k. reg_holders (ledger_run registry_try_acquire registry_release ops registry_new) k = Some q} \<and>
    reg_count (ledger_run registry_try_acquire registry_release ops registry_new) q \<le> unat n"
proof -
  have "registry_inv (ledger_run registry_try_acquire registry_release ops registry_new) \<and>
      card {k. reg_holders (ledger_run registry_try_acquire registry_release ops registry_new) k = Some q} \<le> unat n"
    using registry.run_bound [OF registry_new_inv _ assms] by (simp add: registry_new_def)
  then show ?thesis by (simp add: registry_inv_def)
qed

theorem registry_quota_witness:
  "reg_count (ledger_run registry_try_acquire registry_release [Take ''a'' ''p'' 1, Take ''b'' ''p'' 1, Give ''a'', Take ''c'' ''p'' 1] registry_new) ''p'' \<le> 1"
  using registry_quota [of 1 "[Take ''a'' ''p'' 1, Take ''b'' ''p'' 1, Give ''a'', Take ''c'' ''p'' 1]" "''p''"] by simp

end
