(* ===== verification/Sessions.thy ===== *)
theory Sessions
  imports Ownership
begin

text \<open>
  Server-authoritative sessions (\<^verbatim>\<open>crates/server/src/sessions.rs\<close>): registration, heartbeats with a
  rate floor, binding of locks, closing, and the sweeper that releases the locks of silent
  sessions.

  The session book is the list of its entries in the order the hash map iterates; instants and
  durations are nanoseconds. The sweeper is asynchronous: it takes a snapshot of the expired
  tokens and then handles them one by one, and requests may run in between, which is what the
  \<open>sweep_env\<close> of a pass describes.
\<close>

section \<open>Operations\<close>

definition SWEEP_INTERVAL :: duration where
  "SWEEP_INTERVAL = from_millis 500"

record SessionEntry =
  se_client :: string
  se_ttl :: duration
  se_last_seen :: nat
  se_hb_floor :: nat
  se_locks :: "(string \<times> string) list"

type_synonym SessionBook = "(string \<times> SessionEntry) list"

datatype HbResult = HbOk | RateLimited | Unknown

definition expired :: "nat \<Rightarrow> SessionEntry \<Rightarrow> bool" where
  "expired now e \<longleftrightarrow> se_ttl e < now - se_last_seen e"

definition session_register :: "string \<Rightarrow> duration \<Rightarrow> string \<Rightarrow> nat \<Rightarrow> nat \<Rightarrow> SessionBook \<Rightarrow> string \<times> SessionBook" where
  "session_register client_id ttl token now now' book =
     (token, AList.update token \<lparr>se_client = client_id, se_ttl = ttl, se_last_seen = now, se_hb_floor = now',
        se_locks = []\<rparr> book)"

definition session_heartbeat :: "string \<Rightarrow> nat \<Rightarrow> SessionBook \<Rightarrow> HbResult \<times> SessionBook" where
  "session_heartbeat token now book =
     (case map_of book token of
        None \<Rightarrow> (Unknown, book)
      | Some e \<Rightarrow>
          if now < se_hb_floor e then (RateLimited, book)
          else (HbOk, AList.update token (e\<lparr>se_hb_floor := now + se_ttl e div 20, se_last_seen := now\<rparr>) book))"

definition session_bind :: "string \<Rightarrow> string \<Rightarrow> string \<Rightarrow> nat \<Rightarrow> SessionBook \<Rightarrow> bool \<times> SessionBook" where
  "session_bind token key lock_token now book =
     (case map_of book token of
        None \<Rightarrow> (False, book)
      | Some e \<Rightarrow> (True, AList.update token
          (e\<lparr>se_last_seen := now, se_locks := se_locks e @ [(key, lock_token)]\<rparr>) book))"

definition session_remove :: "string \<Rightarrow> SessionBook \<Rightarrow> (string \<times> string) list \<times> SessionBook" where
  "session_remove token book =
     ((case map_of book token of None \<Rightarrow> [] | Some e \<Rightarrow> se_locks e), AList.delete token book)"

text \<open>How each unlock call of a release is delivered is a function of the key and the token.\<close>

fun session_release_all ::
  "'s server \<Rightarrow> (string \<times> string \<Rightarrow> delivery) \<Rightarrow> (string \<times> string) list \<Rightarrow> u32 \<Rightarrow> 's \<Rightarrow> u32 \<times> 's" where
  "session_release_all exec d [] n s = (n, s)"
| "session_release_all exec d ((key, lock_token) # locks) n s =
     (case unlock_with_token exec (d (key, lock_token)) key lock_token s of
        (r, t) \<Rightarrow> session_release_all exec d locks (if is_ok r then n + 1 else n) t)"

definition session_close ::
  "'s server \<Rightarrow> (string \<times> string \<Rightarrow> delivery) \<Rightarrow> string \<Rightarrow> SessionBook \<times> 's \<Rightarrow> u32 \<times> SessionBook \<times> 's" where
  "session_close exec d token bs =
     (case session_remove token (fst bs) of
        (locks, book') \<Rightarrow> (case session_release_all exec d locks 0 (snd bs) of (n, t) \<Rightarrow> (n, book', t)))"

record 's sweep_env =
  sw_before :: "string \<Rightarrow> SessionBook \<times> 's \<Rightarrow> SessionBook \<times> 's"
  sw_unlock :: "string \<times> string \<Rightarrow> delivery"

fun sweep_each :: "'s server \<Rightarrow> 's sweep_env \<Rightarrow> string list \<Rightarrow> SessionBook \<times> 's \<Rightarrow> SessionBook \<times> 's" where
  "sweep_each exec v [] bs = bs"
| "sweep_each exec v (token # tokens) bs =
     (let bs1 = sw_before v token bs in
      if map_of (fst bs1) token = None then sweep_each exec v tokens bs1
      else sweep_each exec v tokens (snd (session_close exec (sw_unlock v) token bs1)))"

definition sweep_once :: "'s server \<Rightarrow> 's sweep_env \<Rightarrow> nat \<Rightarrow> SessionBook \<times> 's \<Rightarrow> SessionBook \<times> 's" where
  "sweep_once exec v now bs = sweep_each exec v (map fst (filter (\<lambda>(_, e). expired now e) (fst bs))) bs"

definition session_len :: "SessionBook \<Rightarrow> nat" where
  "session_len book = length book"

section \<open>Releasing bound locks\<close>

context redis_server
begin

lemma unlock_delivered: "snd (unlock_with_token exec Delivered k tok s) = rel_state k tok s"
  by (auto simp: unlock_with_token_def invoke_def split: prod.splits sum.splits)

lemma release_all_ks:
  assumes "d = (\<lambda>_. Delivered)"
  shows "ks (snd (session_release_all exec d locks n s)) k =
    (if \<exists>tok e. (k, tok) \<in> set locks \<and> ks s k = Some (VStr tok, e) then None else ks s k)"
proof (induction locks arbitrary: n s)
  case (Cons l locks)
  obtain k' tok' where l: "l = (k', tok')" by (cases l)
  let ?t = "snd (unlock_with_token exec Delivered k' tok' s)"
  have t: "ks ?t = (if \<exists>e. ks s k' = Some (VStr tok', e) then (ks s)(k' := None) else ks s)"
    by (simp add: unlock_delivered rel_state_ks)
  let ?n = "if is_ok (fst (unlock_with_token exec Delivered k' tok' s)) then n + 1 else n"
  have "session_release_all exec d (l # locks) n s = session_release_all exec d locks ?n ?t"
    by (simp add: l assms split_beta)
  with Cons.IH [of ?n ?t] t show ?case by (auto simp: l)
qed simp

end

section \<open>Sweeping\<close>

text \<open>A pass during which nothing else runs and every unlock is delivered.\<close>

definition quiet_sweep :: "'s sweep_env" where
  "quiet_sweep = \<lparr>sw_before = (\<lambda>_. id), sw_unlock = (\<lambda>_. Delivered)\<rparr>"

definition doomed :: "nat \<Rightarrow> SessionBook \<Rightarrow> (string \<times> string) set" where
  "doomed now book = {l. \<exists>(t, e) \<in> set book. expired now e \<and> l \<in> set (se_locks e)}"

context redis_server
begin

lemma sweep_each_step:
  "sweep_each exec quiet_sweep (u # ts) (book, s) =
     (case map_of book u of
        None \<Rightarrow> sweep_each exec quiet_sweep ts (book, s)
      | Some e \<Rightarrow> sweep_each exec quiet_sweep ts
          (AList.delete u book, snd (session_release_all exec (\<lambda>_. Delivered) (se_locks e) 0 s)))"
  by (simp add: quiet_sweep_def session_close_def session_remove_def split_beta split: option.splits)

lemma sweep_each_book:
  "map_of (fst (sweep_each exec quiet_sweep ts (book, s))) t = (if t \<in> set ts then None else map_of book t)"
proof (induction ts arbitrary: book s)
  case (Cons u ts)
  show ?case unfolding sweep_each_step by (cases "map_of book u") (simp_all add: Cons.IH)
qed simp

definition hit :: "string list \<Rightarrow> SessionBook \<Rightarrow> 's \<Rightarrow> string \<Rightarrow> bool" where
  "hit ts book s k \<longleftrightarrow> (\<exists>t e tok x. t \<in> set ts \<and> map_of book t = Some e \<and> (k, tok) \<in> set (se_locks e) \<and>
     ks s k = Some (VStr tok, x))"

lemma sweep_each_ks:
  "distinct ts \<Longrightarrow> ks (snd (sweep_each exec quiet_sweep ts (book, s))) k = (if hit ts book s k then None else ks s k)"
proof (induction ts arbitrary: book s)
  case (Cons u ts)
  show ?case
  proof (cases "map_of book u")
    case None
    with Cons show ?thesis unfolding sweep_each_step by (auto simp: hit_def)
  next
    case (Some e)
    let ?b = "AList.delete u book" and ?s = "snd (session_release_all exec (\<lambda>_. Delivered) (se_locks e) 0 s)"
    have s: "ks ?s k = (if \<exists>tok x. (k, tok) \<in> set (se_locks e) \<and> ks s k = Some (VStr tok, x) then None else ks s k)"
      by (rule release_all_ks) simp
    have "hit ts ?b ?s k \<longleftrightarrow> hit ts book ?s k" using Cons.prems by (auto simp: hit_def)
    moreover have "hit (u # ts) book s k \<longleftrightarrow> ks ?s k \<noteq> ks s k \<or> hit ts book ?s k"
      using Some s by (auto simp: hit_def)
    moreover have "ks ?s k = None \<or> ks ?s k = ks s k" using s by simp
    moreover have "ks (snd (sweep_each exec quiet_sweep (u # ts) (book, s))) k =
        (if hit ts ?b ?s k then None else ks ?s k)"
      using Cons Some by (simp add: sweep_each_step del: sweep_each.simps(2))
    ultimately show ?thesis by auto
  qed
qed (simp add: hit_def)

end

lemma sweep_tokens:
  assumes "distinct (map fst book)"
  shows "u \<in> set (map fst (filter (\<lambda>(_, e). expired now e) book)) \<longleftrightarrow> (\<exists>e. map_of book u = Some e \<and> expired now e)"
  using assms by (force simp: map_of_eq_Some_iff)

context redis_server
begin

lemma sweep_each_distinct:
  "distinct (map fst book) \<Longrightarrow> distinct (map fst (fst (sweep_each exec quiet_sweep ts (book, s))))"
proof (induction ts arbitrary: book s)
  case (Cons u ts)
  then show ?case unfolding sweep_each_step by (auto simp: AList.distinct_delete split: option.splits)
qed simp

lemma sweep_once_distinct:
  "distinct (map fst book) \<Longrightarrow> distinct (map fst (fst (sweep_once exec quiet_sweep now (book, s))))"
  by (simp add: sweep_once_def sweep_each_distinct)

lemma sweep_once_book:
  assumes "distinct (map fst book)"
  shows "map_of (fst (sweep_once exec quiet_sweep now (book, s))) t =
      (case map_of book t of Some e \<Rightarrow> if expired now e then None else Some e | None \<Rightarrow> None)"
  using sweep_each_book [of "map fst (filter (\<lambda>(_, e). expired now e) book)" book s t] sweep_tokens [OF assms, of t now]
  by (auto simp: sweep_once_def split: option.splits)

end

section \<open>Properties\<close>


definition ex_entry :: SessionEntry where
  "ex_entry = \<lparr>se_client = ''c'', se_ttl = 10, se_last_seen = 0, se_hb_floor = 0, se_locks = [(''k'', ''t'')]\<rparr>"

definition ex_session_srv :: mem where
  "ex_session_srv = (0, [''k'' \<mapsto> (VStr ''t'', None), ''j'' \<mapsto> (VStr ''u'', None)])"


text \<open>A session's life as the server sees it: heartbeats of the client and passes of the
  sweeper.\<close>

datatype session_event = Beat nat | Sweep nat

fun session_run :: "'s server \<Rightarrow> string \<Rightarrow> session_event list \<Rightarrow> SessionBook \<times> 's \<Rightarrow> HbResult list \<times> SessionBook \<times> 's" where
  "session_run exec token [] bs = ([], bs)"
| "session_run exec token (Beat now # evs) bs =
     (let (r, book) = session_heartbeat token now (fst bs); (rs, bs') = session_run exec token evs (book, snd bs)
      in (r # rs, bs'))"
| "session_run exec token (Sweep now # evs) bs = session_run exec token evs (sweep_once exec quiet_sweep now bs)"

text \<open>Heartbeats no closer than the rate floor and no further apart than the budget, sweeps
  whenever.\<close>

fun timely :: "duration \<Rightarrow> nat \<Rightarrow> session_event list \<Rightarrow> bool" where
  "timely ttl seen [] = True"
| "timely ttl seen (Beat now # evs) = (seen + ttl div 20 \<le> now \<and> now \<le> seen + ttl \<and> timely ttl now evs)"
| "timely ttl seen (Sweep now # evs) = (now \<le> seen + ttl \<and> timely ttl seen evs)"

definition same_session :: "SessionEntry \<Rightarrow> SessionEntry \<Rightarrow> bool" where
  "same_session e e' \<longleftrightarrow> se_client e' = se_client e \<and> se_ttl e' = se_ttl e \<and> se_locks e' = se_locks e"

lemma timely_session_kept:
  assumes "redis_server exec ks clock pass" "distinct (map fst book)"
    and "map_of book token = Some e" "timely (se_ttl e) (se_last_seen e) evs"
    and "se_hb_floor e \<le> se_last_seen e + se_ttl e div 20"
  shows "\<exists>e' book' s'. session_run exec token evs (book, s) = (replicate (length (filter (\<lambda>ev. \<exists>t. ev = Beat t) evs)) HbOk, book', s') \<and>
    map_of book' token = Some e' \<and> same_session e e'"
  using assms(2-)
proof (induction evs arbitrary: book s e)
  case Nil
  then show ?case by (simp add: same_session_def)
next
  case (Cons ev evs)
  show ?case
  proof (cases ev)
    case (Beat now)
    let ?e = "e\<lparr>se_hb_floor := now + se_ttl e div 20, se_last_seen := now\<rparr>"
    let ?b = "AList.update token ?e book"
    have hb: "session_heartbeat token now book = (HbOk, ?b)"
      using Cons.prems Beat by (simp add: session_heartbeat_def)
    have "\<exists>e' book' s'. session_run exec token evs (?b, s) = (replicate (length (filter (\<lambda>ev. \<exists>t. ev = Beat t) evs)) HbOk, book', s') \<and>
        map_of book' token = Some e' \<and> same_session ?e e'"
      using Cons.prems Beat by (intro Cons.IH) (auto simp: distinct_update)
    with hb Beat show ?thesis by (auto simp: same_session_def)
  next
    case (Sweep now)
    let ?bs = "sweep_once exec quiet_sweep now (book, s)"
    have live: "\<not> expired now e" using Cons.prems(3) Sweep by (auto simp: expired_def)
    have tok: "map_of (fst ?bs) token = Some e"
      using redis_server.sweep_once_book [OF assms(1) Cons.prems(1)] live Cons.prems(2) by simp
    have "\<exists>e' book' s'. session_run exec token evs (fst ?bs, snd ?bs) = (replicate (length (filter (\<lambda>ev. \<exists>t. ev = Beat t) evs)) HbOk, book', s') \<and>
        map_of book' token = Some e' \<and> same_session e e'"
      using Cons.prems Sweep tok redis_server.sweep_once_distinct [OF assms(1) Cons.prems(1)] by (intro Cons.IH) auto
    with Sweep show ?thesis by simp
  qed
qed

text \<open>Heartbeats keep a session. A client whose heartbeats are no closer than a
  twentieth of its budget and no further apart than the budget has every one of them accepted
  and keeps its session and its bound locks, however many sweeps run in between.\<close>

theorem heartbeats_keep_session:
  assumes "redis_server exec ks clock pass" "distinct (map fst book)"
    and "map_of book token = Some e" "timely (se_ttl e) (se_last_seen e) evs"
    and "se_hb_floor e \<le> se_last_seen e + se_ttl e div 20"
  shows "\<exists>e' book' s'. session_run exec token evs (book, s) = (replicate (length (filter (\<lambda>ev. \<exists>t. ev = Beat t) evs)) HbOk, book', s') \<and>
    map_of book' token = Some e' \<and> same_session e e'"
  using timely_session_kept [OF assms] .

theorem heartbeats_keep_session_witness:
  "\<exists>e' book' s'. session_run mem_exec ''s'' [Beat 4, Sweep 5, Beat 8, Sweep 18] ([(''s'', ex_entry)], ex_session_srv) =
      ([HbOk, HbOk], book', s') \<and> map_of book' ''s'' = Some e' \<and> same_session ex_entry e'"
proof -
  have d: "distinct (map fst [(''s'', ex_entry)])" "map_of [(''s'', ex_entry)] ''s'' = Some ex_entry"
    "timely (se_ttl ex_entry) (se_last_seen ex_entry) [Beat 4, Sweep 5, Beat 8, Sweep 18]"
    "se_hb_floor ex_entry \<le> se_last_seen ex_entry + se_ttl ex_entry div 20"
    by (simp_all add: ex_entry_def)
  from heartbeats_keep_session [OF mem.redis_server_axioms d, of ex_session_srv] show ?thesis
    by (simp add: numeral_2_eq_2 del: session_run.simps)
qed

text \<open>A revived session is swept all the same. When a session is expired at the time of
  the sweeper's snapshot and its client's next heartbeat is accepted before the sweeper reaches
  it, the sweeper still drops the session and releases its locks.\<close>

definition reviving :: "string \<Rightarrow> nat \<Rightarrow> 's sweep_env" where
  "reviving token now = quiet_sweep\<lparr>sw_before := (\<lambda>_ (book, s). (snd (session_heartbeat token now book), s))\<rparr>"

theorem sweep_discards_revived:
  assumes "redis_server exec ks clock pass"
    and "expired now e" "se_hb_floor e \<le> now'" "(k, tok) \<in> set (se_locks e)" "ks s k = Some (VStr tok, x)"
  shows "fst (session_heartbeat token now' [(token, e)]) = HbOk \<and>
    map_of (fst (sweep_once exec (reviving token now') now ([(token, e)], s))) token = None \<and>
    ks (snd (sweep_once exec (reviving token now') now ([(token, e)], s))) k = None"
proof -
  let ?e = "e\<lparr>se_hb_floor := now' + se_ttl e div 20, se_last_seen := now'\<rparr>"
  have hb: "session_heartbeat token now' [(token, e)] = (HbOk, [(token, ?e)])"
    using assms(3) by (simp add: session_heartbeat_def)
  have run: "sweep_once exec (reviving token now') now ([(token, e)], s) =
      ([], snd (session_release_all exec (\<lambda>_. Delivered) (se_locks e) 0 s))"
    using assms(2) hb by (simp add: sweep_once_def reviving_def quiet_sweep_def session_close_def session_remove_def split_beta)
  have "ks (snd (session_release_all exec (\<lambda>_. Delivered) (se_locks e) 0 s)) k = None"
    using redis_server.release_all_ks [OF assms(1), of "\<lambda>_. Delivered" "se_locks e" 0 s k] assms(4,5) by auto
  with hb run show ?thesis by simp
qed

theorem sweep_discards_revived_witness:
  "fst (session_heartbeat ''s'' 12 [(''s'', ex_entry)]) = HbOk \<and>
   map_of (fst (sweep_once mem_exec (reviving ''s'' 12) 11 ([(''s'', ex_entry)], ex_session_srv))) ''s'' = None"
  using sweep_discards_revived [OF mem.redis_server_axioms, of 11 ex_entry 12 "''k''" "''t''" ex_session_srv None "''s''"]
  by (simp add: ex_entry_def expired_def ex_session_srv_def mem_ks_def expire_def)

text \<open>Closing counts a lock that was already lost as released.\<close>

lemma close_counts_lost:
  assumes "redis_server exec ks clock pass" "ks s k = None"
  shows "session_close exec (\<lambda>_. Delivered) token ([(token, e\<lparr>se_locks := [(k, tok)]\<rparr>)], s) =
    (1, [], snd (unlock_with_token exec Delivered k tok s))"
proof -
  have "fst (release_lua exec [k, fence_key_for k] [tok] s) = Inr 0"
    using assms(2) unfolding release_lua_def
    by (simp add: lua_simps redis_server.lcall_simps [OF assms(1)] redis_simps)
  then show ?thesis
    by (simp add: session_close_def session_remove_def unlock_with_token_def invoke_Delivered)
qed

end
