(* ===== verification/WatchHub.thy ===== *)
theory WatchHub
  imports Core
begin

text \<open>
  The watch hub (\<^verbatim>\<open>crates/server/src/watch_hub.rs\<close>): one poller per watched key, whose state changes
  reach any number of subscribers through a shared latest-value channel.

  A channel (\<^verbatim>\<open>tokio::sync::watch\<close>) is its current value, a version that every accepted change
  increments, and its number of receivers. A receiver remembers the version it has seen. What a
  poller, a subscriber task and a subscription do between two of their waiting points is one
  operation; \<open>hub_step\<close> interleaves them.
\<close>

section \<open>Operations\<close>

datatype LockEvent = EvAcquired u64 | EvFreed u64

definition transition_event :: "bool \<Rightarrow> u64 \<Rightarrow> LockEvent" where
  "transition_event is_held version = (if is_held then EvAcquired version else EvFreed version)"

record channel =
  ch_value :: "(bool \<times> u64) option"
  ch_version :: nat
  ch_receivers :: nat

type_synonym hub = "string \<Rightarrow> channel option"

text \<open>A subscriber task: its key, the version it has seen once it has read the channel, and the
  events it has forwarded, newest first.\<close>

record subscriber =
  sb_key :: string
  sb_seen :: "nat option"
  sb_events :: "LockEvent list"

definition hub_new :: hub where
  "hub_new = Map.empty"

definition hub_subscribe :: "string \<Rightarrow> hub \<Rightarrow> bool \<times> subscriber \<times> hub" where
  "hub_subscribe key h =
     (let sub = \<lparr>sb_key = key, sb_seen = None, sb_events = []\<rparr> in
      case h key of
        Some c \<Rightarrow> (False, sub, h(key \<mapsto> c\<lparr>ch_receivers := ch_receivers c + 1\<rparr>))
      | None \<Rightarrow> (True, sub, h(key \<mapsto> \<lparr>ch_value = None, ch_version = 0, ch_receivers = 1\<rparr>)))"

text \<open>One turn of a subscriber task: read the channel, forward its state when there is one.\<close>

definition subscriber_turn :: "channel \<Rightarrow> subscriber \<Rightarrow> subscriber" where
  "subscriber_turn c sub =
     sub\<lparr>sb_seen := Some (ch_version c),
         sb_events := (case ch_value c of None \<Rightarrow> sb_events sub
           | Some (is_held, version) \<Rightarrow> transition_event is_held version # sb_events sub)\<rparr>"

text \<open>Whether the task is past its wait for a change.\<close>

definition subscriber_ready :: "channel \<Rightarrow> subscriber \<Rightarrow> bool" where
  "subscriber_ready c sub \<longleftrightarrow> sb_seen sub \<noteq> Some (ch_version c)"

definition hub_unsubscribe :: "string \<Rightarrow> hub \<Rightarrow> hub" where
  "hub_unsubscribe key h = (case h key of
      None \<Rightarrow> h | Some c \<Rightarrow> h(key \<mapsto> c\<lparr>ch_receivers := ch_receivers c - 1\<rparr>))"

definition send_if_modified :: "bool \<times> u64 \<Rightarrow> channel \<Rightarrow> channel" where
  "send_if_modified st c = (if ch_value c \<noteq> Some st then c\<lparr>ch_value := Some st, ch_version := ch_version c + 1\<rparr> else c)"

text \<open>One turn of a poller: retire when nobody listens (\<open>True\<close>), otherwise publish the
  probed state if the probe succeeded.\<close>

definition poller_turn :: "string \<Rightarrow> (bool \<times> u64) result \<Rightarrow> hub \<Rightarrow> bool \<times> hub" where
  "poller_turn key probe h = (case h key of
      None \<Rightarrow> (False, h)
    | Some c \<Rightarrow>
        if ch_receivers c = 0 then (True, h(key := None))
        else case probe of
          Inl _ \<Rightarrow> (False, h)
        | Inr st \<Rightarrow> (False, h(key \<mapsto> send_if_modified st c)))"

section \<open>The running hub\<close>

record hub_cfg =
  hc_hub :: hub
  hc_pollers :: "string list"
  hc_subs :: "nat \<Rightarrow> subscriber option"

definition subs_on :: "(nat \<Rightarrow> subscriber option) \<Rightarrow> string \<Rightarrow> nat set" where
  "subs_on f key = {i. \<exists>s. f i = Some s \<and> sb_key s = key}"

inductive hub_step :: "hub_cfg \<Rightarrow> hub_cfg \<Rightarrow> bool" where
  subscribe: "hc_subs g i = None \<Longrightarrow> hub_subscribe key (hc_hub g) = (spawned, sub, h) \<Longrightarrow>
    hub_step g (g\<lparr>hc_hub := h, hc_pollers := (if spawned then key # hc_pollers g else hc_pollers g),
      hc_subs := (hc_subs g)(i \<mapsto> sub)\<rparr>)"
| turn: "hc_subs g i = Some sub \<Longrightarrow> hc_hub g (sb_key sub) = Some c \<Longrightarrow> subscriber_ready c sub \<Longrightarrow>
    hub_step g (g\<lparr>hc_subs := (hc_subs g)(i \<mapsto> subscriber_turn c sub)\<rparr>)"
| leave: "hc_subs g i = Some sub \<Longrightarrow>
    hub_step g (g\<lparr>hc_hub := hub_unsubscribe (sb_key sub) (hc_hub g), hc_subs := (hc_subs g)(i := None)\<rparr>)"
| poll: "key \<in> set (hc_pollers g) \<Longrightarrow> poller_turn key probe (hc_hub g) = (retired, h) \<Longrightarrow>
    hub_step g (g\<lparr>hc_hub := h, hc_pollers := (if retired then remove1 key (hc_pollers g) else hc_pollers g)\<rparr>)"

inductive hub_reach :: "hub_cfg \<Rightarrow> bool" where
  init: "hub_reach \<lparr>hc_hub = hub_new, hc_pollers = [], hc_subs = Map.empty\<rparr>"
| step: "hub_reach g \<Longrightarrow> hub_step g g' \<Longrightarrow> hub_reach g'"

inductive_cases hub_stepE: "hub_step g g'"

text \<open>Channels, pollers and subscribers agree.\<close>

definition hub_inv :: "hub_cfg \<Rightarrow> bool" where
  "hub_inv g \<longleftrightarrow> distinct (hc_pollers g) \<and> set (hc_pollers g) = dom (hc_hub g) \<and> finite (dom (hc_subs g)) \<and>
     (\<forall>key c. hc_hub g key = Some c \<longrightarrow> ch_receivers c = card (subs_on (hc_subs g) key)) \<and>
     (\<forall>i s. hc_subs g i = Some s \<longrightarrow> hc_hub g (sb_key s) \<noteq> None)"

text \<open>A subscriber that has seen the current version forwarded the current state last.\<close>

definition current :: "channel \<Rightarrow> subscriber \<Rightarrow> bool" where
  "current c s \<longleftrightarrow> (\<forall>v. sb_seen s = Some v \<longrightarrow> v \<le> ch_version c) \<and>
     (sb_seen s = Some (ch_version c) \<longrightarrow>
        (case ch_value c of None \<Rightarrow> True | Some (a, v) \<Rightarrow> \<exists>es. sb_events s = transition_event a v # es))"

definition up_to_date :: "hub_cfg \<Rightarrow> bool" where
  "up_to_date g \<longleftrightarrow> (\<forall>i s c. hc_subs g i = Some s \<longrightarrow> hc_hub g (sb_key s) = Some c \<longrightarrow> current c s)"

lemma current_simps [simp]:
  "sb_seen s = None \<Longrightarrow> current c s"
  "current (c\<lparr>ch_receivers := n\<rparr>) s = current c s"
  "current c (subscriber_turn c s)"
  by (auto simp: current_def subscriber_turn_def split: option.splits)

lemma current_send: "current c s \<Longrightarrow> current (send_if_modified st c) s"
  by (auto simp: current_def send_if_modified_def)

lemma finite_subs_on: "finite (dom f) \<Longrightarrow> finite (subs_on f key)"
  by (rule finite_subset [of _ "dom f"]) (auto simp: subs_on_def)

lemma subs_on_upd:
  "subs_on (f(i \<mapsto> s)) key = (if sb_key s = key then insert i (subs_on f key) else subs_on f key - {i})"
  "subs_on (f(i := None)) key = subs_on f key - {i}"
  by (auto simp: subs_on_def)

lemma hub_inv_sub:
  assumes "hub_inv g" "hc_subs g i = Some s"
  obtains c where "hc_hub g (sb_key s) = Some c"
proof -
  have "hc_hub g (sb_key s) \<noteq> None" using assms unfolding hub_inv_def by blast
  then show ?thesis using that by blast
qed

lemma subscribe_inv:
  assumes "hub_inv g" "hc_subs g i = None" "hub_subscribe key (hc_hub g) = (spawned, sub, h)"
  shows "hub_inv (g\<lparr>hc_hub := h, hc_pollers := (if spawned then key # hc_pollers g else hc_pollers g),
      hc_subs := (hc_subs g)(i \<mapsto> sub)\<rparr>)"
proof -
  have i: "i \<notin> subs_on (hc_subs g) k" for k using assms(2) by (simp add: subs_on_def)
  have fin: "finite (subs_on (hc_subs g) k)" for k using assms(1) finite_subs_on by (auto simp: hub_inv_def)
  have none: "hc_hub g key = None \<Longrightarrow> subs_on (hc_subs g) key = {}"
    using hub_inv_sub [OF assms(1)] by (force simp: subs_on_def)
  show ?thesis
    using assms(1,3) i fin none
    by (auto simp: hub_inv_def hub_subscribe_def Let_def subs_on_upd split: option.splits if_splits)
qed

lemma leave_inv:
  assumes "hub_inv g" "hc_subs g i = Some sub"
  shows "hub_inv (g\<lparr>hc_hub := hub_unsubscribe (sb_key sub) (hc_hub g), hc_subs := (hc_subs g)(i := None)\<rparr>)"
proof -
  have i: "i \<in> subs_on (hc_subs g) (sb_key sub)" "\<And>k. k \<noteq> sb_key sub \<Longrightarrow> i \<notin> subs_on (hc_subs g) k"
    using assms(2) by (auto simp: subs_on_def)
  have fin: "finite (subs_on (hc_subs g) k)" for k using assms(1) finite_subs_on by (auto simp: hub_inv_def)
  obtain c where c: "hc_hub g (sb_key sub) = Some c" using hub_inv_sub [OF assms] .
  show ?thesis
    using assms c i fin by (auto simp: hub_inv_def hub_unsubscribe_def subs_on_upd card_Diff_singleton split: if_splits)
qed

lemma poll_inv:
  assumes "hub_inv g" "key \<in> set (hc_pollers g)" "poller_turn key probe (hc_hub g) = (retired, h)"
  shows "hub_inv (g\<lparr>hc_hub := h, hc_pollers := (if retired then remove1 key (hc_pollers g) else hc_pollers g)\<rparr>)"
proof -
  have fin: "finite (subs_on (hc_subs g) k)" for k using assms(1) finite_subs_on by (auto simp: hub_inv_def)
  obtain c where c: "hc_hub g key = Some c" using assms(1,2) by (auto simp: hub_inv_def)
  show ?thesis
  proof (cases "ch_receivers c = 0")
    case True
    with c assms(1) fin have "subs_on (hc_subs g) key = {}" by (auto simp: hub_inv_def)
    with True c assms show ?thesis
      by (auto simp: hub_inv_def poller_turn_def subs_on_def domIff split: if_splits)
  next
    case False
    with c assms show ?thesis
      by (auto simp: hub_inv_def poller_turn_def send_if_modified_def split: sum.splits if_splits)
  qed
qed

lemma turn_inv:
  assumes "hub_inv g" "hc_subs g i = Some sub"
  shows "hub_inv (g\<lparr>hc_subs := (hc_subs g)(i \<mapsto> subscriber_turn c sub)\<rparr>)"
proof -
  have "subs_on ((hc_subs g)(i \<mapsto> subscriber_turn c sub)) k = subs_on (hc_subs g) k" for k
    using assms(2) by (auto simp: subs_on_def subscriber_turn_def)
  with assms show ?thesis by (auto simp: hub_inv_def subscriber_turn_def)
qed

lemma hub_step_inv: "hub_step g g' \<Longrightarrow> hub_inv g \<Longrightarrow> hub_inv g'"
  by (induction rule: hub_step.induct) (rule subscribe_inv turn_inv leave_inv poll_inv; assumption)+

lemma hub_reach_inv: "hub_reach g \<Longrightarrow> hub_inv g"
proof (induction rule: hub_reach.induct)
  case init
  show ?case by (simp add: hub_inv_def hub_new_def)
qed (rule hub_step_inv)

lemma up_to_date_step:
  assumes "hub_step g g'" "up_to_date g" "hub_inv g"
  shows "up_to_date g'"
  using assms
proof (induction rule: hub_step.induct)
  case (subscribe g i key spawned sub h)
  have new: "sb_seen sub = None"
    using subscribe.hyps(2) by (auto simp: hub_subscribe_def Let_def split: option.splits)
  have old: "current c s" if a: "h (sb_key s) = Some c" "hc_subs g j = Some s" for j s c
  proof -
    obtain c' where c': "hc_hub g (sb_key s) = Some c'" using hub_inv_sub [OF subscribe.prems(2) a(2)] .
    then have "c = c' \<or> c = c'\<lparr>ch_receivers := ch_receivers c' + 1\<rparr>"
      using a(1) subscribe.hyps(2) by (auto simp: hub_subscribe_def Let_def split: option.splits if_splits)
    moreover have "current c' s" using subscribe.prems(1) a(2) c' unfolding up_to_date_def by blast
    ultimately show ?thesis by auto
  qed
  then show ?case using new by (auto simp: up_to_date_def split: if_splits)
next
  case (turn g i sub c)
  moreover have "sb_key (subscriber_turn c sub) = sb_key sub" by (simp add: subscriber_turn_def)
  ultimately show ?case by (auto simp: up_to_date_def)
next
  case (leave g i sub)
  then show ?case by (auto simp: up_to_date_def hub_unsubscribe_def split: option.splits if_splits)
next
  case (poll key g probe retired h)
  then show ?case
    by (auto simp: up_to_date_def poller_turn_def current_send split: option.splits sum.splits if_splits)
qed

lemma hub_reach_up_to_date: "hub_reach g \<Longrightarrow> up_to_date g"
proof (induction rule: hub_reach.induct)
  case init
  show ?case by (simp add: up_to_date_def)
next
  case (step g g')
  then show ?case using up_to_date_step hub_reach_inv by blast
qed

text \<open>Property C18. One poller per watched key. In every reachable state of the hub the running
  pollers are exactly the watched keys, each once; every subscriber's key has a channel and
  therefore a poller; a channel counts exactly the subscribers of its key; and a subscriber that
  is not waiting for its turn has forwarded the channel's current state last.\<close>

theorem hub_one_poller:
  assumes "hub_reach g"
  shows "distinct (hc_pollers g) \<and> set (hc_pollers g) = dom (hc_hub g) \<and>
    (\<forall>i s. hc_subs g i = Some s \<longrightarrow> sb_key s \<in> set (hc_pollers g) \<and>
      (\<forall>c. hc_hub g (sb_key s) = Some c \<longrightarrow> 0 < ch_receivers c \<and>
        (\<not> subscriber_ready c s \<longrightarrow>
          (case ch_value c of None \<Rightarrow> True | Some (a, v) \<Rightarrow> \<exists>es. sb_events s = transition_event a v # es))))"
proof -
  note inv = hub_reach_inv [OF assms]
  have count: "0 < ch_receivers c" if "hc_subs g i = Some s" "hc_hub g (sb_key s) = Some c" for i s c
  proof -
    have "i \<in> subs_on (hc_subs g) (sb_key s)" using that(1) by (auto simp: subs_on_def)
    moreover have "finite (subs_on (hc_subs g) (sb_key s))" using inv finite_subs_on by (auto simp: hub_inv_def)
    ultimately show ?thesis using inv that(2) by (auto simp: hub_inv_def card_gt_0_iff)
  qed
  with inv hub_reach_up_to_date [OF assms] show ?thesis
    unfolding hub_inv_def up_to_date_def current_def subscriber_ready_def by blast
qed

theorem hub_one_poller_witness:
  "\<exists>g. hub_reach g \<and> hc_subs g 0 = Some \<lparr>sb_key = ''k'', sb_seen = Some 1, sb_events = [EvAcquired 7]\<rparr> \<and>
     hc_pollers g = [''k''] \<and> distinct (hc_pollers g)"
proof -
  let ?s = "\<lparr>sb_key = ''k'', sb_seen = None, sb_events = []\<rparr>"
  let ?c = "\<lparr>ch_value = None, ch_version = 0, ch_receivers = 1\<rparr>"
  let ?d = "\<lparr>ch_value = Some (True, 7), ch_version = 1, ch_receivers = 1\<rparr>"
  let ?g = "\<lambda>c s. \<lparr>hc_hub = [''k'' \<mapsto> c], hc_pollers = [''k''], hc_subs = [0 \<mapsto> s]\<rparr>"
  have "hub_reach (?g ?c ?s)"
    using hub_reach.step [OF hub_reach.init hub_step.subscribe [of _ 0 "''k''" True ?s "[''k'' \<mapsto> ?c]"]]
    by (simp add: hub_subscribe_def hub_new_def)
  from hub_reach.step [OF this hub_step.poll [of "''k''" _ "Inr (True, 7)" False "[''k'' \<mapsto> ?d]"]]
  have "hub_reach (?g ?d ?s)" by (simp add: poller_turn_def send_if_modified_def)
  from hub_reach.step [OF this hub_step.turn [of _ 0 ?s ?d]]
  have r: "hub_reach (?g ?d (subscriber_turn ?d ?s))" by (simp add: subscriber_ready_def)
  from hub_one_poller [OF r] r show ?thesis
    by (intro exI [of _ "?g ?d (subscriber_turn ?d ?s)"]) (simp add: subscriber_turn_def transition_event_def)
qed

end
