(* ===== verification/Service.thy ===== *)
theory Service
  imports Auth Registry Sessions WatchHub
begin

text \<open>
  The gRPC service (\<^verbatim>\<open>crates/server/src/service.rs\<close>): request handlers over the lock manager, the
  session book, the access list, the registry and the watch hub.

  A handler is a function of the service state; requests are interleaved between handlers, and
  what happens to the store between a grant and its undo is an argument (\<open>mid\<close>). The
  caller's \<^verbatim>\<open>authorization\<close> header, the identifiers the server draws, the instants it reads and the
  delivery of its store calls are arguments too. Metrics, traces and audit lines change no
  modelled state.
\<close>

section \<open>Configuration and state\<close>

record ServiceConfig =
  sc_default_ttl :: duration
  sc_max_ttl :: duration

definition service_config_default :: ServiceConfig where
  "service_config_default = \<lparr>sc_default_ttl = from_secs 30, sc_max_ttl = from_secs 600\<rparr>"

record 's PalisadeService =
  sv_manager :: RedisLockManager
  sv_config :: ServiceConfig
  sv_ready :: bool
  sv_sessions :: SessionBook
  sv_acl :: Acl
  sv_watchers :: watchers
  sv_hub :: hub
  sv_registry :: HeldRegistry
  sv_store :: 's

definition service_new :: "RedisLockManager \<Rightarrow> ServiceConfig \<Rightarrow> 's \<Rightarrow> 's PalisadeService" where
  "service_new mgr config store =
     \<lparr>sv_manager = mgr, sv_config = config, sv_ready = True, sv_sessions = [], sv_acl = acl_open_mode,
      sv_watchers = (\<lambda>_. 0), sv_hub = hub_new, sv_registry = registry_new, sv_store = store\<rparr>"

definition with_acl :: "Acl \<Rightarrow> 's PalisadeService \<Rightarrow> 's PalisadeService" where
  "with_acl acl sv = sv\<lparr>sv_acl := acl\<rparr>"

definition svc_principal :: "'s PalisadeService \<Rightarrow> string option \<Rightarrow> Principal response" where
  "svc_principal sv bearer = acl_resolve (sv_acl sv) bearer"

definition set_ready :: "bool \<Rightarrow> 's PalisadeService \<Rightarrow> 's PalisadeService" where
  "set_ready b sv = sv\<lparr>sv_ready := b\<rparr>"

definition check_ready :: "'s PalisadeService \<Rightarrow> unit response" where
  "check_ready sv = (if sv_ready sv then Inr () else Inl (Unavailable ''server is draining''))"

record LockOptionsPb =
  pb_ttl_ms :: u64
  pb_watchdog :: "bool option"

definition options_from_pb :: "LockOptionsPb option \<Rightarrow> ServiceConfig \<Rightarrow> LockOptions response" where
  "options_from_pb pb config =
     (let ttl = (case pb of None \<Rightarrow> sc_default_ttl config
            | Some q \<Rightarrow> if pb_ttl_ms q = 0 then sc_default_ttl config else from_millis (unat (pb_ttl_ms q))) in
      if sc_max_ttl config < ttl then Inl (InvalidArgument ''ttl exceeds server maximum'')
      else let opts = with_ttl_opt ttl default_options in
        Inr (case Option.bind pb pb_watchdog of None \<Rightarrow> opts | Some wd \<Rightarrow> with_watchdog wd opts))"

datatype LockOutcome =
    Granted string u64 u64
  | HeldOutcome string
  | TimedOut string

definition granted_outcome :: "string \<Rightarrow> u64 \<Rightarrow> u64 \<Rightarrow> LockOutcome" where
  "granted_outcome token fence ttl_ms = Granted token fence ttl_ms"

definition held_outcome :: "string \<Rightarrow> LockOutcome" where
  "held_outcome key = HeldOutcome key"

section \<open>Locking\<close>

record TryLockRequest =
  tl_key :: string
  tl_options :: "LockOptionsPb option"
  tl_session :: string

text \<open>The checks every locking request passes before it reaches the store.\<close>

definition admit :: "'s PalisadeService \<Rightarrow> string option \<Rightarrow> TryLockRequest \<Rightarrow> (Principal \<times> LockOptions) response" where
  "admit sv bearer req =
     rbind (check_ready sv) (\<lambda>_.
     rbind (svc_principal sv bearer) (\<lambda>p.
     rbind (options_from_pb (tl_options req) (sv_config sv)) (\<lambda>opts.
     rbind (check_lock p (tl_key req)) (\<lambda>_. Inr (p, opts)))))"

text \<open>What follows a grant: bind it to its session, count it, hand it over; or undo it.\<close>

definition hand_over ::
  "'s server \<Rightarrow> delivery \<Rightarrow> ('s \<Rightarrow> 's) \<Rightarrow> nat \<Rightarrow> Principal \<Rightarrow> LockOptions \<Rightarrow> TryLockRequest \<Rightarrow> HandleShared \<Rightarrow>
   's PalisadeService \<Rightarrow> LockOutcome response \<times> 's PalisadeService" where
  "hand_over exec d mid now p opts req h sv =
     (let undo = (\<lambda>sv. sv\<lparr>sv_store := snd (snd (handle_release exec d h (mid (sv_store sv))))\<rparr>);
          (bound, book) = (if tl_session req = [] then (True, sv_sessions sv)
             else session_bind (tl_session req) (tl_key req) (hs_token h) now (sv_sessions sv));
          sv1 = sv\<lparr>sv_sessions := book\<rparr> in
      if \<not> bound then (Inl (NotFound ''unknown session''), undo sv1)
      else case registry_try_acquire (tl_key req) (pr_name p) (max_keys p) (sv_registry sv1) of
          (False, reg) \<Rightarrow>
            (Inl (ResourceExhausted (''principal `'' @ pr_name p @ ''` hit max_keys'')), undo (sv1\<lparr>sv_registry := reg\<rparr>))
        | (True, reg) \<Rightarrow>
            (let h' = disarm h in
             (Inr (granted_outcome (hs_token h') (fence_value (hs_fence h')) (as_millis_u64 (lo_ttl opts))),
              sv1\<lparr>sv_registry := reg\<rparr>)))"

definition svc_try_lock ::
  "'s server \<Rightarrow> delivery \<Rightarrow> delivery \<Rightarrow> ('s \<Rightarrow> 's) \<Rightarrow> nat \<Rightarrow> string \<Rightarrow> string option \<Rightarrow> TryLockRequest \<Rightarrow>
   's PalisadeService \<Rightarrow> LockOutcome response \<times> 's PalisadeService" where
  "svc_try_lock exec d d' mid now token bearer req sv =
     (case admit sv bearer req of
        Inl e \<Rightarrow> (Inl e, sv)
      | Inr (p, opts) \<Rightarrow>
          (case try_lock_with exec d (sv_manager sv) token (tl_key req) opts (sv_store sv) of
             (Inr h, s) \<Rightarrow> hand_over exec d' mid now p opts req h (sv\<lparr>sv_store := s\<rparr>)
           | (Inl (Held _), s) \<Rightarrow> (Inr (held_outcome (tl_key req)), sv\<lparr>sv_store := s\<rparr>)
           | (Inl e, s) \<Rightarrow> (Inl (Internal (error_display e)), sv\<lparr>sv_store := s\<rparr>)))"

definition svc_try_lock_for ::
  "'s server \<Rightarrow> 's attempt list \<Rightarrow> delivery \<Rightarrow> ('s \<Rightarrow> 's) \<Rightarrow> nat \<Rightarrow> nat \<Rightarrow> string option \<Rightarrow> TryLockRequest \<Rightarrow> u64 \<Rightarrow>
   's PalisadeService \<Rightarrow> (LockOutcome response \<times> 's PalisadeService) option" where
  "svc_try_lock_for exec as d' mid now now' bearer req wait_ms sv =
     (case admit sv bearer req of
        Inl e \<Rightarrow> Some (Inl e, sv)
      | Inr (p, opts) \<Rightarrow>
          (case try_lock_for exec (sv_manager sv) now (tl_key req) opts (from_millis (unat wait_ms)) as (sv_store sv) of
             None \<Rightarrow> None
           | Some (r, s) \<Rightarrow> Some (case r of
               Inr h \<Rightarrow> hand_over exec d' mid now' p opts req h (sv\<lparr>sv_store := s\<rparr>)
             | Inl (Held _) \<Rightarrow> (Inr (held_outcome (tl_key req)), sv\<lparr>sv_store := s\<rparr>)
             | Inl (Timeout _) \<Rightarrow> (Inr (TimedOut (tl_key req)), sv\<lparr>sv_store := s\<rparr>)
             | Inl e \<Rightarrow> (Inl (Internal (error_display e)), sv\<lparr>sv_store := s\<rparr>))))"

section \<open>Other requests\<close>

datatype UnlockResponse = Released | UnlockLost u64

definition svc_unlock ::
  "'s server \<Rightarrow> delivery \<Rightarrow> string option \<Rightarrow> string \<Rightarrow> string \<Rightarrow> 's PalisadeService \<Rightarrow> UnlockResponse response \<times> 's PalisadeService" where
  "svc_unlock exec d bearer key token sv =
     (case rbind (svc_principal sv bearer) (\<lambda>p. check_unlock p key) of
        Inl e \<Rightarrow> (Inl e, sv)
      | Inr _ \<Rightarrow>
          (case unlock_with_token exec d key token (sv_store sv) of
             (Inl e, s) \<Rightarrow> (Inl (Internal (error_display e)), sv\<lparr>sv_store := s\<rparr>)
           | (Inr released, s) \<Rightarrow>
               let sv1 = sv\<lparr>sv_store := s\<rparr> in
               if released then (Inr Released, sv1\<lparr>sv_registry := snd (registry_release key (sv_registry sv1))\<rparr>)
               else (Inr (UnlockLost 0), sv1)))"

datatype ExtendResponse = Extended | ExtendLost u64

definition svc_extend ::
  "'s server \<Rightarrow> delivery \<Rightarrow> string option \<Rightarrow> string \<Rightarrow> string \<Rightarrow> u64 \<Rightarrow> 's PalisadeService \<Rightarrow> ExtendResponse response \<times> 's PalisadeService" where
  "svc_extend exec d bearer key token ttl_ms sv =
     (case rbind (svc_principal sv bearer) (\<lambda>p. check_extend p key) of
        Inl e \<Rightarrow> (Inl e, sv)
      | Inr _ \<Rightarrow>
          let ttl = from_millis (unat ttl_ms) in
          if sc_max_ttl (sv_config sv) < ttl then (Inl (InvalidArgument ''ttl exceeds server maximum''), sv)
          else case extend_with_token exec d key token ttl (sv_store sv) of
             (Inl e, s) \<Rightarrow> (Inl (Internal (error_display e)), sv\<lparr>sv_store := s\<rparr>)
           | (Inr extended, s) \<Rightarrow>
               (Inr (if extended then Extended else ExtendLost 0), sv\<lparr>sv_store := s\<rparr>))"

text \<open>A watch stream holds a quota slot and a hub subscription until its client goes away.\<close>

definition svc_watch ::
  "string option \<Rightarrow> string \<Rightarrow> 's PalisadeService \<Rightarrow> (cell \<times> bool \<times> subscriber) response \<times> 's PalisadeService" where
  "svc_watch bearer key sv =
     (case svc_principal sv bearer of
        Inl e \<Rightarrow> (Inl e, sv)
      | Inr p \<Rightarrow>
          (case check_watch p key (sv_watchers sv) of
             (Inl e, w) \<Rightarrow> (Inl e, sv\<lparr>sv_watchers := w\<rparr>)
           | (Inr c, w) \<Rightarrow>
               (case hub_subscribe key (sv_hub sv) of
                  (spawned, sub, h) \<Rightarrow> (Inr (c, spawned, sub), sv\<lparr>sv_watchers := w, sv_hub := h\<rparr>))))"

definition watch_ended :: "cell \<Rightarrow> subscriber \<Rightarrow> 's PalisadeService \<Rightarrow> 's PalisadeService" where
  "watch_ended c sub sv =
     sv\<lparr>sv_watchers := guard_drop c (sv_watchers sv), sv_hub := hub_unsubscribe (sb_key sub) (sv_hub sv)\<rparr>"

definition svc_register_session ::
  "string \<Rightarrow> nat \<Rightarrow> nat \<Rightarrow> string \<Rightarrow> u64 \<Rightarrow> 's PalisadeService \<Rightarrow> (string \<times> u64) response \<times> 's PalisadeService" where
  "svc_register_session token now now' client_id ttl_ms sv =
     (let ttl = (if ttl_ms = 0 then from_secs 10
            else min (from_millis (unat ttl_ms)) (sc_max_ttl (sv_config sv)));
          (tok, book) = session_register client_id ttl token now now' (sv_sessions sv) in
      (Inr (tok, as_millis_u64 ttl), sv\<lparr>sv_sessions := book\<rparr>))"

definition svc_heartbeat :: "nat \<Rightarrow> string \<Rightarrow> 's PalisadeService \<Rightarrow> unit response \<times> 's PalisadeService" where
  "svc_heartbeat now token sv =
     (case session_heartbeat token now (sv_sessions sv) of
        (r, book) \<Rightarrow> ((case r of
            HbOk \<Rightarrow> Inr ()
          | RateLimited \<Rightarrow> Inl (ResourceExhausted ''heartbeat exceeds rate floor (ttl/20); use the documented ttl/3 cadence'')
          | Unknown \<Rightarrow> Inl (NotFound ''unknown or expired session'')), sv\<lparr>sv_sessions := book\<rparr>))"

definition svc_close_session ::
  "'s server \<Rightarrow> (string \<times> string \<Rightarrow> delivery) \<Rightarrow> string \<Rightarrow> 's PalisadeService \<Rightarrow> u32 response \<times> 's PalisadeService" where
  "svc_close_session exec d token sv =
     (case session_close exec d token (sv_sessions sv, sv_store sv) of
        (n, book, s) \<Rightarrow> (Inr n, sv\<lparr>sv_sessions := book, sv_store := s\<rparr>))"

text \<open>The watcher slot taken by the permission check is returned at the end of the statement.\<close>

definition svc_describe_key ::
  "'s server \<Rightarrow> delivery \<Rightarrow> ('s \<Rightarrow> 's) \<Rightarrow> ('s \<Rightarrow> 's) \<Rightarrow> string option \<Rightarrow> string \<Rightarrow> 's PalisadeService \<Rightarrow>
   (bool \<times> u64 \<times> u64) response \<times> 's PalisadeService" where
  "svc_describe_key exec d mid mid' bearer key sv =
     (case svc_principal sv bearer of
        Inl e \<Rightarrow> (Inl e, sv)
      | Inr p \<Rightarrow>
          (case check_watch p key (sv_watchers sv) of
             (Inl e, w) \<Rightarrow> (Inl e, sv\<lparr>sv_watchers := w\<rparr>)
           | (Inr c, w) \<Rightarrow>
               let sv1 = sv\<lparr>sv_watchers := guard_drop c w\<rparr> in
               (case describe_key exec d mid mid' key (sv_store sv1) of
                  (Inl e, s) \<Rightarrow> (Inl (Internal (error_display e)), sv1\<lparr>sv_store := s\<rparr>)
                | (Inr x, s) \<Rightarrow> (Inr x, sv1\<lparr>sv_store := s\<rparr>))))"

definition svc_unlock_force ::
  "'s server \<Rightarrow> delivery \<Rightarrow> string option \<Rightarrow> string \<Rightarrow> 's PalisadeService \<Rightarrow> bool response \<times> 's PalisadeService" where
  "svc_unlock_force exec d bearer key sv =
     (case rbind (svc_principal sv bearer) (\<lambda>p. check_admin p key) of
        Inl e \<Rightarrow> (Inl e, sv)
      | Inr _ \<Rightarrow>
          (case force_unlock exec d key (sv_store sv) of
             (Inl e, s) \<Rightarrow> (Inl (Internal (error_display e)), sv\<lparr>sv_store := s\<rparr>)
           | (Inr released, s) \<Rightarrow>
               (Inr released, sv\<lparr>sv_store := s, sv_registry := snd (registry_release key (sv_registry sv))\<rparr>)))"

text \<open>The stream of held keys, as the list of what is sent on it.\<close>

record KeyState =
  kst_key :: string
  kst_held :: bool
  kst_ttl_ms :: u64

definition svc_list_locks ::
  "'s server \<Rightarrow> (string \<Rightarrow> delivery) \<Rightarrow> scan_answer list \<Rightarrow> string option \<Rightarrow> string \<Rightarrow> 's PalisadeService \<Rightarrow>
   (KeyState response list response \<times> 's PalisadeService) option" where
  "svc_list_locks exec d as bearer pre sv =
     (case rbind (svc_principal sv bearer) (\<lambda>p. check_admin p pre) of
        Inl e \<Rightarrow> Some (Inl e, sv)
      | Inr _ \<Rightarrow>
          (case scan_held exec d as [] (sv_store sv) of
             None \<Rightarrow> None
           | Some (Inl e, s) \<Rightarrow> Some (Inr [Inl (Internal (error_display e))], sv\<lparr>sv_store := s\<rparr>)
           | Some (Inr ents, s) \<Rightarrow>
               Some (Inr (map (\<lambda>(k, t). Inr \<lparr>kst_key = k, kst_held = True, kst_ttl_ms = t\<rparr>) ents), sv\<lparr>sv_store := s\<rparr>)))"

text \<open>One turn of the sweeper task.\<close>

definition svc_sweep :: "'s server \<Rightarrow> 's sweep_env \<Rightarrow> nat \<Rightarrow> 's PalisadeService \<Rightarrow> 's PalisadeService" where
  "svc_sweep exec v now sv =
     (case sweep_once exec v now (sv_sessions sv, sv_store sv) of (book, s) \<Rightarrow> sv\<lparr>sv_sessions := book, sv_store := s\<rparr>)"

section \<open>Authorization\<close>

definition allowed :: "'s PalisadeService \<Rightarrow> string option \<Rightarrow> string \<Rightarrow> (PrincipalConfig \<Rightarrow> bool) \<Rightarrow> bool" where
  "allowed sv bearer key perm \<longleftrightarrow> (\<exists>p. svc_principal sv bearer = Inr p \<and>
     (\<exists>x \<in> set (key_prefixes (pr_cfg p)). prefix x key) \<and> perm (pr_cfg p))"

lemma denied_may:
  assumes "\<not> allowed sv bearer key perm" "svc_principal sv bearer = Inr p"
  shows "\<exists>e. may p key (perm (pr_cfg p)) = Inl e"
  using assms by (auto simp: allowed_def may_def)

lemma denied_check:
  assumes "\<not> allowed sv bearer key perm"
  shows "\<exists>e. rbind (svc_principal sv bearer) (\<lambda>p. may p key (perm (pr_cfg p))) = Inl e"
  using denied_may [OF assms] by (auto simp: rbind_def split: sum.splits)

lemma denied_watch:
  assumes "\<not> allowed sv bearer key can_watch" "svc_principal sv bearer = Inr p"
  shows "\<exists>e. check_watch p key w = (Inl e, w)"
  using denied_may [OF assms] by (auto simp: check_watch_def)

text \<open>Property C17. Nobody acts without permission. A request whose header resolves to no principal,
  or to one without the operation's permission or without a matching key prefix, is answered with
  an error and leaves the whole service state, the store included, exactly as it was; so does every
  locking request while the server is draining.\<close>

theorem service_authorizes:
  "(\<not> allowed sv b (tl_key req) can_lock \<or> \<not> sv_ready sv \<longrightarrow>
      (\<exists>e. svc_try_lock exec d d' mid now tok b req sv = (Inl e, sv)) \<and>
      (\<exists>e. svc_try_lock_for exec as d' mid now now' b req wait sv = Some (Inl e, sv))) \<and>
   (\<not> allowed sv b key can_unlock \<longrightarrow> (\<exists>e. svc_unlock exec d b key tok sv = (Inl e, sv))) \<and>
   (\<not> allowed sv b key can_extend \<longrightarrow> (\<exists>e. svc_extend exec d b key tok ms sv = (Inl e, sv))) \<and>
   (\<not> allowed sv b key can_watch \<longrightarrow> (\<exists>e. svc_watch b key sv = (Inl e, sv)) \<and>
      (\<exists>e. svc_describe_key exec d mid mid b key sv = (Inl e, sv))) \<and>
   (\<not> allowed sv b key can_admin \<longrightarrow> (\<exists>e. svc_unlock_force exec d b key sv = (Inl e, sv)) \<and>
      (\<exists>e. svc_list_locks exec ds scans b key sv = Some (Inl e, sv)))"
proof (intro conjI impI)
  assume "\<not> allowed sv b (tl_key req) can_lock \<or> \<not> sv_ready sv"
  then have "\<exists>e. admit sv b req = Inl e"
    using denied_may [of sv b "tl_key req" can_lock]
    by (auto simp: admit_def check_ready_def check_lock_def rbind_def split: sum.splits)
  then show "\<exists>e. svc_try_lock exec d d' mid now tok b req sv = (Inl e, sv)"
    and "\<exists>e. svc_try_lock_for exec as d' mid now now' b req wait sv = Some (Inl e, sv)"
    by (auto simp: svc_try_lock_def svc_try_lock_for_def)
next
  assume "\<not> allowed sv b key can_unlock"
  from denied_check [OF this] show "\<exists>e. svc_unlock exec d b key tok sv = (Inl e, sv)"
    by (auto simp: svc_unlock_def check_unlock_def)
next
  assume "\<not> allowed sv b key can_extend"
  from denied_check [OF this] show "\<exists>e. svc_extend exec d b key tok ms sv = (Inl e, sv)"
    by (auto simp: svc_extend_def check_extend_def)
next
  assume no: "\<not> allowed sv b key can_watch"
  show "\<exists>e. svc_watch b key sv = (Inl e, sv)"
    using denied_watch [OF no, of _ "sv_watchers sv"] by (fastforce simp: svc_watch_def split: sum.splits)
  show "\<exists>e. svc_describe_key exec d mid mid b key sv = (Inl e, sv)"
    using denied_watch [OF no, of _ "sv_watchers sv"] by (fastforce simp: svc_describe_key_def split: sum.splits)
next
  assume "\<not> allowed sv b key can_admin"
  from denied_check [OF this] show "\<exists>e. svc_unlock_force exec d b key sv = (Inl e, sv)"
    and "\<exists>e. svc_list_locks exec ds scans b key sv = Some (Inl e, sv)"
    by (auto simp: svc_unlock_force_def svc_list_locks_def check_admin_def)
qed

definition ex_service :: "mem PalisadeService" where
  "ex_service = with_acl ex_acl (service_new ex_mgr service_config_default mem_init)"

theorem service_authorizes_witness:
  "\<exists>e. svc_unlock_force mem_exec Delivered (Some ''Bearer s3cret'') ''prod/x'' ex_service = (Inl e, ex_service)"
proof -
  have "\<not> allowed ex_service (Some ''Bearer s3cret'') ''prod/x'' can_admin"
    by (auto simp: allowed_def ex_service_def with_acl_def svc_principal_def acl_resolve_def resolve_with_header_def
        ex_acl_def strip_prefix_def make_principal_def ex_principal_def)
  then show ?thesis using service_authorizes [of ex_service] by blast
qed

section \<open>Grants\<close>

lemma hand_over_cases:
  assumes "hand_over exec d mid now p opts req h sv = (res, sv')"
  obtains (undone) e where "res = Inl e" "sv_store sv' = snd (snd (handle_release exec d h (mid (sv_store sv))))"
  | (granted) fence ttl where "res = Inr (Granted (hs_token h) fence ttl)" "sv_store sv' = sv_store sv"
      "reg_holders (sv_registry sv') (tl_key req) \<noteq> None"
      "tl_session req = [] \<or> (\<exists>en. map_of (sv_sessions sv') (tl_session req) = Some en \<and>
         (tl_key req, hs_token h) \<in> set (se_locks en))"
proof -
  obtain bound book where b: "(if tl_session req = [] then (True, sv_sessions sv)
      else session_bind (tl_session req) (tl_key req) (hs_token h) now (sv_sessions sv)) = (bound, book)" by fastforce
  obtain ok reg where r: "registry_try_acquire (tl_key req) (pr_name p) (max_keys p) (sv_registry sv) = (ok, reg)" by fastforce
  have session: "tl_session req = [] \<or> (\<exists>en. map_of book (tl_session req) = Some en \<and>
      (tl_key req, hs_token h) \<in> set (se_locks en))" if bound
    using b that by (auto simp: session_bind_def split: if_splits option.splits)
  have counted: "reg_holders reg (tl_key req) \<noteq> None" if ok
    using r that by (auto simp: registry_try_acquire_def split: if_splits)
  show ?thesis
  proof (cases "bound \<and> ok")
    case True
    with assms b r session counted have "\<exists>fence ttl. res = Inr (Granted (hs_token h) fence ttl) \<and> sv_store sv' = sv_store sv \<and>
        sv_registry sv' = reg \<and> sv_sessions sv' = book"
      by (auto simp: hand_over_def Let_def disarm_def mark_released_def granted_outcome_def)
    with True session counted show ?thesis using granted by blast
  next
    case False
    with assms b r have "\<exists>e. res = Inl e \<and> sv_store sv' = snd (snd (handle_release exec d h (mid (sv_store sv))))"
      by (auto simp: hand_over_def Let_def split: if_splits bool.splits)
    then show ?thesis using undone by blast
  qed
qed

text \<open>The ways a locking request can end.\<close>

lemma svc_try_lock_cases:
  assumes srv: "redis_server exec ks clock pass"
    and run: "svc_try_lock exec d d' mid now tok b req sv = (res, sv')"
  obtains (denied) e where "res = Inl e" "sv' = sv"
  | (busy) s where "res = Inr (held_outcome (tl_key req))" "sv_store sv' = s" "ks s = ks (sv_store sv)"
  | (failed) e where "res = Inl (Internal e)"
  | (undone) e s h where "fresh_handle (\<lambda>_. tok) h" "hs_key h = tl_key req" "res = Inl e"
      "sv_store sv' = snd (snd (handle_release exec d' h (mid s)))"
  | (granted) fence ttl s where "res = Inr (Granted tok fence ttl)" "sv_store sv' = s" "ours ks (\<lambda>_. tok) s (tl_key req)"
      "reg_holders (sv_registry sv') (tl_key req) \<noteq> None"
      "tl_session req = [] \<or> (\<exists>en. map_of (sv_sessions sv') (tl_session req) = Some en \<and>
         (tl_key req, tok) \<in> set (se_locks en))"
proof (cases "admit sv b req")
  case (Inl e)
  with run show ?thesis by (intro denied [of e]) (simp_all add: svc_try_lock_def)
next
  case (Inr po)
  then obtain p opts where po: "admit sv b req = Inr (p, opts)" by (cases po) simp
  obtain r s where t: "try_lock_with exec d (sv_manager sv) tok (tl_key req) opts (sv_store sv) = (r, s)" by fastforce
  show ?thesis
  proof (cases r)
    case (Inl e)
    show ?thesis
    proof (cases "\<exists>k'. e = Held k'")
      case True
      then have "ks s = ks (sv_store sv)" using redis_server.try_lock_with_held(1) [OF srv] t Inl by blast
      with True Inl po t run show ?thesis by (intro busy [of s]) (auto simp: svc_try_lock_def)
    next
      case False
      with Inl po t run show ?thesis
        by (intro failed [of "error_display e"]) (auto simp: svc_try_lock_def split: error.splits)
    qed
  next
    case (Inr h)
    note taken = redis_server.try_lock_with_taken [OF srv, where tok = "\<lambda>_. tok", OF t [unfolded Inr]]
    have tok: "hs_token h = tok" using taken(2) by (simp add: fresh_handle_def)
    from Inr po t run have "hand_over exec d' mid now p opts req h (sv\<lparr>sv_store := s\<rparr>) = (res, sv')"
      by (simp add: svc_try_lock_def)
    then show ?thesis
    proof (cases rule: hand_over_cases)
      case (undone e)
      with taken(1,2) that(4) show ?thesis by simp
    next
      case (granted fence ttl)
      with taken(3) tok that(5) show ?thesis by simp
    qed
  qed
qed


lemma ex_service_admit:
  "admit ex_service (Some ''Bearer s3cret'') \<lparr>tl_key = ''ci/x'', tl_options = None, tl_session = []\<rparr> =
     Inr (make_principal (Shared ''s3cret'') ex_principal, default_options)"
  by (simp add: admit_def ex_service_def with_acl_def service_new_def check_ready_def svc_principal_def acl_resolve_def
      resolve_with_header_def ex_acl_def strip_prefix_def options_from_pb_def service_config_default_def from_secs_def
      check_lock_def may_def make_principal_def ex_principal_def anonymous_def with_ttl_opt_def default_options_def)

lemma ex_service_grant:
  "fst (svc_try_lock mem_exec Delivered Delivered id 0 ''t'' (Some ''Bearer s3cret'')
     \<lparr>tl_key = ''ci/x'', tl_options = None, tl_session = []\<rparr> ex_service) = Inr (Granted ''t'' 1 30000)"
proof -
  have s: "sv_store ex_service = mem_init" "sv_manager ex_service = ex_mgr" "reg_holders (sv_registry ex_service) k = None"
    "reg_count (sv_registry ex_service) q = 0" for k q
    by (simp_all add: ex_service_def with_acl_def service_new_def registry_new_def reg_count_def)
  have m: "as_millis_u64 (lo_ttl default_options) = 30000"
    by (simp add: as_millis_u64_def as_millis_def default_options_def from_secs_def)
  have "fst (try_lock_with mem_exec Delivered ex_mgr ''t'' ''ci/x'' default_options mem_init) =
      Inr (new_handle ex_mgr ''t'' ''ci/x'' default_options 1)"
    using mem.try_lock_with_free(1) [OF ex_init, of ex_mgr "''t''" "''ci/x''"] by simp
  then obtain u where "try_lock_with mem_exec Delivered ex_mgr ''t'' ''ci/x'' default_options mem_init =
      (Inr (new_handle ex_mgr ''t'' ''ci/x'' default_options 1), u)"
    by (cases "try_lock_with mem_exec Delivered ex_mgr ''t'' ''ci/x'' default_options mem_init") simp
  then show ?thesis
    by (simp add: svc_try_lock_def ex_service_admit s hand_over_def registry_try_acquire_def max_keys_def
        make_principal_def ex_principal_def anonymous_def granted_outcome_def disarm_def mark_released_def m)
qed


text \<open>A key stays registered when its lease lapses without an unlock. The next grant of that key is
  not charged to its new holder, however many keys that principal already has, and the old holder
  keeps paying for it.\<close>

theorem stale_slot_bypasses_quota:
  assumes "admit sv b req = Inr (p, opts)" "tl_session req = []"
    and "try_lock_with exec d (sv_manager sv) tok (tl_key req) opts (sv_store sv) = (Inr h, s)"
    and "reg_holders (sv_registry sv) (tl_key req) = Some q"
  shows "svc_try_lock exec d d' mid now tok b req sv =
    (Inr (Granted tok (fence_value (hs_fence h)) (as_millis_u64 (lo_ttl opts))), sv\<lparr>sv_store := s\<rparr>)"
proof -
  have "hs_token h = tok"
    using assms(3) by (auto simp: try_lock_with_def split: sum.splits prod.splits if_splits)
  with assms show ?thesis
    by (simp add: svc_try_lock_def hand_over_def registry_try_acquire_def granted_outcome_def disarm_def mark_released_def)
qed

section \<open>The service invariant\<close>

text \<open>Every request the service answers and every turn of its sweeper.\<close>

inductive svc_step :: "'s server \<Rightarrow> 's PalisadeService \<Rightarrow> 's PalisadeService \<Rightarrow> bool" for exec where
  lock: "svc_step exec sv (snd (svc_try_lock exec d d' mid now tok b req sv))"
| lock_for: "svc_try_lock_for exec as d' mid now now' b req wait sv = Some (res, sv') \<Longrightarrow> svc_step exec sv sv'"
| unlock: "svc_step exec sv (snd (svc_unlock exec d b key tok sv))"
| extend: "svc_step exec sv (snd (svc_extend exec d b key tok ms sv))"
| watch: "svc_step exec sv (snd (svc_watch b key sv))"
| watch_end: "svc_step exec sv (watch_ended c sub sv)"
| register: "svc_step exec sv (snd (svc_register_session tok now now' client ms sv))"
| heartbeat: "svc_step exec sv (snd (svc_heartbeat now tok sv))"
| close: "svc_step exec sv (snd (svc_close_session exec ds tok sv))"
| describe: "svc_step exec sv (snd (svc_describe_key exec d mid mid' b key sv))"
| force: "svc_step exec sv (snd (svc_unlock_force exec d b key sv))"
| listing: "svc_list_locks exec dk scans b key sv = Some (res, sv') \<Longrightarrow> svc_step exec sv sv'"
| sweep: "sw_before v = (\<lambda>_. id) \<Longrightarrow> svc_step exec sv (svc_sweep exec v now sv)"
| drain: "svc_step exec sv (set_ready r sv)"
| environment: "svc_step exec sv (sv\<lparr>sv_store := s\<rparr>)"

inductive svc_reach :: "'s server \<Rightarrow> 's PalisadeService \<Rightarrow> bool" for exec where
  start: "svc_reach exec (with_acl acl (service_new mgr config s))"
| step: "svc_reach exec sv \<Longrightarrow> svc_step exec sv sv' \<Longrightarrow> svc_reach exec sv'"

definition books_ok :: "'s PalisadeService \<Rightarrow> bool" where
  "books_ok sv \<longleftrightarrow> registry_inv (sv_registry sv) \<and> distinct (map fst (sv_sessions sv))"

lemma books_ok_simps [simp]:
  "books_ok (sv\<lparr>sv_store := s\<rparr>) = books_ok sv"
  "books_ok (sv\<lparr>sv_watchers := w\<rparr>) = books_ok sv"
  "books_ok (sv\<lparr>sv_hub := h\<rparr>) = books_ok sv"
  "books_ok (sv\<lparr>sv_ready := r\<rparr>) = books_ok sv"
  by (simp_all add: books_ok_def)

lemma session_ops_distinct:
  assumes "distinct (map fst book)"
  shows "distinct (map fst (snd (session_bind t k l now book)))"
    and "distinct (map fst (snd (session_heartbeat t now book)))"
    and "distinct (map fst (snd (session_register c ttl t now now' book)))"
    and "distinct (map fst (fst (snd (session_close exec ds t (book, s)))))"
  using assms
  by (auto simp: session_bind_def session_heartbeat_def session_register_def session_close_def session_remove_def
      distinct_update distinct_delete split: option.splits prod.splits)

lemma hand_over_books: "books_ok sv \<Longrightarrow> books_ok (snd (hand_over exec d mid now p opts req h sv))"
proof -
  assume ok: "books_ok sv"
  obtain bound book where b: "(if tl_session req = [] then (True, sv_sessions sv)
      else session_bind (tl_session req) (tl_key req) (hs_token h) now (sv_sessions sv)) = (bound, book)" by fastforce
  obtain got reg where r: "registry_try_acquire (tl_key req) (pr_name p) (max_keys p) (sv_registry sv) = (got, reg)" by fastforce
  have "distinct (map fst book)"
    using session_ops_distinct(1) [of "sv_sessions sv" "tl_session req" "tl_key req" "hs_token h" now] b ok
    by (auto simp: books_ok_def split: if_splits)
  moreover have "registry_inv reg"
    using registry.step_invar(1) [of "sv_registry sv" "tl_key req" "pr_name p" "max_keys p"] r ok by (simp add: books_ok_def)
  ultimately show ?thesis
    using ok b r by (auto simp: hand_over_def Let_def books_ok_def split: bool.splits)
qed

lemma sweep_keeps_distinct:
  assumes "sw_before v = (\<lambda>_. id)" "distinct (map fst (fst bs))"
  shows "distinct (map fst (fst (sweep_each exec v ts bs)))"
  using assms(2)
proof (induction ts arbitrary: bs)
  case (Cons t ts)
  then show ?case
    using session_ops_distinct(4) [of "fst bs" exec "sw_unlock v" t "snd bs"] by (auto simp: assms(1) Let_def)
qed simp

lemma svc_step_books:
  assumes "svc_step exec sv sv'" "books_ok sv"
  shows "books_ok sv'"
  using assms
proof (induction rule: svc_step.induct)
  case (lock sv d d' mid now tok b req)
  then show ?case
    by (auto simp: svc_try_lock_def intro!: hand_over_books split: sum.splits prod.splits error.splits)
next
  case (lock_for as d' mid now now' b req wait sv res sv')
  have ho: "books_ok sv'" if "hand_over exec d' mid now' p opts req h (sv\<lparr>sv_store := s\<rparr>) = (res, sv')" for p opts h s
    using hand_over_books [of "sv\<lparr>sv_store := s\<rparr>" exec d' mid now' p opts req h] that lock_for.prems by simp
  from lock_for show ?case
    by (auto simp: svc_try_lock_for_def dest: ho split: sum.splits prod.splits error.splits option.splits)
next
  case (unlock sv d b key tok)
  then show ?case
    using registry.step_invar(2) by (auto simp: svc_unlock_def Let_def books_ok_def split: sum.splits prod.splits)
next
  case (register sv tok now now' client ms)
  then show ?case
    using session_ops_distinct(3) by (auto simp: svc_register_session_def Let_def books_ok_def session_register_def)
next
  case (heartbeat sv now tok)
  then show ?case
    using session_ops_distinct(2) [of "sv_sessions sv" tok now] by (auto simp: svc_heartbeat_def books_ok_def split: prod.splits)
next
  case (close sv ds tok)
  then show ?case
    using session_ops_distinct(4) [of "sv_sessions sv" exec ds tok "sv_store sv"]
    by (auto simp: svc_close_session_def books_ok_def split: prod.splits)
next
  case (force sv d b key)
  then show ?case
    using registry.step_invar(2) by (auto simp: svc_unlock_force_def books_ok_def split: sum.splits prod.splits)
next
  case (sweep v sv now)
  then show ?case
    using sweep_keeps_distinct [of v "(sv_sessions sv, sv_store sv)" exec]
    by (auto simp: svc_sweep_def sweep_once_def books_ok_def split: prod.splits) (metis fst_conv)
qed (auto simp: svc_extend_def svc_watch_def watch_ended_def svc_describe_key_def svc_list_locks_def set_ready_def Let_def
    books_ok_def split: sum.splits prod.splits option.splits)

text \<open>Property C16. The service's books stay consistent. In every state that requests, sweeps, drains
  and changes of the store by others can produce, the number the registry keeps for a principal
  is exactly the number of keys registered to it, and no session token is listed twice.\<close>

theorem service_books_consistent:
  assumes "svc_reach exec sv"
  shows "reg_count (sv_registry sv) p = card {k. reg_holders (sv_registry sv) k = Some p} \<and>
    distinct (map fst (sv_sessions sv))"
proof -
  have "books_ok sv" using assms
  proof (induction rule: svc_reach.induct)
    case (start acl mgr config s)
    show ?case using registry_new_inv by (simp add: books_ok_def with_acl_def service_new_def)
  qed (rule svc_step_books)
  then show ?thesis by (simp add: books_ok_def registry_inv_def)
qed

theorem service_books_consistent_witness:
  "reg_count (sv_registry (snd (svc_try_lock mem_exec Delivered Delivered id 0 ''t'' (Some ''Bearer s3cret'')
     \<lparr>tl_key = ''ci/x'', tl_options = None, tl_session = []\<rparr> ex_service))) ''ci'' =
   card {k. reg_holders (sv_registry (snd (svc_try_lock mem_exec Delivered Delivered id 0 ''t'' (Some ''Bearer s3cret'')
     \<lparr>tl_key = ''ci/x'', tl_options = None, tl_session = []\<rparr> ex_service))) k = Some ''ci''}"
proof -
  have "svc_reach mem_exec ex_service" unfolding ex_service_def by (rule svc_reach.start)
  from service_books_consistent [OF svc_reach.step [OF this svc_step.lock]] show ?thesis by blast
qed

end
