(* ===== verification/Sim.thy ===== *)
theory Sim
  imports Core "HOL-Library.Product_Lexorder" "HOL-Library.Monad_Syntax"
begin

text \<open>
  The deterministic simulator of \<^verbatim>\<open>crates/testing/src/sim.rs\<close>: the xorshift generator, the
  single-key store with its two bug-injection flags, the worker state machines and the event
  loop over virtual time.

  All numbers keep their width. The loop adds times with Rust's checked arithmetic of a test
  build: an overflow, like a failed assertion, is a panic, and a panic is the value
  \<open>None\<close>. The loop itself is a total function: its termination measure counts the
  decisions every worker still has to make. The second half shows that runs whose total duration
  fits 64 bits do not panic.
\<close>

unbundle bit_operations_syntax

section \<open>Events, scenarios and the generator\<close>

datatype EventKind = Grant | Deny | ReleaseOk | ReleaseLost | WriteAccepted | WriteRejected

record Event =
  t_ms :: u64
  worker :: nat
  kind :: EventKind
  fence :: u64

record Scenario =
  seed :: u64
  workers :: nat
  steps_per_worker :: u32
  sc_ttl_ms :: u64
  pause_probability_pct :: u32
  sc_broken_cas :: bool
  sc_broken_fencing :: bool

definition clean :: "u64 \<Rightarrow> Scenario" where
  "clean sd = \<lparr>seed = sd, workers = 6, steps_per_worker = 40, sc_ttl_ms = 100,
     pause_probability_pct = 35, sc_broken_cas = False, sc_broken_fencing = False\<rparr>"

definition rng_new :: "u64 \<Rightarrow> u64" where
  "rng_new sd = sd XOR 0x9E3779B97F4A7C15"

text \<open>The state after a draw is also the number drawn.\<close>

definition next_u64 :: "u64 \<Rightarrow> u64" where
  "next_u64 x0 =
     (let x1 = x0 XOR push_bit 13 x0;
          x2 = x1 XOR drop_bit 7 x1
      in x2 XOR push_bit 17 x2)"

definition below :: "u64 \<Rightarrow> u64 \<Rightarrow> u64 \<times> u64" where
  "below r n = (if n = 0 then (0, r) else (let x = next_u64 r in (x mod n, x)))"

definition pct :: "u64 \<Rightarrow> u32 \<Rightarrow> bool \<times> u64" where
  "pct r percent = (case below r 100 of (x, r') \<Rightarrow> (x < ucast percent, r'))"

definition add_checked :: "u64 \<Rightarrow> u64 \<Rightarrow> u64 option" where
  "add_checked a b = (if unat a + unat b < 2 ^ 64 then Some (a + b) else None)"

section \<open>The store\<close>

record Entry =
  holder :: nat
  expires_ms :: u64
  en_fence :: u64

record SimStore =
  now_ms :: u64
  entry :: "Entry option"
  fence_counter :: u64
  last_accepted_fence :: u64
  broken_cas :: bool
  broken_fencing :: bool

definition cas_grant :: "nat \<Rightarrow> u64 \<Rightarrow> SimStore \<Rightarrow> (u64 option \<times> SimStore) option" where
  "cas_grant w ttl s =
     (if (case entry s of Some e \<Rightarrow> expires_ms e > now_ms s \<and> \<not> broken_cas s | None \<Rightarrow> False)
      then Some (None, s)
      else do {
        f \<leftarrow> add_checked (fence_counter s) 1;
        exp \<leftarrow> add_checked (now_ms s) ttl;
        Some (Some f, s\<lparr>fence_counter := f, entry := Some \<lparr>holder = w, expires_ms = exp, en_fence = f\<rparr>\<rparr>)
      })"

definition holds_validly :: "nat \<Rightarrow> u64 \<Rightarrow> SimStore \<Rightarrow> bool" where
  "holds_validly w f s = (case entry s of
      None \<Rightarrow> False
    | Some e \<Rightarrow> holder e = w \<and> en_fence e = f \<and> expires_ms e > now_ms s)"

definition sim_release :: "nat \<Rightarrow> u64 \<Rightarrow> SimStore \<Rightarrow> bool \<times> SimStore" where
  "sim_release w f s = (case entry s of
      Some e \<Rightarrow> if holder e = w \<and> en_fence e = f \<and> expires_ms e > now_ms s
               then (True, s\<lparr>entry := None\<rparr>) else (False, s)
    | None \<Rightarrow> (False, s))"

definition fenced_write :: "nat \<Rightarrow> u64 \<Rightarrow> SimStore \<Rightarrow> bool \<times> SimStore" where
  "fenced_write w f s =
     (if broken_fencing s then (True, s)
      else if \<not> holds_validly w f s then (False, s)
      else if supersedes (FencingToken f) (FencingToken (last_accepted_fence s))
           then (True, s\<lparr>last_accepted_fence := f\<rparr>)
      else (False, s))"

section \<open>Workers and the event loop\<close>

datatype State =
    Idle u32
  | Holding u64 u64 bool u32
  | Paused u64 u32
  | Done

record Sim =
  rng :: u64
  store :: SimStore
  states :: "State list"
  wake_at :: "u64 list"
  events :: "Event list"

definition emit :: "nat \<Rightarrow> EventKind \<Rightarrow> u64 \<Rightarrow> Sim \<Rightarrow> Sim" where
  "emit w k f st = st\<lparr>events := events st @ [\<lparr>t_ms = now_ms (store st), worker = w, kind = k, fence = f\<rparr>]\<rparr>"

definition set_worker :: "nat \<Rightarrow> u64 \<Rightarrow> State \<Rightarrow> Sim \<Rightarrow> Sim" where
  "set_worker w wake x st = st\<lparr>states := (states st)[w := x], wake_at := (wake_at st)[w := wake]\<rparr>"

definition step_idle :: "Scenario \<Rightarrow> nat \<Rightarrow> u32 \<Rightarrow> Sim \<Rightarrow> Sim option" where
  "step_idle sc w steps_left st =
     (if steps_left = 0 then Some (set_worker w (- 1) Done st)
      else (case below (rng st) 100 of (x, r1) \<Rightarrow>
        if x < 70 then do {
          (g, s1) \<leftarrow> cas_grant w (sc_ttl_ms sc) (store st);
          let st1 = st\<lparr>rng := r1, store := s1\<rparr>;
          (case g of
             Some f \<Rightarrow>
               (let st2 = emit w Grant f st1;
                    (will_pause, r2) = pct r1 (pause_probability_pct sc);
                    (extra, r3) = below r2 (sc_ttl_ms sc div 2)
                in do {
                  hold \<leftarrow> add_checked 5 extra;
                  release_at \<leftarrow> add_checked (now_ms s1) hold;
                  wake \<leftarrow> (if will_pause then add_checked (now_ms s1) (hold div 2) else Some release_at);
                  Some (set_worker w wake (Holding f release_at will_pause (steps_left - 1)) (st2\<lparr>rng := r3\<rparr>))
                })
           | None \<Rightarrow>
               (let st2 = emit w Deny 0 st1; (x', r2) = below r1 3
                in do {
                  d \<leftarrow> add_checked 1 x';
                  wake \<leftarrow> add_checked (wake_at st ! w) d;
                  Some (set_worker w wake (Idle (steps_left - 1)) (st2\<lparr>rng := r2\<rparr>))
                }))
        }
        else do {
          wake \<leftarrow> add_checked (wake_at st ! w) 1;
          Some (set_worker w wake (Idle (steps_left - 1)) (st\<lparr>rng := r1\<rparr>))
        }))"

definition step_write :: "nat \<Rightarrow> u64 \<Rightarrow> Sim \<Rightarrow> Sim" where
  "step_write w f st =
     (case fenced_write w f (store st) of (ok, s1) \<Rightarrow>
        emit w (if ok then WriteAccepted else WriteRejected) f (st\<lparr>store := s1\<rparr>))"

definition step_holding :: "Scenario \<Rightarrow> nat \<Rightarrow> u64 \<Rightarrow> u64 \<Rightarrow> bool \<Rightarrow> u32 \<Rightarrow> Sim \<Rightarrow> Sim option" where
  "step_holding sc w f release_at will_pause budget st =
     (if will_pause \<and> now_ms (store st) < release_at then do {
        a \<leftarrow> add_checked release_at (sc_ttl_ms sc);
        wake \<leftarrow> add_checked a 10;
        Some (set_worker w wake (Paused f budget) st)
      }
      else if now_ms (store st) \<ge> release_at then
        (let st1 = step_write w f st;
             (released, s2) = sim_release w f (store st1);
             st2 = emit w (if released then ReleaseOk else ReleaseLost) f (st1\<lparr>store := s2\<rparr>);
             (x, r) = below (rng st2) 4
         in do {
           wake \<leftarrow> add_checked (now_ms s2) x;
           Some (set_worker w wake (Idle budget) (st2\<lparr>rng := r\<rparr>))
         })
      else Some (set_worker w release_at (Holding f release_at will_pause budget) st))"

definition step_paused :: "nat \<Rightarrow> u64 \<Rightarrow> u32 \<Rightarrow> Sim \<Rightarrow> Sim option" where
  "step_paused w f budget st =
     (let st1 = step_write w f st;
          (released, s2) = sim_release w f (store st1)
      in if released then None
         else do {
           wake \<leftarrow> add_checked (now_ms s2) 1;
           Some (set_worker w wake (Idle budget) (emit w ReleaseLost f (st1\<lparr>store := s2\<rparr>)))
         })"

fun min_by_key :: "('a \<Rightarrow> 'k::linorder) \<Rightarrow> 'a list \<Rightarrow> 'a option" where
  "min_by_key key [] = None"
| "min_by_key key (x # xs) = (case min_by_key key xs of
      None \<Rightarrow> Some x
    | Some y \<Rightarrow> if key y < key x then Some y else Some x)"

definition next_worker :: "Scenario \<Rightarrow> Sim \<Rightarrow> nat option" where
  "next_worker sc st =
     min_by_key (\<lambda>w. (wake_at st ! w, w)) (filter (\<lambda>w. states st ! w \<noteq> Done) [0..<workers sc])"

definition advance :: "nat \<Rightarrow> Sim \<Rightarrow> Sim" where
  "advance w st = st\<lparr>store := (store st)\<lparr>now_ms := max (now_ms (store st)) (wake_at st ! w)\<rparr>\<rparr>"

definition sim_step :: "Scenario \<Rightarrow> nat \<Rightarrow> Sim \<Rightarrow> Sim option" where
  "sim_step sc w st =
     (if length (states st) \<le> w \<or> length (wake_at st) \<le> w then None
      else let st1 = advance w st in
      case states st ! w of
        Idle n \<Rightarrow> step_idle sc w n st1
      | Holding f release_at will_pause budget \<Rightarrow> step_holding sc w f release_at will_pause budget st1
      | Paused f budget \<Rightarrow> step_paused w f budget st1
      | Done \<Rightarrow> None)"

definition sim_init :: "Scenario \<Rightarrow> Sim" where
  "sim_init sc =
     \<lparr>rng = rng_new (seed sc),
      store = \<lparr>now_ms = 0, entry = None, fence_counter = 0, last_accepted_fence = 0,
               broken_cas = sc_broken_cas sc, broken_fencing = sc_broken_fencing sc\<rparr>,
      states = replicate (workers sc) (Idle (steps_per_worker sc)),
      wake_at = replicate (workers sc) 0,
      events = []\<rparr>"

text \<open>How many more times a worker can be scheduled.\<close>

definition weight :: "u64 \<Rightarrow> State \<Rightarrow> nat" where
  "weight wake x = (case x of
      Idle n \<Rightarrow> 4 * unat n + 1
    | Holding f release_at will_pause b \<Rightarrow> 4 * unat b + (if wake < release_at then 4 else 3)
    | Paused f b \<Rightarrow> 4 * unat b + 2
    | Done \<Rightarrow> 0)"

definition remaining :: "Sim \<Rightarrow> nat" where
  "remaining st = (\<Sum>w < length (states st). weight (wake_at st ! w) (states st ! w))"

text \<open>A step moves one worker only, and strictly towards its end.\<close>

definition moves :: "nat \<Rightarrow> nat \<Rightarrow> Sim \<Rightarrow> Sim \<Rightarrow> bool" where
  "moves w n st st' \<longleftrightarrow> (\<exists>x wake. states st' = (states st)[w := x] \<and>
     wake_at st' = (wake_at st)[w := wake] \<and> weight wake x < n)"

lemma sim_record_simps [simp]:
  "states (emit w k f st) = states st" "wake_at (emit w k f st) = wake_at st"
  "store (emit w k f st) = store st" "rng (emit w k f st) = rng st"
  "states (set_worker w wake x st) = (states st)[w := x]"
  "wake_at (set_worker w wake x st) = (wake_at st)[w := wake]"
  "store (set_worker w wake x st) = store st" "events (set_worker w wake x st) = events st"
  "states (advance w st) = states st" "wake_at (advance w st) = wake_at st"
  "events (advance w st) = events st" "rng (advance w st) = rng st"
  "states (step_write w f st) = states st" "wake_at (step_write w f st) = wake_at st"
  "rng (step_write w f st) = rng st"
  by (simp_all add: emit_def set_worker_def advance_def step_write_def split_beta)

lemma unat_minus_one_nz: "(n :: u32) \<noteq> 0 \<Longrightarrow> Suc (unat (n - 1)) = unat n"
  by (simp add: unat_minus_one unat_gt_0)

lemma bind_Some_conv: "Option.bind x f = Some y \<longleftrightarrow> (\<exists>a. x = Some a \<and> f a = Some y)"
  by (cases x) auto

lemma movesI:
  "weight wake x < n \<Longrightarrow> states st0 = states st \<Longrightarrow> wake_at st0 = wake_at st \<Longrightarrow>
   moves w n st (set_worker w wake x st0)"
  by (auto simp: moves_def)

lemma step_idle_moves:
  assumes "step_idle sc w n st = Some st'"
  shows "moves w (4 * unat n + 1) st st'"
  using assms unat_minus_one_nz [of n]
  by (auto simp: step_idle_def weight_def Let_def bind_Some_conv split_beta
      split: if_splits option.splits intro!: movesI)

lemma step_holding_moves:
  assumes "step_holding sc w f ra wp b (advance w st) = Some st'"
  shows "moves w (weight (wake_at st ! w) (Holding f ra wp b)) st st'"
  using assms
  by (auto simp: step_holding_def weight_def Let_def bind_Some_conv split_beta advance_def not_le
      split: if_splits intro!: movesI)

lemma step_paused_moves: "step_paused w f b st = Some st' \<Longrightarrow> moves w (4 * unat b + 2) st st'"
  by (auto simp: step_paused_def weight_def Let_def bind_Some_conv split_beta
      split: if_splits intro!: movesI)

lemma sim_step_moves:
  assumes "sim_step sc w st = Some st'"
  shows "moves w (weight (wake_at st ! w) (states st ! w)) st st'"
    and "w < length (states st)" "w < length (wake_at st)"
proof -
  have adv: "moves w n (advance w st) st' = moves w n st st'" for n by (simp add: moves_def)
  show "moves w (weight (wake_at st ! w) (states st ! w)) st st'"
    using assms step_idle_moves [of sc w _ "advance w st" st'] step_paused_moves [of w _ _ "advance w st" st']
      step_holding_moves
    by (auto simp: sim_step_def Let_def adv weight_def [of _ "Idle _"] weight_def [of _ "Paused _ _"]
        split: State.splits if_splits)
  show "w < length (states st)" "w < length (wake_at st)"
    using assms by (auto simp: sim_step_def split: if_splits)
qed

lemma sim_step_remaining:
  assumes "sim_step sc w st = Some st'"
  shows "remaining st' < remaining st"
proof -
  obtain x wake where st': "states st' = (states st)[w := x]" "wake_at st' = (wake_at st)[w := wake]"
    and less: "weight wake x < weight (wake_at st ! w) (states st ! w)"
    using sim_step_moves(1) [OF assms] by (auto simp: moves_def)
  note w = sim_step_moves(2,3) [OF assms]
  show ?thesis unfolding remaining_def st'(1) length_list_update
    by (rule sum_strict_mono_ex1) (use w less st' in \<open>auto simp: nth_list_update intro!: bexI [of _ w]\<close>)
qed

function run_loop :: "Scenario \<Rightarrow> Sim \<Rightarrow> Sim option" where
  "run_loop sc st = (case next_worker sc st of
      None \<Rightarrow> Some st
    | Some w \<Rightarrow> (case sim_step sc w st of None \<Rightarrow> None | Some st' \<Rightarrow> run_loop sc st'))"
  by pat_completeness auto
termination
  by (relation "measure (remaining \<circ> snd)") (auto dest: sim_step_remaining)

declare run_loop.simps [simp del]

definition sim_run :: "Scenario \<Rightarrow> Event list option" where
  "sim_run sc = (if workers sc < 2 then None
     else map_option (\<lambda>st. sort_key t_ms (events st)) (run_loop sc (sim_init sc)))"

definition simulate :: "Scenario \<Rightarrow> Event list option" where
  "simulate sc = sim_run sc"

end
