(* ===== verification/Checker.thy ===== *)
theory Checker
  imports Sim
begin

text \<open>
  The history checker of \<^verbatim>\<open>crates/testing/src/checker.rs\<close>, the operation recorder
  (\<^verbatim>\<open>history.rs\<close>) and the bridge from recorded traffic to the checker (\<^verbatim>\<open>realtime.rs\<close>), with what
  an accepted history means: grants exclude each other, accepted fences increase, and every
  accepted write and successful release happens inside a hold.
\<close>

section \<open>The checker\<close>

record Violation =
  at_ms :: u64
  description :: string

record Checking =
  active :: "(nat \<times> u64) list"
  ck_last_accepted :: u64
  released_seen :: "(nat \<times> u64) list"

fun position :: "('a \<Rightarrow> bool) \<Rightarrow> 'a list \<Rightarrow> nat option" where
  "position P [] = None"
| "position P (x # xs) = (if P x then Some 0 else map_option Suc (position P xs))"

definition remove_nth :: "nat \<Rightarrow> 'a list \<Rightarrow> 'a list" where
  "remove_nth i xs = take i xs @ drop (Suc i) xs"

definition retain_live :: "u64 \<Rightarrow> Checking \<Rightarrow> Checking" where
  "retain_live t c = c\<lparr>active := filter (\<lambda>(w, ex). \<not> ex \<le> t) (active c),
     released_seen := released_seen c @ map (\<lambda>(w, _). (w, t)) (filter (\<lambda>(w, ex). ex \<le> t) (active c))\<rparr>"

definition violation :: "Event \<Rightarrow> string \<Rightarrow> Violation + 'a" where
  "violation e d = Inl \<lparr>at_ms = t_ms e, description = d\<rparr>"

definition check_event :: "u64 \<Rightarrow> Event \<Rightarrow> Checking \<Rightarrow> (Violation + Checking) option" where
  "check_event ttl e c0 =
     (let c = retain_live (t_ms e) c0; w = worker e in
      case kind e of
        Grant \<Rightarrow>
          (case active c of
             (other, _) # _ \<Rightarrow>
               Some (violation e (''worker '' @ show_nat w @ '' granted while worker '' @ show_nat other @
                 '' still validly holds''))
           | [] \<Rightarrow> do {
               ex \<leftarrow> add_checked (t_ms e) ttl;
               if fence e = 0 then Some (violation e ''grant without fencing token'')
               else Some (Inr (c\<lparr>active := active c @ [(w, ex)]\<rparr>))
             })
      | ReleaseOk \<Rightarrow>
          (case position (\<lambda>(v, _). v = w) (active c) of
             Some i \<Rightarrow> Some (Inr (c\<lparr>active := remove_nth i (active c),
                                  released_seen := released_seen c @ [(w, t_ms e)]\<rparr>))
           | None \<Rightarrow> Some (violation e (''worker '' @ show_nat w @ '' released a lock it does not validly hold'')))
      | ReleaseLost \<Rightarrow>
          (case find (\<lambda>(v, _). v = w) (active c) of
             Some (_, ex) \<Rightarrow>
               if t_ms e < ex
               then Some (violation e (''worker '' @ show_nat w @ '' told lease lost while still inside validity window''))
               else Some (Inr c)
           | None \<Rightarrow> Some (Inr c))
      | WriteAccepted \<Rightarrow>
          if \<not> list_ex (\<lambda>(v, _). v = w) (active c)
          then Some (violation e (''stale write ACCEPTED from worker '' @ show_nat w @ '' who holds nothing''))
          else if fence e \<le> ck_last_accepted c
          then Some (violation e (''fence '' @ show_nat (unat (fence e)) @
            '' accepted but not newer than last accepted '' @ show_nat (unat (ck_last_accepted c))))
          else Some (Inr (c\<lparr>ck_last_accepted := fence e\<rparr>))
      | WriteRejected \<Rightarrow> Some (Inr c)
      | Deny \<Rightarrow> Some (Inr c))"

fun check_from :: "u64 \<Rightarrow> Event list \<Rightarrow> Checking \<Rightarrow> (Violation + Checking) option" where
  "check_from ttl [] c = Some (Inr c)"
| "check_from ttl (e # es) c = (case check_event ttl e c of
      None \<Rightarrow> None
    | Some (Inl v) \<Rightarrow> Some (Inl v)
    | Some (Inr c') \<Rightarrow> check_from ttl es c')"

definition check_init :: Checking where
  "check_init = \<lparr>active = [], ck_last_accepted = 0, released_seen = []\<rparr>"

definition check :: "Event list \<Rightarrow> u64 \<Rightarrow> (Violation + unit) option" where
  "check history ttl = (case check_from ttl history check_init of
      None \<Rightarrow> None
    | Some (Inl v) \<Rightarrow> Some (Inl v)
    | Some (Inr _) \<Rightarrow> Some (Inr ()))"

section \<open>Recorded traffic\<close>

datatype OpKind = TryAcquire | Release | Extend

record HistoryEntry =
  he_key :: string
  he_op :: OpKind
  he_ok :: bool
  he_fence :: u64
  start_us :: u64
  end_us :: u64

record HistoryRecorder =
  entries :: "HistoryEntry list"
  origin :: duration

definition recorder_new :: "duration \<Rightarrow> HistoryRecorder" where
  "recorder_new now = \<lparr>entries = [], origin = now\<rparr>"

definition as_micros_u64 :: "duration \<Rightarrow> u64" where
  "as_micros_u64 d = of_nat (d div 1000)"

text \<open>Natural-number subtraction is the saturating difference of instants.\<close>

definition history_record ::
  "duration \<Rightarrow> string \<Rightarrow> OpKind \<Rightarrow> bool \<Rightarrow> u64 \<Rightarrow> duration \<Rightarrow> HistoryRecorder \<Rightarrow> HistoryRecorder" where
  "history_record now key op ok f started_at r =
     r\<lparr>entries := entries r @ [\<lparr>he_key = key, he_op = op, he_ok = ok, he_fence = f,
        start_us = as_micros_u64 (started_at - origin r), end_us = as_micros_u64 (now - origin r)\<rparr>]\<rparr>"

definition snapshot :: "HistoryRecorder \<Rightarrow> HistoryEntry list" where
  "snapshot r = entries r"

definition event_kind :: "HistoryEntry \<Rightarrow> EventKind option" where
  "event_kind e = (case he_op e of
      TryAcquire \<Rightarrow> Some (if he_ok e then Grant else Deny)
    | Release \<Rightarrow> Some (if he_ok e then ReleaseOk else ReleaseLost)
    | Extend \<Rightarrow> None)"

definition to_event :: "HistoryEntry \<Rightarrow> Event option" where
  "to_event e = map_option (\<lambda>k. \<lparr>t_ms = end_us e div 1000, worker = unat (he_fence e), kind = k,
     fence = he_fence e\<rparr>) (event_kind e)"

definition client_events :: "string \<Rightarrow> HistoryEntry list \<Rightarrow> Event list" where
  "client_events key es = sort_key t_ms (List.map_filter to_event (filter (\<lambda>e. he_key e = key) es))"

definition check_client_history :: "string \<Rightarrow> HistoryEntry list \<Rightarrow> u64 \<Rightarrow> (Violation + unit) option" where
  "check_client_history key es ttl = check (client_events key es) ttl"

section \<open>Meaning of an accepted history\<close>

lemma position_SomeD: "position P xs = Some i \<Longrightarrow> i < length xs \<and> P (xs ! i)"
  by (induction xs arbitrary: i) (auto split: if_splits)

lemma position_None: "position P xs = None \<longleftrightarrow> (\<forall>x \<in> set xs. \<not> P x)"
  by (induction xs) auto

lemma mem_remove_nth:
  assumes "position P xs = Some i" "x \<in> set xs" "\<not> P x"
  shows "x \<in> set (remove_nth i xs)"
proof -
  have i: "i < length xs" "P (xs ! i)" using position_SomeD [OF assms(1)] by auto
  then have "xs = take i xs @ xs ! i # drop (Suc i) xs" by (simp add: id_take_nth_drop)
  then have "set xs = set (take i xs) \<union> {xs ! i} \<union> set (drop (Suc i) xs)"
    by (metis Un_insert_right list.simps(15) set_append sup_bot.right_neutral Un_insert_left)
  with assms(2,3) i(2) show ?thesis by (auto simp: remove_nth_def)
qed

lemma set_remove_nth: "set (remove_nth i xs) \<subseteq> set xs"
  by (auto simp: remove_nth_def dest: in_set_takeD in_set_dropD)

lemma add_checked_Some: "add_checked a b = Some c \<Longrightarrow> unat c = unat a + unat b"
  by (auto simp: add_checked_def unat_word_ariths split: if_splits)

lemma check_from_append:
  "check_from ttl (xs @ ys) c = (case check_from ttl xs c of
     Some (Inr c') \<Rightarrow> check_from ttl ys c' | r \<Rightarrow> r)"
  by (induction xs arbitrary: c) (auto split: option.splits sum.splits)

lemma active_retain: "active (retain_live t c) = filter (\<lambda>(w, ex). t < ex) (active c)"
  by (simp add: retain_live_def not_le)

lemma last_retain [simp]: "ck_last_accepted (retain_live t c) = ck_last_accepted c"
  by (simp add: retain_live_def)

lemma check_fences:
  "check_from ttl h c = Some (Inr c') \<Longrightarrow>
   sorted_wrt (<) (ck_last_accepted c # map fence (filter (\<lambda>e. kind e = WriteAccepted) h))"
proof (induction h arbitrary: c)
  case (Cons e h)
  then obtain c1 where c1: "check_event ttl e c = Some (Inr c1)" "check_from ttl h c1 = Some (Inr c')"
    by (auto split: option.splits sum.splits)
  have "ck_last_accepted c1 = (if kind e = WriteAccepted then fence e else ck_last_accepted c) \<and>
      (kind e = WriteAccepted \<longrightarrow> ck_last_accepted c < fence e)"
    using c1(1) by (auto simp: check_event_def violation_def Let_def bind_Some_conv not_le
        split: EventKind.splits list.splits option.splits if_splits)
  with Cons.IH [OF c1(2)] show ?case by (auto split: if_splits dest: less_trans)
qed simp

text \<open>A hold stays in the active list until its worker's release or its expiry, and no grant
  is accepted while it is there.\<close>

lemma active_blocks:
  assumes "check_from ttl (b @ f # cs) c = Some (Inr c')" "(w, ex) \<in> set (active c)" "kind f = Grant"
    and "\<forall>e \<in> set (b @ [f]). t_ms e < ex"
  shows "\<exists>e \<in> set b. kind e = ReleaseOk \<and> worker e = w"
  using assms
proof (induction b arbitrary: c)
  case Nil
  then have "(w, ex) \<in> set (active (retain_live (t_ms f) c))" by (simp add: active_retain)
  with Nil show ?case
    by (auto simp: check_event_def Let_def violation_def split: option.splits sum.splits list.splits)
next
  case (Cons e b)
  then obtain c1 where c1: "check_event ttl e c = Some (Inr c1)" "check_from ttl (b @ f # cs) c1 = Some (Inr c')"
    by (auto split: option.splits sum.splits)
  have r: "(w, ex) \<in> set (active (retain_live (t_ms e) c))"
    using Cons.prems by (simp add: active_retain)
  show ?case
  proof (cases "kind e = ReleaseOk \<and> worker e = w")
    case False
    have "(w, ex) \<in> set (active c1)"
      using c1(1) r False
      by (auto simp: check_event_def Let_def violation_def bind_Some_conv intro!: mem_remove_nth
          split: EventKind.splits option.splits list.splits if_splits)
    then show ?thesis using Cons.IH [OF c1(2)] Cons.prems(3,4) by auto
  qed auto
qed

text \<open>The declarative notion: at position \<open>j\<close> the worker is inside a hold.\<close>

definition holds_at :: "Event list \<Rightarrow> u64 \<Rightarrow> nat \<Rightarrow> nat \<Rightarrow> bool" where
  "holds_at h ttl j w \<longleftrightarrow> (\<exists>i < j. kind (h ! i) = Grant \<and> worker (h ! i) = w \<and>
     unat (t_ms (h ! j)) < unat (t_ms (h ! i)) + unat ttl \<and>
     (\<forall>k. i < k \<and> k < j \<longrightarrow> \<not> (kind (h ! k) = ReleaseOk \<and> worker (h ! k) = w)))"

definition granted_hold :: "Event list \<Rightarrow> u64 \<Rightarrow> nat \<times> u64 \<Rightarrow> bool" where
  "granted_hold p ttl x \<longleftrightarrow> (case x of (w, ex) \<Rightarrow>
     \<exists>i < length p. kind (p ! i) = Grant \<and> worker (p ! i) = w \<and>
       unat ex = unat (t_ms (p ! i)) + unat ttl \<and>
       (\<forall>k. i < k \<and> k < length p \<longrightarrow> \<not> (kind (p ! k) = ReleaseOk \<and> worker (p ! k) = w)))"

lemma granted_hold_snoc:
  assumes "granted_hold p ttl (w, ex)" "\<not> (kind e = ReleaseOk \<and> worker e = w)"
  shows "granted_hold (p @ [e]) ttl (w, ex)"
proof -
  obtain i where i: "i < length p" "kind (p ! i) = Grant" "worker (p ! i) = w"
    "unat ex = unat (t_ms (p ! i)) + unat ttl"
    "\<forall>k. i < k \<and> k < length p \<longrightarrow> \<not> (kind (p ! k) = ReleaseOk \<and> worker (p ! k) = w)"
    using assms(1) by (auto simp: granted_hold_def)
  then show ?thesis using assms(2)
    by (auto simp: granted_hold_def nth_append less_Suc_eq intro!: exI [of _ i])
qed

lemma granted_hold_last:
  "kind e = Grant \<Longrightarrow> worker e = w \<Longrightarrow> unat ex = unat (t_ms e) + unat ttl \<Longrightarrow> granted_hold (p @ [e]) ttl (w, ex)"
  unfolding granted_hold_def by (auto intro!: exI [of _ "length p"])

lemma filter_le_Suc: "length xs \<le> Suc 0 \<Longrightarrow> length (filter P xs) \<le> Suc 0"
  by (rule order_trans [OF length_filter_le])

lemma check_event_active:
  assumes "check_event ttl e c = Some (Inr c')" "length (active c) \<le> 1"
    and "\<forall>x \<in> set (active c). granted_hold p ttl x"
  shows "length (active c') \<le> 1 \<and> (\<forall>x \<in> set (active c'). granted_hold (p @ [e]) ttl x)"
proof -
  let ?c = "retain_live (t_ms e) c"
  have len: "length (active ?c) \<le> Suc 0"
    using assms(2) filter_le_Suc by (simp add: active_retain)
  have hold: "\<forall>x \<in> set (active ?c). granted_hold p ttl x"
    using assms(3) by (simp add: active_retain)
  show ?thesis
  proof (cases "kind e")
    case Grant
    with assms(1) show ?thesis
      by (auto simp: check_event_def Let_def violation_def bind_Some_conv intro!: granted_hold_last
          dest: add_checked_Some split: list.splits if_splits)
  next
    case ReleaseOk
    with assms(1) obtain i where i: "position (\<lambda>(v, _). v = worker e) (active ?c) = Some i"
      "active c' = remove_nth i (active ?c)"
      by (auto simp: check_event_def Let_def violation_def split: option.splits)
    have "i = 0 \<and> length (active ?c) = 1" using position_SomeD [OF i(1)] len by simp
    then show ?thesis using i(2) by (simp add: remove_nth_def)
  qed (use assms(1) len hold in \<open>auto simp: check_event_def Let_def violation_def
      intro: granted_hold_snoc split: option.splits if_splits\<close>)
qed

lemma check_from_active:
  assumes "check_from ttl h check_init = Some (Inr c)"
  shows "length (active c) \<le> 1 \<and> (\<forall>x \<in> set (active c). granted_hold h ttl x)"
  using assms
proof (induction h arbitrary: c rule: rev_induct)
  case (snoc e h)
  then obtain c1 where "check_from ttl h check_init = Some (Inr c1)" "check_event ttl e c1 = Some (Inr c)"
    by (auto simp: check_from_append split: option.splits sum.splits)
  with snoc.IH [of c1] check_event_active [of ttl e c1 c h] show ?case by simp
qed (simp add: check_init_def)

lemma check_accepts: "check h ttl = Some (Inr ()) \<longleftrightarrow> (\<exists>c. check_from ttl h check_init = Some (Inr c))"
  by (auto simp: check_def split: option.splits sum.splits)

lemma holds_at_split:
  assumes "granted_hold p ttl (w, ex)" "t_ms e < ex"
  shows "holds_at (p @ e # q) ttl (length p) w"
proof -
  obtain i where "i < length p" "kind (p ! i) = Grant" "worker (p ! i) = w"
    "unat ex = unat (t_ms (p ! i)) + unat ttl"
    "\<forall>k. i < k \<and> k < length p \<longrightarrow> \<not> (kind (p ! k) = ReleaseOk \<and> worker (p ! k) = w)"
    using assms(1) by (auto simp: granted_hold_def)
  then show ?thesis using assms(2)
    by (auto simp: holds_at_def nth_append word_less_nat_alt intro!: exI [of _ i])
qed

lemma check_inside_hold:
  assumes "check (p @ e # q) ttl = Some (Inr ())" "kind e = WriteAccepted \<or> kind e = ReleaseOk"
  shows "holds_at (p @ e # q) ttl (length p) (worker e)"
proof -
  obtain c c1 where c: "check_from ttl p check_init = Some (Inr c)" "check_event ttl e c = Some (Inr c1)"
    using assms(1) by (auto simp: check_accepts check_from_append split: option.splits sum.splits)
  have "\<exists>ex. (worker e, ex) \<in> set (active (retain_live (t_ms e) c))"
    using assms(2) c(2)
    by (auto simp: check_event_def Let_def violation_def list_ex_iff split: option.splits if_splits
        dest!: position_SomeD) (metis nth_mem)+
  then obtain ex where "(worker e, ex) \<in> set (active c)" "t_ms e < ex"
    by (auto simp: active_retain)
  with check_from_active [OF c(1)] show ?thesis by (intro holds_at_split) auto
qed

lemma check_exclusion:
  assumes "check (p @ e # b @ f # q) ttl = Some (Inr ())" "kind e = Grant" "kind f = Grant"
    and "\<forall>x \<in> set (b @ [f]). unat (t_ms x) < unat (t_ms e) + unat ttl"
  shows "\<exists>x \<in> set b. kind x = ReleaseOk \<and> worker x = worker e"
proof -
  obtain c c1 c2 where c: "check_event ttl e c = Some (Inr c1)" "check_from ttl (b @ f # q) c1 = Some (Inr c2)"
    using assms(1) by (auto simp: check_accepts check_from_append split: option.splits sum.splits)
  obtain ex where ex: "add_checked (t_ms e) ttl = Some ex" "(worker e, ex) \<in> set (active c1)"
    using c(1) assms(2)
    by (auto simp: check_event_def Let_def violation_def bind_Some_conv split: list.splits if_splits)
  have "\<forall>x \<in> set (b @ [f]). t_ms x < ex"
    using assms(4) add_checked_Some [OF ex(1)] by (simp add: word_less_nat_alt)
  with active_blocks [OF c(2) ex(2) assms(3)] show ?thesis by blast
qed

lemma split_two:
  assumes "i < j" "j < length h"
  shows "h = take i h @ h ! i # (take (j - Suc i) (drop (Suc i) h)) @ h ! j # drop (Suc j) h"
proof -
  have "drop (Suc i) h = take (j - Suc i) (drop (Suc i) h) @ h ! j # drop (Suc j) h"
    using assms id_take_nth_drop [of "j - Suc i" "drop (Suc i) h"] by simp
  then show ?thesis using assms by (simp flip: id_take_nth_drop)
qed

lemma check_exclusion_index:
  assumes "check h ttl = Some (Inr ())" "sorted (map t_ms h)"
    and "i < j" "j < length h" "kind (h ! i) = Grant" "kind (h ! j) = Grant"
    and "unat (t_ms (h ! j)) < unat (t_ms (h ! i)) + unat ttl"
  shows "\<exists>k. i < k \<and> k < j \<and> kind (h ! k) = ReleaseOk \<and> worker (h ! k) = worker (h ! i)"
proof -
  let ?b = "take (j - Suc i) (drop (Suc i) h)"
  have before: "t_ms (h ! k) \<le> t_ms (h ! j)" if "k \<le> j" for k
    using sorted_nth_mono [OF assms(2) that] assms(4) that by simp
  have b: "\<exists>k. i < k \<and> k < j \<and> x = h ! k" if x: "x \<in> set ?b" for x
  proof -
    obtain l where "l < length ?b" "x = ?b ! l" using x by (metis in_set_conv_nth)
    then show ?thesis using assms(3,4) by (intro exI [of _ "Suc i + l"]) auto
  qed
  have "\<forall>x \<in> set (?b @ [h ! j]). unat (t_ms x) < unat (t_ms (h ! i)) + unat ttl"
  proof
    fix x assume "x \<in> set (?b @ [h ! j])"
    then obtain k where "k \<le> j" "x = h ! k" using b [of x] by (auto dest: less_imp_le)
    with before assms(7) show "unat (t_ms x) < unat (t_ms (h ! i)) + unat ttl"
      by (meson le_less_trans word_le_nat_alt)
  qed
  with check_exclusion [of "take i h" "h ! i" ?b "h ! j" "drop (Suc j) h" ttl] assms split_two [OF assms(3,4)]
  show ?thesis using b by metis
qed

lemma to_event_SomeD:
  "to_event e = Some x \<Longrightarrow> t_ms x = end_us e div 1000 \<and> worker x = unat (he_fence e) \<and>
     (kind x = ReleaseOk \<longrightarrow> he_op e = Release \<and> he_ok e)"
  by (auto simp: to_event_def event_kind_def split: OpKind.splits if_splits)

section \<open>Properties\<close>

text \<open>Property C13. The checker is sound for mutual exclusion. In an accepted history in time order,
  if a second grant comes less than one lease after a first one, the first worker's release
  succeeded between the two.\<close>

theorem check_sound_exclusion:
  assumes "check h ttl = Some (Inr ())" "sorted (map t_ms h)"
    and "i < j" "j < length h" "kind (h ! i) = Grant" "kind (h ! j) = Grant"
    and "unat (t_ms (h ! j)) < unat (t_ms (h ! i)) + unat ttl"
  shows "\<exists>k. i < k \<and> k < j \<and> kind (h ! k) = ReleaseOk \<and> worker (h ! k) = worker (h ! i)"
  using assms by (rule check_exclusion_index)

definition ex_history :: "Event list" where
  "ex_history =
     [\<lparr>t_ms = 0, worker = 0, kind = Grant, fence = 1\<rparr>,
      \<lparr>t_ms = 40, worker = 0, kind = WriteAccepted, fence = 1\<rparr>,
      \<lparr>t_ms = 40, worker = 0, kind = ReleaseOk, fence = 1\<rparr>,
      \<lparr>t_ms = 60, worker = 1, kind = Grant, fence = 2\<rparr>]"

lemma ex_history_accepted: "check ex_history 100 = Some (Inr ())"
  by (simp add: ex_history_def check_def check_event_def check_init_def retain_live_def add_checked_def
      remove_nth_def violation_def)

theorem check_sound_exclusion_witness:
  "\<exists>k. 0 < k \<and> k < 3 \<and> kind (ex_history ! k) = ReleaseOk \<and> worker (ex_history ! k) = worker (ex_history ! 0)"
  by (rule check_sound_exclusion [OF ex_history_accepted]) (simp_all add: ex_history_def)

text \<open>Property C35. Accepted writes are fenced. In an accepted history the fences of accepted
  writes strictly increase, and every accepted write and every successful release happens
  while its worker is inside a hold of its own.\<close>

theorem check_sound_writes:
  assumes "check h ttl = Some (Inr ())"
  shows "sorted_wrt (<) (map fence (filter (\<lambda>e. kind e = WriteAccepted) h)) \<and>
    (\<forall>j < length h. kind (h ! j) = WriteAccepted \<or> kind (h ! j) = ReleaseOk \<longrightarrow>
       holds_at h ttl j (worker (h ! j)))"
proof (intro conjI allI impI)
  show "sorted_wrt (<) (map fence (filter (\<lambda>e. kind e = WriteAccepted) h))"
    using assms check_fences [of ttl h check_init] by (auto simp: check_accepts)
  fix j assume "j < length h" "kind (h ! j) = WriteAccepted \<or> kind (h ! j) = ReleaseOk"
  then show "holds_at h ttl j (worker (h ! j))"
    using check_inside_hold [of "take j h" "h ! j" "drop (Suc j) h" ttl] assms
    by (simp flip: id_take_nth_drop)
qed

theorem check_sound_writes_witness:
  "sorted_wrt (<) (map fence (filter (\<lambda>e. kind e = WriteAccepted) ex_history)) \<and> holds_at ex_history 100 2 0"
proof -
  have "2 < length ex_history" "kind (ex_history ! 2) = ReleaseOk" "worker (ex_history ! 2) = 0"
    by (simp_all add: ex_history_def)
  then show ?thesis using check_sound_writes [OF ex_history_accepted] by metis
qed

text \<open>Recorded traffic that passes is exclusive. If the recorded history of a key
  passes the client-side check, any two of its successful acquisitions that completed, in
  milliseconds, less than a lease apart and whose events are in completion order are separated by a successful release
  with the first one's fence.\<close>

theorem client_history_exclusive:
  assumes "check_client_history key es ttl = Some (Inr ())"
    and "i < j" "j < length (client_events key es)"
    and "kind (client_events key es ! i) = Grant" "kind (client_events key es ! j) = Grant"
    and "unat (t_ms (client_events key es ! j)) < unat (t_ms (client_events key es ! i)) + unat ttl"
  shows "\<exists>e \<in> set es. he_key e = key \<and> he_op e = Release \<and> he_ok e \<and>
     unat (he_fence e) = worker (client_events key es ! i) \<and>
     t_ms (client_events key es ! i) \<le> end_us e div 1000 \<and> end_us e div 1000 \<le> t_ms (client_events key es ! j)"
proof -
  let ?h = "client_events key es"
  have sorted: "sorted (map t_ms ?h)" by (simp add: client_events_def)
  obtain k where k: "i < k" "k < j" "kind (?h ! k) = ReleaseOk" "worker (?h ! k) = worker (?h ! i)"
    using check_exclusion_index [OF _ sorted assms(2-6)] assms(1) by (auto simp: check_client_history_def)
  have "?h ! k \<in> set ?h" using k(2) assms(3) by simp
  then obtain e where e: "e \<in> set es" "he_key e = key" "to_event e = Some (?h ! k)"
    by (auto simp: client_events_def map_filter_def)
  have "t_ms (?h ! i) \<le> t_ms (?h ! k)" "t_ms (?h ! k) \<le> t_ms (?h ! j)"
    using sorted_nth_mono [OF sorted, of i k] sorted_nth_mono [OF sorted, of k j] k(1,2) assms(3) by simp_all
  with to_event_SomeD [OF e(3)] e(1,2) k(3,4) show ?thesis by (intro bexI [OF _ e(1)]) auto
qed

definition ex_recorded :: "HistoryEntry list" where
  "ex_recorded = snapshot
     (history_record 60000000 ''k'' TryAcquire True 2 50000000
     (history_record 40000000 ''k'' Release True 1 39000000
     (history_record 0 ''k'' TryAcquire True 1 0 (recorder_new 0))))"

lemma ex_recorded_events: "client_events ''k'' ex_recorded =
    [\<lparr>t_ms = 0, worker = 1, kind = Grant, fence = 1\<rparr>,
     \<lparr>t_ms = 40, worker = 1, kind = ReleaseOk, fence = 1\<rparr>,
     \<lparr>t_ms = 60, worker = 2, kind = Grant, fence = 2\<rparr>]"
  by (simp add: client_events_def ex_recorded_def snapshot_def history_record_def recorder_new_def
      map_filter_def to_event_def event_kind_def as_micros_u64_def)

theorem client_history_exclusive_witness:
  "\<exists>e \<in> set ex_recorded. he_key e = ''k'' \<and> he_op e = Release \<and> he_ok e \<and> unat (he_fence e) = 1 \<and>
     0 \<le> end_us e div 1000 \<and> end_us e div 1000 \<le> 60"
  using client_history_exclusive [of "''k''" ex_recorded 100 0 2]
  by (simp add: check_client_history_def ex_recorded_events check_def check_event_def check_init_def
      retain_live_def add_checked_def remove_nth_def violation_def)

end
