(* ===== verification/Client.thy ===== *)
theory Client
  imports Service Checker
begin

text \<open>
  The client SDK (\<^verbatim>\<open>crates/client/src/lib.rs\<close>): the operations a program calls, over the gRPC
  handlers of the service.

  A remote operation takes the handler it reaches as an argument, as the generated stub does: a
  function of the \<^verbatim>\<open>authorization\<close> header, the request and the state of the other side, which
  answers with a message or a status. How the call itself fares on the network is its delivery.
  A history recorder is shared by a client and its handles and is passed along with
  the remote state; the instants at which operations start and end are arguments, and so is
  which text is a valid header value.
\<close>

section \<open>Events and messages\<close>

datatype WatchEvent = WAcquired u64 | WFreed u64

datatype WatchEventKind = KAcquired | KFreed

fun watch_kind :: "WatchEvent \<Rightarrow> WatchEventKind" where
  "watch_kind (WAcquired _) = KAcquired"
| "watch_kind (WFreed _) = KFreed"

fun watch_version :: "WatchEvent \<Rightarrow> u64" where
  "watch_version (WAcquired v) = v"
| "watch_version (WFreed v) = v"

definition status_to_error :: "Status \<Rightarrow> error" where
  "status_to_error status = Backend ''rpc failed''"

definition request_with_auth :: "(string \<Rightarrow> bool) \<Rightarrow> string option \<Rightarrow> string option" where
  "request_with_auth valid bearer =
     (case bearer of
        None \<Rightarrow> None
      | Some t \<Rightarrow> if valid (''Bearer '' @ t) then Some (''Bearer '' @ t) else None)"

definition options_pb :: "LockOptions \<Rightarrow> LockOptionsPb" where
  "options_pb options = \<lparr>pb_ttl_ms = as_millis_u64 (lo_ttl options), pb_watchdog = lo_watchdog options\<rparr>"

section \<open>Calls\<close>

type_synonym ('a, 'v) handler = "'v \<Rightarrow> 'a response \<times> 'v"

text \<open>A call that does not arrive, or whose answer is lost, ends in a transport status.\<close>

definition rpc_answer :: "delivery \<Rightarrow> 'a response \<times> 'v \<Rightarrow> 'a result \<times> 'v" where
  "rpc_answer d a =
     (case a of
        (Inl e, v) \<Rightarrow> (Inl (status_to_error e), v)
      | (Inr x, v) \<Rightarrow> (if d = Delivered then Inr x else Inl (status_to_error (Unavailable ''transport error'')), v))"

definition rpc :: "delivery \<Rightarrow> ('a, 'v) handler \<Rightarrow> 'v \<Rightarrow> 'a result \<times> 'v" where
  "rpc d f v =
     (if d = NotSent then (Inl (status_to_error (Unavailable ''transport error'')), v) else rpc_answer d (f v))"

text \<open>A handler that keeps the caller waiting may have no answer yet.\<close>

definition rpc_wait :: "delivery \<Rightarrow> ('v \<Rightarrow> ('a response \<times> 'v) option) \<Rightarrow> 'v \<Rightarrow> ('a result \<times> 'v) option" where
  "rpc_wait d f v =
     (if d = NotSent then Some (Inl (status_to_error (Unavailable ''transport error'')), v)
      else map_option (rpc_answer d) (f v))"

text \<open>The answer of a handler as the message the client decodes, whose payload is optional.\<close>

definition message :: "'a response \<times> 'v \<Rightarrow> 'a option response \<times> 'v" where
  "message a = (case a of (Inl e, v) \<Rightarrow> (Inl e, v) | (Inr x, v) \<Rightarrow> (Inr (Some x), v))"

section \<open>Clients\<close>

record ClientInner =
  ci_bearer :: "string option"
  ci_history :: bool
  ci_session :: "string option"

datatype dial = BadEndpoint | BadTls | Unreachable | Dialed

definition client_channel :: "bool \<Rightarrow> dial \<Rightarrow> unit result" where
  "client_channel tls out =
     (if out = BadEndpoint then Inl (InvalidConfig ''bad endpoint'')
      else if tls \<and> out = BadTls then Inl (InvalidConfig ''tls config rejected'')
      else if out = Dialed then Inr () else Inl (Backend ''connect failed''))"

definition client_connect :: "dial \<Rightarrow> ClientInner result" where
  "client_connect out = rbind (client_channel False out) (\<lambda>_. Inr \<lparr>ci_bearer = None, ci_history = False, ci_session = None\<rparr>)"

definition client_connect_mtls :: "dial \<Rightarrow> ClientInner result" where
  "client_connect_mtls out = rbind (client_channel True out) (\<lambda>_. Inr \<lparr>ci_bearer = None, ci_history = False, ci_session = None\<rparr>)"

definition with_history :: "ClientInner \<Rightarrow> ClientInner" where
  "with_history c = c\<lparr>ci_history := True\<rparr>"

definition with_token :: "string \<Rightarrow> ClientInner \<Rightarrow> ClientInner" where
  "with_token token c = c\<lparr>ci_bearer := Some token\<rparr>"

definition session_token :: "ClientInner \<Rightarrow> string" where
  "session_token c = (case ci_session c of None \<Rightarrow> [] | Some t \<Rightarrow> t)"

definition client_describe_key ::
  "(string \<Rightarrow> bool) \<Rightarrow> (string option \<Rightarrow> string \<Rightarrow> (bool \<times> u64 \<times> u64, 'v) handler) \<Rightarrow> delivery \<Rightarrow> ClientInner \<Rightarrow> string \<Rightarrow> 'v \<Rightarrow>
   (bool \<times> u64 \<times> u64) result \<times> 'v" where
  "client_describe_key valid stub d c key = rpc d (stub (request_with_auth valid (ci_bearer c)) key)"

definition client_unlock_force ::
  "(string \<Rightarrow> bool) \<Rightarrow> (string option \<Rightarrow> string \<Rightarrow> (bool, 'v) handler) \<Rightarrow> delivery \<Rightarrow> ClientInner \<Rightarrow> string \<Rightarrow> 'v \<Rightarrow> bool result \<times> 'v" where
  "client_unlock_force valid stub d c key = rpc d (stub (request_with_auth valid (ci_bearer c)) key)"

text \<open>Collecting a stream ends at its first error.\<close>

fun collect :: "'a response list \<Rightarrow> 'a list result" where
  "collect [] = Inr []"
| "collect (Inl e # xs) = Inl (status_to_error e)"
| "collect (Inr x # xs) = map_sum id (Cons x) (collect xs)"

definition client_list_locks ::
  "(string \<Rightarrow> bool) \<Rightarrow> (string option \<Rightarrow> string \<Rightarrow> 'v \<Rightarrow> (KeyState response list response \<times> 'v) option) \<Rightarrow> delivery \<Rightarrow> ClientInner \<Rightarrow>
   string \<Rightarrow> 'v \<Rightarrow> (KeyState list result \<times> 'v) option" where
  "client_list_locks valid stub d c pre v =
     map_option (\<lambda>(r, v'). (rbind r collect, v')) (rpc_wait d (stub (request_with_auth valid (ci_bearer c)) pre) v)"

section \<open>Sessions\<close>

text \<open>The heartbeat task of an attached session: the token it serves and its cadence.\<close>

record heart =
  hr_token :: string
  hr_cadence :: duration
  hr_running :: bool

definition attach_session ::
  "(string \<Rightarrow> bool) \<Rightarrow> (string option \<Rightarrow> string \<Rightarrow> u64 \<Rightarrow> (string \<times> u64, 'v) handler) \<Rightarrow> delivery \<Rightarrow> string \<Rightarrow> duration \<Rightarrow> ClientInner \<Rightarrow> 'v \<Rightarrow>
   heart result \<times> ClientInner \<times> 'v" where
  "attach_session valid stub d client_id ttl c v =
     (case rpc d (stub (request_with_auth valid (ci_bearer c)) client_id (as_millis_u64 ttl)) v of
        (Inl e, v') \<Rightarrow> (Inl e, c, v')
      | (Inr (token, _), v') \<Rightarrow>
          (Inr \<lparr>hr_token = token, hr_cadence = max (ttl div 3) (from_millis 500), hr_running = True\<rparr>,
           c\<lparr>ci_session := Some token\<rparr>, v'))"

definition heartbeat_turn ::
  "(string \<Rightarrow> bool) \<Rightarrow> (string option \<Rightarrow> string \<Rightarrow> (unit, 'v) handler) \<Rightarrow> delivery \<Rightarrow> bool \<Rightarrow> ClientInner \<Rightarrow> heart \<Rightarrow> 'v \<Rightarrow> heart \<times> 'v" where
  "heartbeat_turn valid stub d alive c hr v =
     (if \<not> hr_running hr then (hr, v)
      else if \<not> alive then (hr\<lparr>hr_running := False\<rparr>, v)
      else case ci_session c of
          Some t \<Rightarrow> if t = hr_token hr then (hr, snd (rpc d (stub (request_with_auth valid (ci_bearer c)) t) v))
                   else (hr\<lparr>hr_running := False\<rparr>, v)
        | None \<Rightarrow> (hr\<lparr>hr_running := False\<rparr>, v))"

definition client_close_session ::
  "(string \<Rightarrow> bool) \<Rightarrow> (string option \<Rightarrow> string \<Rightarrow> (u32, 'v) handler) \<Rightarrow> delivery \<Rightarrow> ClientInner \<Rightarrow> 'v \<Rightarrow> u32 result \<times> ClientInner \<times> 'v" where
  "client_close_session valid stub d c v =
     (case ci_session c of
        None \<Rightarrow> (Inr 0, c, v)
      | Some token \<Rightarrow>
          (case rpc d (stub (request_with_auth valid (ci_bearer c)) token) v of
             (r, v') \<Rightarrow> (r, c\<lparr>ci_session := None\<rparr>, v')))"

section \<open>Handles\<close>

record RemoteShared =
  rh_bearer :: "string option"
  rh_history :: bool
  rh_key :: string
  rh_token :: string
  rh_fence :: FencingToken
  rh_ttl :: duration
  rh_released :: bool
  rh_lost :: bool
  rh_watchdog :: bool

definition client_make_handle :: "ClientInner \<Rightarrow> string \<Rightarrow> string \<Rightarrow> u64 \<Rightarrow> LockOptions \<Rightarrow> RemoteShared" where
  "client_make_handle c key token f options =
     \<lparr>rh_bearer = ci_bearer c, rh_history = ci_history c, rh_key = key, rh_token = token, rh_fence = FencingToken f,
      rh_ttl = lo_ttl options, rh_released = False, rh_lost = False,
      rh_watchdog = (case lo_watchdog options of None \<Rightarrow> True | Some b \<Rightarrow> b)\<rparr>"

text \<open>When an operation starts and when its outcome is recorded.\<close>

record span =
  sp_start :: duration
  sp_end :: duration

definition note_op :: "bool \<Rightarrow> span \<Rightarrow> string \<Rightarrow> OpKind \<Rightarrow> bool \<Rightarrow> u64 \<Rightarrow> HistoryRecorder \<Rightarrow> HistoryRecorder" where
  "note_op on sp key op ok f r = (if on then history_record (sp_end sp) key op ok f (sp_start sp) r else r)"

definition client_try_lock ::
  "(string \<Rightarrow> bool) \<Rightarrow> (string option \<Rightarrow> TryLockRequest \<Rightarrow> (LockOutcome option, 'v) handler) \<Rightarrow> delivery \<Rightarrow> span \<Rightarrow> ClientInner \<Rightarrow> string \<Rightarrow>
   LockOptions \<Rightarrow> HistoryRecorder \<Rightarrow> 'v \<Rightarrow> RemoteShared result \<times> HistoryRecorder \<times> 'v" where
  "client_try_lock valid stub d sp c key options hist v =
     (let req = \<lparr>tl_key = key, tl_options = Some (options_pb options), tl_session = session_token c\<rparr> in
      case rpc d (stub (request_with_auth valid (ci_bearer c)) req) v of
        (Inl e, v') \<Rightarrow> (Inl e, hist, v')
      | (Inr (Some (Granted token f _)), v') \<Rightarrow>
          (Inr (client_make_handle c key token f options), note_op (ci_history c) sp key TryAcquire True f hist, v')
      | (Inr (Some (HeldOutcome _)), v') \<Rightarrow> (Inl (Held key), note_op (ci_history c) sp key TryAcquire False 0 hist, v')
      | (Inr _, v') \<Rightarrow> (Inl (Backend ''malformed LockOutcome''), hist, v'))"

definition client_try_lock_for ::
  "(string \<Rightarrow> bool) \<Rightarrow> (string option \<Rightarrow> TryLockRequest \<Rightarrow> u64 \<Rightarrow> 'v \<Rightarrow> (LockOutcome option response \<times> 'v) option) \<Rightarrow> delivery \<Rightarrow> span \<Rightarrow>
   ClientInner \<Rightarrow> string \<Rightarrow> LockOptions \<Rightarrow> duration \<Rightarrow> HistoryRecorder \<Rightarrow> 'v \<Rightarrow> (RemoteShared result \<times> HistoryRecorder \<times> 'v) option" where
  "client_try_lock_for valid stub d sp c key options wait hist v =
     (let req = \<lparr>tl_key = key, tl_options = Some (options_pb options), tl_session = session_token c\<rparr> in
      case rpc_wait d (stub (request_with_auth valid (ci_bearer c)) req (as_millis_u64 wait)) v of
        None \<Rightarrow> None
      | Some (Inl e, v') \<Rightarrow> Some (Inl e, hist, v')
      | Some (Inr (Some (Granted token f _)), v') \<Rightarrow>
          Some (Inr (client_make_handle c key token f options), note_op (ci_history c) sp key TryAcquire True f hist, v')
      | Some (Inr (Some (HeldOutcome _)), v') \<Rightarrow> Some (Inl (Held key), note_op (ci_history c) sp key TryAcquire False 0 hist, v')
      | Some (Inr (Some (TimedOut _)), v') \<Rightarrow> Some (Inl (Timeout key), note_op (ci_history c) sp key TryAcquire False 0 hist, v')
      | Some (Inr None, v') \<Rightarrow> Some (Inl (Backend ''malformed LockOutcome''), hist, v'))"

definition rh_mark_gone :: "RemoteShared \<Rightarrow> bool \<times> RemoteShared" where
  "rh_mark_gone h = (\<not> rh_released h, h\<lparr>rh_released := True\<rparr>)"

definition rh_mark_lost :: "RemoteShared \<Rightarrow> RemoteShared" where
  "rh_mark_lost h = h\<lparr>rh_lost := True\<rparr>"

definition rh_lost_error :: "RemoteShared \<Rightarrow> error" where
  "rh_lost_error h = Lost (rh_key h) (fence_value (rh_fence h))"

definition remote_fire_extend ::
  "(string \<Rightarrow> bool) \<Rightarrow> (string option \<Rightarrow> string \<Rightarrow> string \<Rightarrow> u64 \<Rightarrow> (ExtendResponse option, 'v) handler) \<Rightarrow> delivery \<Rightarrow> span \<Rightarrow>
   RemoteShared \<Rightarrow> duration \<Rightarrow> HistoryRecorder \<Rightarrow> 'v \<Rightarrow> bool result \<times> HistoryRecorder \<times> 'v" where
  "remote_fire_extend valid stub d sp h ttl hist v =
     (case rpc d (stub (request_with_auth valid (rh_bearer h)) (rh_key h) (rh_token h) (as_millis_u64 ttl)) v of
        (Inl e, v') \<Rightarrow> (Inl e, hist, v')
      | (Inr m, v') \<Rightarrow>
          let ok = (m = Some Extended) in
          (Inr ok, note_op (rh_history h) sp (rh_key h) Extend ok (fence_value (rh_fence h)) hist, v'))"

definition run_unlock ::
  "(string \<Rightarrow> bool) \<Rightarrow> (string option \<Rightarrow> string \<Rightarrow> string \<Rightarrow> (UnlockResponse option, 'v) handler) \<Rightarrow> delivery \<Rightarrow> span \<Rightarrow> RemoteShared \<Rightarrow>
   HistoryRecorder \<Rightarrow> 'v \<Rightarrow> unit result \<times> HistoryRecorder \<times> 'v" where
  "run_unlock valid stub d sp h hist v =
     (case rpc d (stub (request_with_auth valid (rh_bearer h)) (rh_key h) (rh_token h)) v of
        (Inl e, v') \<Rightarrow> (Inl e, hist, v')
      | (Inr m, v') \<Rightarrow>
          let released = (m = Some Released);
              hist' = note_op (rh_history h) sp (rh_key h) Release released (fence_value (rh_fence h)) hist in
          (if released then Inr () else Inl (rh_lost_error h), hist', v'))"

definition client_release ::
  "(string \<Rightarrow> bool) \<Rightarrow> (string option \<Rightarrow> string \<Rightarrow> string \<Rightarrow> (UnlockResponse option, 'v) handler) \<Rightarrow> delivery \<Rightarrow> span \<Rightarrow> RemoteShared \<Rightarrow>
   HistoryRecorder \<Rightarrow> 'v \<Rightarrow> unit result \<times> RemoteShared \<times> HistoryRecorder \<times> 'v" where
  "client_release valid stub d sp h hist v =
     (case rh_mark_gone h of
        (False, h') \<Rightarrow> (Inr (), h', hist, v)
      | (True, h') \<Rightarrow> (case run_unlock valid stub d sp h' hist v of (r, hist', v') \<Rightarrow> (r, h', hist', v')))"

text \<open>Dropping the last clone releases in the background, without recording.\<close>

definition client_drop ::
  "(string \<Rightarrow> bool) \<Rightarrow> (string option \<Rightarrow> string \<Rightarrow> string \<Rightarrow> (UnlockResponse option, 'v) handler) \<Rightarrow> delivery \<Rightarrow> span \<Rightarrow> bool \<Rightarrow> RemoteShared \<Rightarrow>
   HistoryRecorder \<Rightarrow> 'v \<Rightarrow> HistoryRecorder \<times> 'v" where
  "client_drop valid stub d sp runtime h hist v =
     (case rh_mark_gone h of
        (False, _) \<Rightarrow> (hist, v)
      | (True, h') \<Rightarrow> if runtime then snd (run_unlock valid stub d sp (h'\<lparr>rh_history := False\<rparr>) hist v) else (hist, v))"

definition client_extend ::
  "(string \<Rightarrow> bool) \<Rightarrow> (string option \<Rightarrow> string \<Rightarrow> string \<Rightarrow> u64 \<Rightarrow> (ExtendResponse option, 'v) handler) \<Rightarrow> delivery \<Rightarrow> span \<Rightarrow> duration \<Rightarrow>
   RemoteShared \<Rightarrow> HistoryRecorder \<Rightarrow> 'v \<Rightarrow> unit result \<times> RemoteShared \<times> HistoryRecorder \<times> 'v" where
  "client_extend valid stub d sp ttl h hist v =
     (if ttl < MIN_TTL then (Inl (InvalidConfig ''extend ttl is below the floor''), h, hist, v)
      else if rh_released h then (Inl (rh_lost_error h), h, hist, v)
      else case remote_fire_extend valid stub d sp h ttl hist v of
          (Inl e, hist', v') \<Rightarrow> (Inl e, h, hist', v')
        | (Inr True, hist', v') \<Rightarrow> (Inr (), h, hist', v')
        | (Inr False, hist', v') \<Rightarrow> (Inl (rh_lost_error h), rh_mark_lost h, hist', v'))"

section \<open>Renewal and watching\<close>

definition CLIENT_MAX_RENEW_FAILURES :: u32 where
  "CLIENT_MAX_RENEW_FAILURES = 2"

definition remote_watchdog_tick ::
  "(string \<Rightarrow> bool) \<Rightarrow> (string option \<Rightarrow> string \<Rightarrow> string \<Rightarrow> u64 \<Rightarrow> (ExtendResponse option, 'v) handler) \<Rightarrow> delivery \<Rightarrow> span \<Rightarrow> bool \<Rightarrow> watchdog \<Rightarrow>
   RemoteShared \<Rightarrow> HistoryRecorder \<Rightarrow> 'v \<Rightarrow> watchdog \<times> RemoteShared \<times> HistoryRecorder \<times> 'v" where
  "remote_watchdog_tick valid stub d sp alive w h hist v =
     (if \<not> wd_running w then (w, h, hist, v)
      else if \<not> alive \<or> rh_released h then (w\<lparr>wd_running := False\<rparr>, h, hist, v)
      else case remote_fire_extend valid stub d sp h (rh_ttl h) hist v of
          (Inr True, hist', v') \<Rightarrow> (w\<lparr>wd_failures := 0\<rparr>, h, hist', v')
        | (Inr False, hist', v') \<Rightarrow> (w\<lparr>wd_running := False\<rparr>, rh_mark_lost h, hist', v')
        | (Inl _, hist', v') \<Rightarrow>
            (let n = wd_failures w + 1 in
             if CLIENT_MAX_RENEW_FAILURES \<le> n then (w\<lparr>wd_failures := n, wd_running := False\<rparr>, rh_mark_lost h, hist', v')
             else (w\<lparr>wd_failures := n\<rparr>, h, hist', v')))"

text \<open>The forwarding task of a watch, over what the stream delivers; it stops at the first error and
  when a send finds the receiver gone, which happens after \<open>n\<close> deliveries.\<close>

fun watch_forward :: "nat \<Rightarrow> LockEvent option response list \<Rightarrow> WatchEvent list" where
  "watch_forward n [] = []"
| "watch_forward n (Inl _ # es) = []"
| "watch_forward n (Inr None # es) = watch_forward n es"
| "watch_forward 0 (Inr (Some _) # es) = []"
| "watch_forward (Suc n) (Inr (Some ev) # es) =
     (case ev of EvAcquired x \<Rightarrow> WAcquired x | EvFreed x \<Rightarrow> WFreed x) # watch_forward n es"

definition client_watch ::
  "(string \<Rightarrow> bool) \<Rightarrow> (string option \<Rightarrow> string \<Rightarrow> ('w, 'v) handler) \<Rightarrow> delivery \<Rightarrow> ClientInner \<Rightarrow> string \<Rightarrow> 'v \<Rightarrow> 'w result \<times> 'v" where
  "client_watch valid stub d c key = rpc d (stub (request_with_auth valid (ci_bearer c)) key)"

section \<open>Remote locks behave as local ones\<close>

definition open_service :: "'s PalisadeService \<Rightarrow> bool" where
  "open_service sv \<longleftrightarrow> sv_ready sv \<and> acl_open (sv_acl sv) \<and> acl_mode (sv_acl sv) = File"

text \<open>A lease the server accepts: at least a millisecond, and no longer than its maximum.\<close>

definition servable :: "'s PalisadeService \<Rightarrow> duration \<Rightarrow> bool" where
  "servable sv ttl \<longleftrightarrow> 0 < as_millis ttl \<and> as_millis ttl < 2 ^ 64 \<and> from_millis (as_millis ttl) \<le> sc_max_ttl (sv_config sv)"

text \<open>How the outcome of a store operation shows on the other side of the wire.\<close>

fun as_remote :: "error \<Rightarrow> error" where
  "as_remote (Held k) = Held k"
| "as_remote (Lost k f) = Lost k f"
| "as_remote e = Backend ''rpc failed''"

definition remote_of :: "HandleShared \<Rightarrow> RemoteShared \<Rightarrow> bool" where
  "remote_of h rh \<longleftrightarrow> rh_key rh = hs_key h \<and> rh_token rh = hs_token h \<and> rh_fence rh = hs_fence h \<and> rh_ttl rh = hs_ttl h \<and>
     rh_released rh = hs_released h \<and> rh_lost rh = hs_lost h \<and> hs_fence_key h = fence_key_for (hs_key h)"

definition sent_options :: "LockOptions \<Rightarrow> LockOptions" where
  "sent_options opts =
     (let o' = with_ttl_opt (from_millis (as_millis (lo_ttl opts))) default_options in
      case lo_watchdog opts of None \<Rightarrow> o' | Some wd \<Rightarrow> with_watchdog wd o')"

lemma open_principal: "open_service sv \<Longrightarrow> svc_principal sv b = Inr (make_principal Own anonymous)"
  by (simp add: open_service_def svc_principal_def acl_resolve_def resolve_with_header_def)

lemma open_may [simp]: "may (make_principal Own anonymous) key True = Inr ()"
  "can_lock anonymous" "can_unlock anonymous" "can_extend anonymous" "pr_cfg (make_principal Own anonymous) = anonymous"
  by (simp_all add: may_def make_principal_def anonymous_def)

lemma ttl_arg_truncated: "ttl_arg (from_millis (as_millis d)) = ttl_arg d" "fence_ttl_arg (from_millis (as_millis d)) = fence_ttl_arg d"
  by (simp_all add: ttl_arg_def fence_ttl_arg_def as_millis_u64_def as_millis_def from_millis_def)

lemma MIN_TTL_truncated: "from_millis (as_millis d) < MIN_TTL \<longleftrightarrow> d < MIN_TTL"
  by (auto simp: MIN_TTL_def from_millis_def as_millis_def)

lemma lo_ttl_sent [simp]: "lo_ttl (sent_options opts) = from_millis (as_millis (lo_ttl opts))"
  by (simp add: sent_options_def Let_def with_ttl_opt_def with_watchdog_def split: option.splits)

lemma admit_open:
  assumes "open_service sv" "servable sv (lo_ttl opts)"
  shows "admit sv b \<lparr>tl_key = k, tl_options = Some (options_pb opts), tl_session = []\<rparr> =
    Inr (make_principal Own anonymous, sent_options opts)"
proof -
  have n: "unat (as_millis_u64 (lo_ttl opts)) = as_millis (lo_ttl opts)" "as_millis_u64 (lo_ttl opts) \<noteq> 0"
    using assms(2) unat_as_millis_u64 [of "lo_ttl opts"] by (auto simp: servable_def)
  have "options_from_pb (Some (options_pb opts)) (sv_config sv) = Inr (sent_options opts)"
    using assms(2) n by (auto simp: options_from_pb_def options_pb_def sent_options_def servable_def Let_def split: option.splits)
  then show ?thesis
    using assms(1) by (simp add: admit_def check_ready_def open_principal check_lock_def)
      (simp add: open_service_def make_principal_def anonymous_def)
qed

text \<open>The store sees the same acquisition whether the sub-millisecond part of the lease and the
  local-only options are sent or not.\<close>

lemma try_lock_with_sent:
  assumes "try_lock_with exec d mgr tok k opts s = (r, s')"
  shows "try_lock_with exec d mgr tok k (sent_options opts) s = (case r of
      Inl e \<Rightarrow> (Inl e, s')
    | Inr h \<Rightarrow> (Inr (new_handle mgr tok k (sent_options opts) (fence_value (hs_fence h))), s'))"
  using assms
  by (auto simp: try_lock_with_def validate_def MIN_TTL_truncated ttl_arg_truncated split: sum.splits prod.splits if_splits)

lemma hand_over_open:
  assumes "tl_session req = []"
  shows "\<exists>sv'. hand_over exec d mid now (make_principal Own anonymous) opts req h sv =
    (Inr (Granted (hs_token h) (fence_value (hs_fence h)) (as_millis_u64 (lo_ttl opts))), sv') \<and> sv_store sv' = sv_store sv"
  using assms
  by (auto simp: hand_over_def registry_try_acquire_def max_keys_def anonymous_def make_principal_def granted_outcome_def
      disarm_def mark_released_def)

lemma remote_try_lock_local:
  assumes "open_service sv" "ci_session c = None" "servable sv (lo_ttl opts)"
    and local: "try_lock_with exec d (sv_manager sv) tok k opts (sv_store sv) = (r, s)"
    and remote: "client_try_lock valid (\<lambda>b q v. message (svc_try_lock exec d d' mid now tok b q v)) Delivered sp c k opts hist sv =
      (r', hist', sv')"
  shows "sv_store sv' = s \<and> (case r of Inl e \<Rightarrow> r' = Inl (as_remote e) | Inr h \<Rightarrow> \<exists>rh. r' = Inr rh \<and> remote_of h rh)"
proof -
  let ?req = "\<lparr>tl_key = k, tl_options = Some (options_pb opts), tl_session = []\<rparr>"
  note adm = admit_open [OF assms(1,3), of _ k]
  note sent = try_lock_with_sent [OF local]
  have sess: "session_token c = []" using assms(2) by (simp add: session_token_def)
  show ?thesis
  proof (cases r)
    case (Inl e)
    have "e = Held k \<or> (\<exists>m. e = InvalidConfig m) \<or> (\<exists>m. e = Backend m)"
      using local Inl by (auto simp: try_lock_with_def validate_def invoke_def split: sum.splits prod.splits if_splits delivery.splits)
    then show ?thesis
      using remote sent sess Inl
      by (elim disjE exE) (auto simp: client_try_lock_def rpc_def rpc_answer_def message_def svc_try_lock_def adm held_outcome_def
          status_to_error_def)
  next
    case (Inr h)
    have h: "h = new_handle (sv_manager sv) tok k opts (fence_value (hs_fence h))"
      using local Inr by (auto simp: try_lock_with_def split: sum.splits prod.splits if_splits)
    obtain sv1 where "svc_try_lock exec d d' mid now tok (request_with_auth valid (ci_bearer c)) ?req sv =
        (Inr (Granted tok (fence_value (hs_fence h)) (as_millis_u64 (lo_ttl (sent_options opts)))), sv1)" "sv_store sv1 = s"
      using hand_over_open [of ?req exec d' mid now "sent_options opts"
          "new_handle (sv_manager sv) tok k (sent_options opts) (fence_value (hs_fence h))" "sv\<lparr>sv_store := s\<rparr>"] sent Inr
      by (auto simp: svc_try_lock_def adm)
    with remote sess have "r' = Inr (client_make_handle c k tok (fence_value (hs_fence h)) opts)" "sv_store sv' = s"
      by (auto simp: client_try_lock_def rpc_def rpc_answer_def message_def)
    moreover have "remote_of h (client_make_handle c k tok (fence_value (hs_fence h)) opts)"
      by (subst h) (simp add: remote_of_def client_make_handle_def)
    ultimately show ?thesis using Inr by auto
  qed
qed

text \<open>The service reaches the store through the token-carrying variants of the handle's own
  operations.\<close>

lemma unlock_as_release:
  assumes "remote_of h rh"
  shows "unlock_with_token exec d (rh_key rh) (rh_token rh) s = (case run_release exec d h s of
      (Inl _, t) \<Rightarrow> (Inl (Backend ''unlock failed''), t) | (Inr n, t) \<Rightarrow> (Inr (n = 1), t))"
  using assms by (cases d) (simp_all add: unlock_with_token_def run_release_def remote_of_def invoke_def split_beta split: prod.split sum.split)

lemma svc_unlock_open:
  assumes "open_service sv" "remote_of h rh" "run_release exec d h (sv_store sv) = (r, s)"
  shows "\<exists>sv'. svc_unlock exec d b (rh_key rh) (rh_token rh) sv = ((case r of
      Inl _ \<Rightarrow> Inl (Internal (error_display (Backend ''unlock failed''))) | Inr n \<Rightarrow> Inr (if n = 1 then Released else UnlockLost 0)), sv') \<and>
      sv_store sv' = s"
  using assms by (cases r) (auto simp: svc_unlock_def open_principal check_unlock_def unlock_as_release)

lemma remote_release_local:
  assumes "open_service sv" "remote_of h rh"
    and local: "handle_release exec d h (sv_store sv) = (r, h', s)"
    and remote: "client_release valid (\<lambda>b k t v. message (svc_unlock exec d b k t v)) Delivered sp rh hist sv = (r', rh', hist', sv')"
  shows "sv_store sv' = s \<and> remote_of h' rh' \<and> r' = map_sum as_remote id r"
proof (cases "hs_released h")
  case True
  then show ?thesis using assms by (auto simp: client_release_def rh_mark_gone_def handle_release_def mark_released_def remote_of_def)
next
  case False
  let ?h = "h\<lparr>hs_released := True\<rparr>" and ?rh = "rh\<lparr>rh_released := True\<rparr>"
  have gone: "remote_of ?h ?rh" "\<not> rh_released rh" using assms(2) False by (auto simp: remote_of_def)
  obtain q t where q: "run_release exec d ?h (sv_store sv) = (q, t)" by fastforce
  obtain sv1 where sv1: "svc_unlock exec d (request_with_auth valid (rh_bearer rh)) (rh_key rh) (rh_token rh) sv = ((case q of
      Inl _ \<Rightarrow> Inl (Internal (error_display (Backend ''unlock failed''))) | Inr n \<Rightarrow> Inr (if n = 1 then Released else UnlockLost 0)), sv1)"
      "sv_store sv1 = t"
    using svc_unlock_open [OF assms(1) gone(1) q, of "request_with_auth valid (rh_bearer rh)"] by auto
  have "\<exists>m. e = Backend m" if "q = Inl e" for e
    using q that by (auto simp: run_release_def invoke_def split: delivery.splits prod.splits sum.splits)
  then show ?thesis
    using local remote q sv1 False gone
    by (cases q) (auto simp: client_release_def rh_mark_gone_def run_unlock_def rpc_def rpc_answer_def message_def handle_release_def
        mark_released_def rh_lost_error_def handle_lost_def status_to_error_def remote_of_def split: if_splits)
qed

lemma svc_extend_open:
  assumes "open_service sv" "remote_of h rh" "servable sv ttl" "MIN_TTL \<le> ttl" "fire_extend exec d h ttl (sv_store sv) = (r, s)"
  shows "\<exists>sv'. svc_extend exec d b (rh_key rh) (rh_token rh) (as_millis_u64 ttl) sv = ((case r of
      Inl _ \<Rightarrow> Inl (Internal (error_display (Backend ''extend failed''))) | Inr ok \<Rightarrow> Inr (if ok then Extended else ExtendLost 0)), sv') \<and>
      sv_store sv' = s"
proof -
  have n: "unat (as_millis_u64 ttl) = as_millis ttl" "from_millis (as_millis ttl) \<le> sc_max_ttl (sv_config sv)"
    using assms(3) by (simp_all add: servable_def unat_as_millis_u64)
  have "extend_with_token exec d (rh_key rh) (rh_token rh) (from_millis (as_millis ttl)) (sv_store sv) =
      (case r of Inl _ \<Rightarrow> (Inl (Backend ''extend failed''), s) | Inr ok \<Rightarrow> (Inr ok, s))"
    using assms(2,4,5)
    by (cases d) (auto simp: extend_with_token_def fire_extend_def remote_of_def invoke_def MIN_TTL_truncated ttl_arg_truncated
        split: prod.splits sum.splits)
  then show ?thesis using assms(1) n
    by (cases r) (auto simp: svc_extend_def open_principal check_extend_def)
qed

lemma remote_extend_local:
  assumes "open_service sv" "remote_of h rh" "servable sv ttl" "MIN_TTL \<le> ttl"
    and local: "handle_extend exec d ttl h (sv_store sv) = (r, h', s)"
    and remote: "client_extend valid (\<lambda>b k t m v. message (svc_extend exec d b k t m v)) Delivered sp ttl rh hist sv = (r', rh', hist', sv')"
  shows "sv_store sv' = s \<and> remote_of h' rh' \<and> r' = map_sum as_remote id r"
proof (cases "hs_released h")
  case True
  then show ?thesis using assms
    by (auto simp: client_extend_def handle_extend_def remote_of_def rh_lost_error_def handle_lost_def)
next
  case False
  obtain q t where q: "fire_extend exec d h ttl (sv_store sv) = (q, t)" by fastforce
  obtain sv1 where sv1: "svc_extend exec d (request_with_auth valid (rh_bearer rh)) (rh_key rh) (rh_token rh) (as_millis_u64 ttl) sv =
      ((case q of Inl _ \<Rightarrow> Inl (Internal (error_display (Backend ''extend failed''))) | Inr ok \<Rightarrow> Inr (if ok then Extended else ExtendLost 0)), sv1)"
      "sv_store sv1 = t"
    using svc_extend_open [OF assms(1-4) q, of "request_with_auth valid (rh_bearer rh)"] by auto
  have "\<exists>m. e = Backend m" if "q = Inl e" for e
    using q that by (auto simp: fire_extend_def invoke_def split: delivery.splits prod.splits sum.splits)
  then show ?thesis
    using local remote q sv1 False assms(2,4)
    by (cases q) (auto simp: client_extend_def remote_fire_extend_def rpc_def rpc_answer_def message_def handle_extend_def
        rh_lost_error_def handle_lost_def status_to_error_def remote_of_def mark_lost_def rh_mark_lost_def split: bool.splits)
qed

lemma triple: "x = (fst x, fst (snd x), snd (snd x))" and quadruple: "y = (fst y, fst (snd y), fst (snd (snd y)), snd (snd (snd y)))"
  by simp_all

definition acquired_alike :: "HandleShared result \<times> 's \<Rightarrow> RemoteShared result \<times> HistoryRecorder \<times> 's PalisadeService \<Rightarrow> bool" where
  "acquired_alike l r \<longleftrightarrow> sv_store (snd (snd r)) = snd l \<and>
     (case fst l of Inl e \<Rightarrow> fst r = Inl (as_remote e) | Inr h \<Rightarrow> \<exists>rh. fst r = Inr rh \<and> remote_of h rh)"

definition acted_alike ::
  "unit result \<times> HandleShared \<times> 's \<Rightarrow> unit result \<times> RemoteShared \<times> HistoryRecorder \<times> 's PalisadeService \<Rightarrow> bool" where
  "acted_alike l r \<longleftrightarrow> sv_store (snd (snd (snd r))) = snd (snd l) \<and> remote_of (fst (snd l)) (fst (snd r)) \<and>
     fst r = map_sum as_remote id (fst l)"


definition ex_open :: "mem PalisadeService" where
  "ex_open = service_new ex_mgr service_config_default mem_init"

definition ex_client :: ClientInner where
  "ex_client = \<lparr>ci_bearer = None, ci_history = False, ci_session = None\<rparr>"


section \<open>The session task\<close>

text \<open>The budget the server grants a session of the client's choice.\<close>

definition granted_ttl :: "ServiceConfig \<Rightarrow> duration \<Rightarrow> duration" where
  "granted_ttl config ttl =
     (if as_millis ttl = 0 then from_secs 10 else min (from_millis (as_millis ttl)) (sc_max_ttl config))"

text \<open>The life of an attached session: turns of the client's heartbeat task and of the server's sweeper.\<close>

fun session_life ::
  "'s server \<Rightarrow> (string \<Rightarrow> bool) \<Rightarrow> ClientInner \<Rightarrow> heart \<Rightarrow> session_event list \<Rightarrow> 's PalisadeService \<Rightarrow> 's PalisadeService" where
  "session_life exec valid c hr [] sv = sv"
| "session_life exec valid c hr (Beat now # evs) sv =
     (case heartbeat_turn valid (\<lambda>_ t. svc_heartbeat now t) Delivered True c hr sv of
        (hr', sv') \<Rightarrow> session_life exec valid c hr' evs sv')"
| "session_life exec valid c hr (Sweep now # evs) sv = session_life exec valid c hr evs (svc_sweep exec quiet_sweep now sv)"

text \<open>Heartbeats at least the task's cadence apart and no later than the budget allows.\<close>

fun paced :: "duration \<Rightarrow> duration \<Rightarrow> nat \<Rightarrow> session_event list \<Rightarrow> bool" where
  "paced cadence ttl seen [] = True"
| "paced cadence ttl seen (Beat now # evs) = (seen + cadence \<le> now \<and> now \<le> seen + ttl \<and> paced cadence ttl now evs)"
| "paced cadence ttl seen (Sweep now # evs) = (now \<le> seen + ttl \<and> paced cadence ttl seen evs)"

lemma paced_timely: "paced cadence ttl seen evs \<Longrightarrow> ttl div 20 \<le> cadence \<Longrightarrow> timely ttl seen evs"
  by (induction cadence ttl seen evs rule: paced.induct) auto

lemma session_life_run:
  assumes "ci_session c = Some (hr_token hr)" "hr_running hr"
  shows "sv_sessions (session_life exec valid c hr evs sv) =
    fst (snd (session_run exec (hr_token hr) evs (sv_sessions sv, sv_store sv)))"
proof (induction evs arbitrary: sv)
  case (Cons ev evs)
  show ?case
  proof (cases ev)
    case (Beat now)
    have "\<exists>sv'. heartbeat_turn valid (\<lambda>_ t. svc_heartbeat now t) Delivered True c hr sv = (hr, sv') \<and>
        sv_sessions sv' = snd (session_heartbeat (hr_token hr) now (sv_sessions sv)) \<and> sv_store sv' = sv_store sv"
      using assms by (auto simp: heartbeat_turn_def svc_heartbeat_def rpc_def rpc_answer_def split: prod.splits sum.splits HbResult.splits)
    then show ?thesis using Beat Cons.IH by (auto simp: split_beta Let_def)
  next
    case (Sweep now)
    have "sv_sessions (svc_sweep exec quiet_sweep now sv) = fst (sweep_once exec quiet_sweep now (sv_sessions sv, sv_store sv))"
      "sv_store (svc_sweep exec quiet_sweep now sv) = snd (sweep_once exec quiet_sweep now (sv_sessions sv, sv_store sv))"
      by (simp_all add: svc_sweep_def split_beta)
    then show ?thesis using Sweep Cons.IH by simp
  qed
qed simp

lemma cadence_floor: "granted_ttl config ttl div 20 \<le> max (ttl div 3) (from_millis 500)"
proof (cases "as_millis ttl = 0")
  case False
  then have "granted_ttl config ttl \<le> ttl" by (auto simp: granted_ttl_def from_millis_def as_millis_def min_def)
  then have "granted_ttl config ttl div 20 \<le> ttl div 3" by linarith
  then show ?thesis by simp
qed (simp add: granted_ttl_def from_secs_def from_millis_def)

lemma attached:
  assumes "attach_session valid (\<lambda>_. svc_register_session token now now') Delivered client ttl c sv = (Inr hr, c', sv')"
    and "as_millis ttl < 2 ^ 64"
  shows "hr = \<lparr>hr_token = token, hr_cadence = max (ttl div 3) (from_millis 500), hr_running = True\<rparr>" "ci_session c' = Some token"
    "sv_sessions sv' = AList.update token \<lparr>se_client = client, se_ttl = granted_ttl (sv_config sv) ttl, se_last_seen = now,
       se_hb_floor = now', se_locks = []\<rparr> (sv_sessions sv)"
proof -
  have "(if as_millis_u64 ttl = 0 then from_secs 10 else min (from_millis (unat (as_millis_u64 ttl))) (sc_max_ttl (sv_config sv))) =
      granted_ttl (sv_config sv) ttl"
    using unat_as_millis_u64 [OF assms(2)] unat_eq_zero [of "as_millis_u64 ttl"] by (auto simp: granted_ttl_def)
  with assms(1) show "hr = \<lparr>hr_token = token, hr_cadence = max (ttl div 3) (from_millis 500), hr_running = True\<rparr>" "ci_session c' = Some token"
    "sv_sessions sv' = AList.update token \<lparr>se_client = client, se_ttl = granted_ttl (sv_config sv) ttl, se_last_seen = now,
       se_hb_floor = now', se_locks = []\<rparr> (sv_sessions sv)"
    by (auto simp: attach_session_def svc_register_session_def session_register_def rpc_def rpc_answer_def Let_def)
qed

text \<open>Property C25. The session task keeps its session exactly when the server's budget covers its cadence. After a
  client attaches a session, heartbeats at least the task's cadence apart are never refused for their rate,
  and if each comes within the budget the server granted, the session is there after any number of
  heartbeats and sweeps. The client does not look at that budget: when it is shorter than the cadence (a
  request below half a second, or more than three times the server's maximum), a
  sweep due by the first heartbeat has already dropped the session.\<close>

theorem session_cadence:
  assumes "redis_server exec ks clock pass" "distinct (map fst (sv_sessions sv))" "as_millis ttl < 2 ^ 64"
    and att: "attach_session valid (\<lambda>_. svc_register_session token now now') Delivered client ttl c sv = (Inr hr, c', sv')"
    and "now' \<le> now + granted_ttl (sv_config sv) ttl div 20"
  shows "(paced (hr_cadence hr) (granted_ttl (sv_config sv) ttl) now evs \<longrightarrow>
      (\<exists>e. map_of (sv_sessions (session_life exec valid c' hr evs sv')) token = Some e \<and> se_client e = client \<and>
        se_ttl e = granted_ttl (sv_config sv) ttl)) \<and>
    (granted_ttl (sv_config sv) ttl < hr_cadence hr \<longrightarrow>
      map_of (sv_sessions (session_life exec valid c' hr [Sweep (now + hr_cadence hr), Beat (now + hr_cadence hr)] sv')) token = None)"
proof (intro conjI impI)
  note a = attached [OF att assms(3)]
  let ?S = "granted_ttl (sv_config sv) ttl"
  let ?e = "\<lparr>se_client = client, se_ttl = ?S, se_last_seen = now, se_hb_floor = now', se_locks = []\<rparr>"
  have book: "distinct (map fst (sv_sessions sv'))" "map_of (sv_sessions sv') token = Some ?e"
    using assms(2) by (simp_all add: a(3) distinct_update)
  have life: "sv_sessions (session_life exec valid c' hr evs sv') = fst (snd (session_run exec token evs (sv_sessions sv', sv_store sv')))" for evs
    using session_life_run [of c' hr exec valid evs sv'] a(1,2) by simp
  show "\<exists>e. map_of (sv_sessions (session_life exec valid c' hr evs sv')) token = Some e \<and> se_client e = client \<and> se_ttl e = ?S"
    if "paced (hr_cadence hr) ?S now evs"
  proof -
    have "timely ?S now evs" using paced_timely [OF that] cadence_floor [of "sv_config sv" ttl] a(1) by simp
    then show ?thesis
      using timely_session_kept [OF assms(1) book, of evs "sv_store sv'"] assms(5) by (auto simp: life same_session_def)
  qed
  show "map_of (sv_sessions (session_life exec valid c' hr [Sweep (now + hr_cadence hr), Beat (now + hr_cadence hr)] sv')) token = None"
    if "?S < hr_cadence hr"
  proof -
    have "map_of (fst (sweep_once exec quiet_sweep (now + hr_cadence hr) (sv_sessions sv', sv_store sv'))) token = None"
      using that book redis_server.sweep_once_book [OF assms(1) book(1)] by (simp add: expired_def)
    then show ?thesis unfolding life by (simp add: session_heartbeat_def split_beta)
  qed
qed

definition ex_attached :: "heart result \<times> ClientInner \<times> mem PalisadeService" where
  "ex_attached = attach_session (\<lambda>_. True) (\<lambda>_. svc_register_session ''s'' 0 0) Delivered ''me'' (from_secs 3) ex_client ex_open"

theorem session_cadence_witness:
  "\<exists>hr e. fst ex_attached = Inr hr \<and>
     map_of (sv_sessions (session_life mem_exec (\<lambda>_. True) (fst (snd ex_attached)) hr
       [Beat 1000000000, Sweep 1500000000, Beat 2000000000] (snd (snd ex_attached)))) ''s'' = Some e \<and> se_client e = ''me''"
proof -
  let ?hr = "\<lparr>hr_token = ''s'', hr_cadence = 1000000000, hr_running = True\<rparr>"
  have r: "fst ex_attached = Inr ?hr"
    by (simp add: ex_attached_def attach_session_def svc_register_session_def session_register_def rpc_def rpc_answer_def
        from_secs_def from_millis_def Let_def)
  then have att: "attach_session (\<lambda>_. True) (\<lambda>_. svc_register_session ''s'' 0 0) Delivered ''me'' (from_secs 3) ex_client ex_open =
      (Inr ?hr, fst (snd ex_attached), snd (snd ex_attached))" by (simp add: ex_attached_def prod_eq_iff)
  have ttl: "as_millis (from_secs 3) < 2 ^ 64" "granted_ttl (sv_config ex_open) (from_secs 3) = 3000000000"
    by (simp_all add: as_millis_def from_secs_def granted_ttl_def from_millis_def ex_open_def service_new_def service_config_default_def)
  have d: "distinct (map fst (sv_sessions ex_open))" by (simp add: ex_open_def service_new_def)
  have "paced (hr_cadence ?hr) 3000000000 0 [Beat 1000000000, Sweep 1500000000, Beat 2000000000]" by simp
  then have "\<exists>e. map_of (sv_sessions (session_life mem_exec (\<lambda>_. True) (fst (snd ex_attached)) ?hr
      [Beat 1000000000, Sweep 1500000000, Beat 2000000000] (snd (snd ex_attached)))) ''s'' = Some e \<and> se_client e = ''me''"
    using session_cadence [OF mem.redis_server_axioms d ttl(1) att, of "[Beat 1000000000, Sweep 1500000000, Beat 2000000000]"] ttl(2)
    by (auto simp del: session_life.simps paced.simps)
  then show ?thesis using r by blast
qed

section \<open>Leases below a millisecond\<close>

text \<open>The client does not validate its options and sends whole milliseconds, and the server takes zero for
  its default: a lease below a millisecond, which every local manager refuses, is taken for the
  server's default instead, while the handle keeps the lease that was asked for.\<close>

lemma subms_lease_gets_default:
  assumes "open_service sv" "as_millis (lo_ttl opts) = 0" "ci_session c = None" "lo_watchdog opts = None"
    and "sc_default_ttl (sv_config sv) \<le> sc_max_ttl (sv_config sv)"
    and grant: "try_lock_with exec d (sv_manager sv) tok k (with_ttl_opt (sc_default_ttl (sv_config sv)) default_options) (sv_store sv) = (Inr h, s)"
  shows "fst (client_try_lock valid (\<lambda>b q v. message (svc_try_lock exec d d' mid now tok b q v)) Delivered sp c k opts hist sv) =
      Inr (client_make_handle c k tok (fence_value (hs_fence h)) opts)"
    and "fst (try_lock_with exec d (sv_manager sv) tok k opts (sv_store sv)) = Inl (InvalidConfig ''ttl is below the floor'')"
proof -
  let ?req = "\<lparr>tl_key = k, tl_options = Some (options_pb opts), tl_session = []\<rparr>"
  have "options_from_pb (Some (options_pb opts)) (sv_config sv) = Inr (with_ttl_opt (sc_default_ttl (sv_config sv)) default_options)"
    using assms(2,4,5) by (simp add: options_from_pb_def options_pb_def as_millis_u64_def)
  then have adm: "admit sv b ?req = Inr (make_principal Own anonymous, with_ttl_opt (sc_default_ttl (sv_config sv)) default_options)" for b
    using assms(1) by (simp add: admit_def check_ready_def open_principal check_lock_def)
      (simp add: open_service_def make_principal_def anonymous_def)
  have "hs_token h = tok" using grant by (auto simp: try_lock_with_def split: sum.splits prod.splits if_splits)
  then obtain ms sv1 where "svc_try_lock exec d d' mid now tok b ?req sv = (Inr (Granted tok (fence_value (hs_fence h)) ms), sv1)" for b
    using hand_over_open [of ?req exec d' mid now "with_ttl_opt (sc_default_ttl (sv_config sv)) default_options" h "sv\<lparr>sv_store := s\<rparr>"] grant
    by (auto simp: svc_try_lock_def adm)
  then show "fst (client_try_lock valid (\<lambda>b q v. message (svc_try_lock exec d d' mid now tok b q v)) Delivered sp c k opts hist sv) =
      Inr (client_make_handle c k tok (fence_value (hs_fence h)) opts)"
    using assms(3) by (simp add: client_try_lock_def rpc_def rpc_answer_def message_def session_token_def)
  have "lo_ttl opts < MIN_TTL" using assms(2) by (simp add: as_millis_def MIN_TTL_def from_millis_def)
  then show "fst (try_lock_with exec d (sv_manager sv) tok k opts (sv_store sv)) = Inl (InvalidConfig ''ttl is below the floor'')"
    by (simp add: try_lock_with_def validate_def)
qed

section \<open>The renewal task\<close>

text \<open>Two failed renewals in a row end it: a first failure is tolerated, a renewal that succeeds forgets
  it, and a refusal by the server is final.\<close>

lemma remote_watchdog_turns:
  assumes "wd_running w" "\<not> rh_released h"
    and "remote_fire_extend valid stub d sp h (rh_ttl h) hist v = (r, hist', v')"
  shows "r = Inr True \<Longrightarrow> remote_watchdog_tick valid stub d sp True w h hist v = (w\<lparr>wd_failures := 0\<rparr>, h, hist', v')"
    and "r = Inr False \<Longrightarrow> remote_watchdog_tick valid stub d sp True w h hist v = (w\<lparr>wd_running := False\<rparr>, rh_mark_lost h, hist', v')"
    and "r = Inl e \<Longrightarrow> wd_failures w = 0 \<Longrightarrow> remote_watchdog_tick valid stub d sp True w h hist v = (w\<lparr>wd_failures := 1\<rparr>, h, hist', v')"
    and "r = Inl e \<Longrightarrow> wd_failures w = 1 \<Longrightarrow>
      remote_watchdog_tick valid stub d sp True w h hist v = (w\<lparr>wd_failures := 2, wd_running := False\<rparr>, rh_mark_lost h, hist', v')"
  using assms by (auto simp: remote_watchdog_tick_def CLIENT_MAX_RENEW_FAILURES_def Let_def word_le_nat_alt)

text \<open>A watcher receives the server's events in order, each once.\<close>

lemma watch_forward_versions:
  "watch_forward (length es) (map (\<lambda>e. Inr (Some e)) es) = map (\<lambda>e. case e of EvAcquired x \<Rightarrow> WAcquired x | EvFreed x \<Rightarrow> WFreed x) es"
  by (induction es) auto

end
