(* ===== verification/Etcd.thy ===== *)
theory Etcd
  imports Link Config
begin

text \<open>
  The etcd backend (\<^verbatim>\<open>crates/etcd/src/lib.rs\<close>). etcd is not part of the repository: the cluster is
  a parameter, a function \<open>exec\<close> from a request and a state to a reply and the next state.
  The locale \<open>etcd_server\<close> states what the code relies on, through a view of the state as
  keys with their leases, the store revision, the live leases and the clock in seconds; the
  in-memory cluster at the end satisfies it.

  Durations are nanoseconds, so the whole-second lease is an exact ceiling; the code computes it
  in \<^verbatim>\<open>f64\<close>.
\<close>

section \<open>The cluster as a hypothesis\<close>

datatype ecmd =
    LeaseGrant int
  | LeaseRevoke int
  | TxnCreate string string int
  | TxnDelete string string
  | KeepAlive int
  | TimeToLive int

datatype ereply = ELease int | EDone | ETxn bool "int option" | ETtl int | EErr

record eview =
  ev_kv :: "string \<Rightarrow> (string \<times> int) option"
  ev_rev :: nat
  ev_leases :: "int \<Rightarrow> (nat \<times> nat) option"
  ev_used :: "int set"
  ev_clock :: nat

type_synonym 's etcd = "ecmd \<Rightarrow> 's \<Rightarrow> ereply \<times> 's"

text \<open>Removing leases removes the keys attached to them, in one revision if there are any.\<close>

definition drop_leases :: "(int \<Rightarrow> bool) \<Rightarrow> eview \<Rightarrow> eview" where
  "drop_leases P v = v\<lparr>ev_leases := (\<lambda>l. if P l then None else ev_leases v l),
     ev_kv := (\<lambda>k. case ev_kv v k of Some (x, l) \<Rightarrow> if P l then None else Some (x, l) | None \<Rightarrow> None),
     ev_rev := (if \<exists>k x l. ev_kv v k = Some (x, l) \<and> P l then ev_rev v + 1 else ev_rev v)\<rparr>"

text \<open>Documented effect of every request but a lease grant, whose identifier the cluster draws.\<close>

fun edoc :: "ecmd \<Rightarrow> eview \<Rightarrow> ereply \<times> eview" where
  "edoc (LeaseGrant t) v = (EErr, v)"
| "edoc (LeaseRevoke l) v = (if ev_leases v l = None then (EErr, v) else (EDone, drop_leases (\<lambda>x. x = l) v))"
| "edoc (TxnCreate k x l) v =
     (if ev_kv v k \<noteq> None then (ETxn False (Some (int (ev_rev v))), v)
      else if ev_leases v l = None then (EErr, v)
      else (ETxn True (Some (int (ev_rev v + 1))), v\<lparr>ev_kv := (ev_kv v)(k \<mapsto> (x, l)), ev_rev := ev_rev v + 1\<rparr>))"
| "edoc (TxnDelete k x) v =
     (if \<exists>l. ev_kv v k = Some (x, l)
      then (ETxn True (Some (int (ev_rev v + 1))), v\<lparr>ev_kv := (ev_kv v)(k := None), ev_rev := ev_rev v + 1\<rparr>)
      else (ETxn False (Some (int (ev_rev v))), v))"
| "edoc (KeepAlive l) v = (case ev_leases v l of
      None \<Rightarrow> (ETtl 0, v)
    | Some (t, _) \<Rightarrow> (ETtl (int t), v\<lparr>ev_leases := (ev_leases v)(l \<mapsto> (t, ev_clock v + t))\<rparr>))"
| "edoc (TimeToLive l) v = (case ev_leases v l of
      None \<Rightarrow> (ETtl (- 1), v)
    | Some (_, x) \<Rightarrow> (ETtl (int x - int (ev_clock v)), v))"

definition add_lease :: "int \<Rightarrow> int \<Rightarrow> eview \<Rightarrow> eview" where
  "add_lease l t v = v\<lparr>ev_leases := (ev_leases v)(l \<mapsto> (nat t, ev_clock v + nat t)), ev_used := insert l (ev_used v)\<rparr>"

definition elapse :: "nat \<Rightarrow> eview \<Rightarrow> eview" where
  "elapse d v = drop_leases (\<lambda>l. \<exists>t x. ev_leases v l = Some (t, x) \<and> x \<le> ev_clock v + d) (v\<lparr>ev_clock := ev_clock v + d\<rparr>)"

definition view_ok :: "eview \<Rightarrow> bool" where
  "view_ok v \<longleftrightarrow> (\<forall>k x l. ev_kv v k = Some (x, l) \<longrightarrow> ev_leases v l \<noteq> None) \<and> dom (ev_leases v) \<subseteq> ev_used v"

locale etcd_server =
  fixes exec :: "'s etcd" and view :: "'s \<Rightarrow> eview" and pass :: "nat \<Rightarrow> 's \<Rightarrow> 's"
  assumes exec_grant: "0 < t \<Longrightarrow> \<exists>l t'. l \<notin> ev_used (view s) \<and> t \<le> t' \<and> fst (exec (LeaseGrant t) s) = ELease l \<and>
      view (snd (exec (LeaseGrant t) s)) = add_lease l t' (view s)"
    and exec_doc: "(\<And>t. c \<noteq> LeaseGrant t) \<Longrightarrow> fst (exec c s) = fst (edoc c (view s)) \<and>
      view (snd (exec c s)) = snd (edoc c (view s))"
    and pass_view: "view (pass d s) = elapse d (view s)"
    and always_ok: "view_ok (view s)"

section \<open>Requests\<close>

text \<open>A request can be answered, never arrive, or lose its answer; an error reply is an error too.\<close>

definition ecall :: "'s etcd \<Rightarrow> delivery \<Rightarrow> string \<Rightarrow> ecmd \<Rightarrow> 's \<Rightarrow> ereply result \<times> 's" where
  "ecall exec d msg c s = (case d of
      NotSent \<Rightarrow> (Inl (Backend msg), s)
    | ReplyLost \<Rightarrow> (Inl (Backend msg), snd (exec c s))
    | Delivered \<Rightarrow> (case exec c s of (EErr, t) \<Rightarrow> (Inl (Backend msg), t) | (r, t) \<Rightarrow> (Inr r, t)))"

lemma ecall_Inr: "ecall exec d msg c s = (Inr r, t) \<Longrightarrow> exec c s = (r, t)"
  by (auto simp: ecall_def split: delivery.splits prod.splits ereply.splits)

section \<open>Configuration\<close>

record EtcdConfig =
  ec_endpoints :: "string list"
  ec_default_ttl :: duration

definition etcd_config_new :: "string list \<Rightarrow> EtcdConfig" where
  "etcd_config_new eps = \<lparr>ec_endpoints = eps, ec_default_ttl = from_secs 30\<rparr>"

definition etcd_with_default_ttl :: "duration \<Rightarrow> EtcdConfig \<Rightarrow> EtcdConfig" where
  "etcd_with_default_ttl ttl c = c\<lparr>ec_default_ttl := ttl\<rparr>"

definition etcd_validate :: "EtcdConfig \<Rightarrow> unit result" where
  "etcd_validate c =
     (if ec_endpoints c = [] \<or> (\<exists>e \<in> set (ec_endpoints c). trim_empty e)
      then Inl (InvalidConfig ''etcd endpoints are empty'') else Inr ())"

definition lease_secs :: "duration \<Rightarrow> int" where
  "lease_secs ttl = max (int ((ttl + 999999999) div 1000000000)) 1"

record EtcdLockManager =
  em_default_ttl :: duration

definition etcd_connect :: "(string list \<Rightarrow> bool) \<Rightarrow> EtcdConfig \<Rightarrow> EtcdLockManager result" where
  "etcd_connect reachable c =
     rbind (etcd_validate c) (\<lambda>_.
     if reachable (ec_endpoints c) then Inr \<lparr>em_default_ttl = ec_default_ttl c\<rparr>
     else Inl (Backend ''etcd connect failed''))"

section \<open>Handles\<close>

record EtcdShared =
  eh_key :: string
  eh_token :: string
  eh_fence :: FencingToken
  eh_lease_id :: int
  eh_gone :: bool
  eh_poisoned :: bool
  eh_lost :: bool
  eh_watchdog :: bool

definition etcd_make_handle :: "string \<Rightarrow> string \<Rightarrow> FencingToken \<Rightarrow> int \<Rightarrow> bool \<Rightarrow> EtcdShared" where
  "etcd_make_handle key token fence lease_id wd =
     \<lparr>eh_key = key, eh_token = token, eh_fence = fence, eh_lease_id = lease_id, eh_gone = False,
      eh_poisoned = False, eh_lost = False, eh_watchdog = wd\<rparr>"

text \<open>The environment of one acquisition: the token, how its three calls go, and what others do
  between them.\<close>

record 's eattempt =
  ea_token :: string
  ea_grant :: delivery
  ea_txn :: delivery
  ea_revoke :: delivery
  ea_before :: "'s \<Rightarrow> 's"
  ea_mid :: "'s \<Rightarrow> 's"
  ea_mid' :: "'s \<Rightarrow> 's"
  ea_now :: nat

definition etcd_try_lock_with ::
  "'s etcd \<Rightarrow> string \<Rightarrow> LockOptions \<Rightarrow> 's eattempt \<Rightarrow> 's \<Rightarrow> EtcdShared result \<times> 's" where
  "etcd_try_lock_with exec key options a s =
     (case validate options of
        Inl e \<Rightarrow> (Inl e, s)
      | Inr _ \<Rightarrow>
          (case ecall exec (ea_grant a) ''lease grant failed'' (LeaseGrant (lease_secs (lo_ttl options))) (ea_before a s) of
             (Inl e, t) \<Rightarrow> (Inl e, t)
           | (Inr r, t) \<Rightarrow>
               let lease_id = (case r of ELease l \<Rightarrow> l | _ \<Rightarrow> 0);
                   revoke = (\<lambda>u. snd (ecall exec (ea_revoke a) ''revoke'' (LeaseRevoke lease_id) (ea_mid' a u))) in
               (case ecall exec (ea_txn a) ''acquire txn failed'' (TxnCreate key (ea_token a) lease_id) (ea_mid a t) of
                  (Inl e, u) \<Rightarrow> (Inl e, revoke u)
                | (Inr (ETxn True revision), u) \<Rightarrow>
                    (Inr (etcd_make_handle key (ea_token a)
                       (FencingToken (case revision of None \<Rightarrow> 0 | Some n \<Rightarrow> of_int n)) lease_id
                       (case lo_watchdog options of None \<Rightarrow> False | Some b \<Rightarrow> b)), u)
                | (Inr _, u) \<Rightarrow> (Inl (Held key), revoke u))))"

definition etcd_try_lock ::
  "'s etcd \<Rightarrow> EtcdLockManager \<Rightarrow> string \<Rightarrow> 's eattempt \<Rightarrow> 's \<Rightarrow> EtcdShared result \<times> 's" where
  "etcd_try_lock exec mgr key = etcd_try_lock_with exec key (with_ttl_opt (em_default_ttl mgr) default_options)"

definition etcd_try_lock_for ::
  "'s etcd \<Rightarrow> nat \<Rightarrow> string \<Rightarrow> LockOptions \<Rightarrow> duration \<Rightarrow> 's eattempt list \<Rightarrow> 's \<Rightarrow> panic + (EtcdShared result \<times> 's) option" where
  "etcd_try_lock_for exec now key options = poll_for (etcd_try_lock_with exec key options) ea_now key now"

definition lease_time_to_live :: "'s etcd \<Rightarrow> delivery \<Rightarrow> int \<Rightarrow> 's \<Rightarrow> int result \<times> 's" where
  "lease_time_to_live exec d lease_id s =
     (case ecall exec d ''time_to_live failed'' (TimeToLive lease_id) s of
        (Inl e, t) \<Rightarrow> (Inl e, t)
      | (Inr r, t) \<Rightarrow> (Inr (case r of ETtl n \<Rightarrow> n | _ \<Rightarrow> 0), t))"

definition eh_mark_gone :: "EtcdShared \<Rightarrow> bool \<times> EtcdShared" where
  "eh_mark_gone h = (\<not> eh_gone h, h\<lparr>eh_gone := True\<rparr>)"

definition eh_mark_lost :: "EtcdShared \<Rightarrow> EtcdShared" where
  "eh_mark_lost h = h\<lparr>eh_poisoned := True, eh_lost := True\<rparr>"

definition eh_lost_error :: "EtcdShared \<Rightarrow> error" where
  "eh_lost_error h = Lost (eh_key h) (fence_value (eh_fence h))"

definition release_inner ::
  "'s etcd \<Rightarrow> delivery \<Rightarrow> delivery \<Rightarrow> ('s \<Rightarrow> 's) \<Rightarrow> EtcdShared \<Rightarrow> 's \<Rightarrow> bool result \<times> 's" where
  "release_inner exec d d' mid h s =
     (case ecall exec d ''release txn failed'' (TxnDelete (eh_key h) (eh_token h)) s of
        (Inl e, t) \<Rightarrow> (Inl e, t)
      | (Inr (ETxn True _), t) \<Rightarrow> (Inr True, snd (ecall exec d' ''revoke'' (LeaseRevoke (eh_lease_id h)) (mid t)))
      | (Inr _, t) \<Rightarrow> (Inr False, t))"

definition etcd_release ::
  "'s etcd \<Rightarrow> delivery \<Rightarrow> delivery \<Rightarrow> ('s \<Rightarrow> 's) \<Rightarrow> EtcdShared \<Rightarrow> 's \<Rightarrow> unit result \<times> EtcdShared \<times> 's" where
  "etcd_release exec d d' mid h s =
     (case eh_mark_gone h of
        (False, h') \<Rightarrow> (Inr (), h', s)
      | (True, h') \<Rightarrow>
          (case release_inner exec d d' mid h' s of
             (Inl e, t) \<Rightarrow> (Inl e, h', t)
           | (Inr True, t) \<Rightarrow> (Inr (), h', t)
           | (Inr False, t) \<Rightarrow> (Inl (eh_lost_error h'), eh_mark_lost h', t)))"

definition etcd_drop :: "'s etcd \<Rightarrow> delivery \<Rightarrow> delivery \<Rightarrow> ('s \<Rightarrow> 's) \<Rightarrow> bool \<Rightarrow> EtcdShared \<Rightarrow> 's \<Rightarrow> 's" where
  "etcd_drop exec d d' mid runtime h s =
     (case eh_mark_gone h of
        (False, _) \<Rightarrow> s
      | (True, h') \<Rightarrow> if runtime then snd (release_inner exec d d' mid h' s) else s)"

text \<open>A keepalive exchange: the stream may not open, the request may not be sent, and the answer
  may be an error or the end of the stream (\<open>NotSent\<close> or \<open>ReplyLost\<close> of the
  request itself).\<close>

definition keepalive_ok :: "ereply result \<Rightarrow> bool" where
  "keepalive_ok r = (case r of Inr (ETtl n) \<Rightarrow> 0 < n | _ \<Rightarrow> False)"

definition etcd_extend ::
  "'s etcd \<Rightarrow> bool \<Rightarrow> bool \<Rightarrow> delivery \<Rightarrow> EtcdShared \<Rightarrow> 's \<Rightarrow> unit result \<times> EtcdShared \<times> 's" where
  "etcd_extend exec opened sent d h s =
     (if eh_gone h \<or> eh_poisoned h then (Inl (eh_lost_error h), h, s)
      else if \<not> opened then (Inl (Backend ''keepalive failed''), h, s)
      else if \<not> sent then (Inl (Backend ''keepalive send failed''), h, s)
      else case ecall exec d ''keepalive'' (KeepAlive (eh_lease_id h)) s of
        (r, t) \<Rightarrow> if keepalive_ok r then (Inr (), h, t) else (Inl (eh_lost_error h), eh_mark_lost h, t))"

text \<open>The renewal task: opening its stream, and one turn of its loop. The flag says whether it goes
  on.\<close>

definition etcd_watchdog_start :: "bool \<Rightarrow> EtcdShared \<Rightarrow> bool \<times> EtcdShared" where
  "etcd_watchdog_start opened h = (if opened then (True, h) else (False, eh_mark_lost h))"

definition etcd_watchdog_turn ::
  "'s etcd \<Rightarrow> bool \<Rightarrow> bool \<Rightarrow> delivery \<Rightarrow> EtcdShared \<Rightarrow> 's \<Rightarrow> bool \<times> EtcdShared \<times> 's" where
  "etcd_watchdog_turn exec alive sent d h s =
     (if \<not> alive \<or> eh_gone h then (False, h, s)
      else if \<not> sent then (True, h, s)
      else case ecall exec d ''keepalive'' (KeepAlive (eh_lease_id h)) s of
        (r, t) \<Rightarrow> if keepalive_ok r then (True, h, t) else (False, eh_mark_lost h, t))"

section \<open>An in-memory cluster\<close>

text \<open>Stored data with the next lease identifier. Leases not yet drawn and keys without a live
  lease are not visible.\<close>

type_synonym emem = "nat \<times> eview"

definition emem_view :: "emem \<Rightarrow> eview" where
  "emem_view s = (let (n, v) = s; ls = (\<lambda>l. if 0 \<le> l \<and> l < int n then ev_leases v l else None) in
     v\<lparr>ev_leases := ls, ev_used := {0..<int n},
       ev_kv := (\<lambda>k. case ev_kv v k of Some (x, l) \<Rightarrow> if ls l = None then None else Some (x, l) | None \<Rightarrow> None)\<rparr>)"

definition emem_exec :: "emem etcd" where
  "emem_exec c s = (case c of
      LeaseGrant t \<Rightarrow> (ELease (int (fst s)), (fst s + 1, add_lease (int (fst s)) t (emem_view s)))
    | _ \<Rightarrow> (fst (edoc c (emem_view s)), (fst s, snd (edoc c (emem_view s)))))"

definition emem_pass :: "nat \<Rightarrow> emem \<Rightarrow> emem" where
  "emem_pass d s = (fst s, elapse d (emem_view s))"

definition emem_init :: emem where
  "emem_init = (0, \<lparr>ev_kv = Map.empty, ev_rev = 0, ev_leases = Map.empty, ev_used = {}, ev_clock = 0\<rparr>)"

lemma view_okD: "view_ok v \<Longrightarrow> ev_kv v k = Some (x, l) \<Longrightarrow> \<exists>y. ev_leases v l = Some y"
  unfolding view_ok_def by blast

lemma drop_leases_ok:
  assumes "view_ok v"
  shows "view_ok (drop_leases P v)" "ev_used (drop_leases P v) = ev_used v"
  using assms unfolding view_ok_def drop_leases_def
  by (fastforce split: option.splits if_splits)+

lemma view_ok_clock [simp]: "view_ok (v\<lparr>ev_clock := t\<rparr>) = view_ok v"
  by (simp add: view_ok_def)

lemma elapse_ok: "view_ok v \<Longrightarrow> view_ok (elapse d v)" "ev_used (elapse d v) = ev_used v"
  by (simp_all add: elapse_def drop_leases_ok) (simp add: drop_leases_def)

lemma edoc_ok:
  assumes "view_ok v"
  shows "view_ok (snd (edoc c v))" "ev_used (snd (edoc c v)) = ev_used v"
proof -
  have "view_ok (snd (edoc c v)) \<and> ev_used (snd (edoc c v)) = ev_used v"
  proof (cases c)
    case (LeaseRevoke l)
    then show ?thesis using assms drop_leases_ok by simp
  next
    case (KeepAlive l)
    then show ?thesis using assms by (auto simp: view_ok_def split: option.splits)
  next
    case (TimeToLive l)
    then show ?thesis using assms by (auto split: option.splits)
  qed (use assms in \<open>auto simp: view_ok_def\<close>)
  then show "view_ok (snd (edoc c v))" "ev_used (snd (edoc c v)) = ev_used v" by auto
qed

lemma add_lease_ok: "view_ok v \<Longrightarrow> view_ok (add_lease l t v)"
  by (auto simp: view_ok_def add_lease_def)

lemma emem_view_simps [simp]:
  "ev_used (emem_view s) = {0..<int (fst s)}" "view_ok (emem_view s)"
  by (auto simp: emem_view_def view_ok_def Let_def split: prod.splits option.splits if_splits)

lemma emem_view_stored:
  assumes "view_ok v" "ev_used v = {0..<int n}"
  shows "emem_view (n, v) = v"
proof -
  have ls: "(if 0 \<le> l \<and> l < int n then ev_leases v l else None) = ev_leases v l" for l
  proof -
    have "ev_leases v l = None" if "\<not> (0 \<le> l \<and> l < int n)"
    proof (rule ccontr)
      assume "ev_leases v l \<noteq> None"
      then have "l \<in> {0..<int n}" using assms by (auto simp: view_ok_def)
      with that show False by simp
    qed
    then show ?thesis by simp
  qed
  have "(case ev_kv v k of Some (x, l) \<Rightarrow> if ev_leases v l = None then None else Some (x, l) | None \<Rightarrow> None) = ev_kv v k" for k
    using view_okD [OF assms(1), of k] by (cases "ev_kv v k") auto
  then show ?thesis using assms(2) unfolding emem_view_def Let_def prod.case ls by simp
qed

interpretation emem: etcd_server emem_exec emem_view emem_pass
proof
  fix t :: int and s :: emem and c d
  have ok: "view_ok (emem_view s)" by simp
  have used: "ev_used (add_lease (int (fst s)) t (emem_view s)) = {0..<int (fst s + 1)}" by (auto simp: add_lease_def)
  show "\<exists>l t'. l \<notin> ev_used (emem_view s) \<and> t \<le> t' \<and> fst (emem_exec (LeaseGrant t) s) = ELease l \<and>
      emem_view (snd (emem_exec (LeaseGrant t) s)) = add_lease l t' (emem_view s)"
    using emem_view_stored [OF add_lease_ok [OF ok] used] by (auto simp: emem_exec_def)
  show "fst (emem_exec c s) = fst (edoc c (emem_view s)) \<and> emem_view (snd (emem_exec c s)) = snd (edoc c (emem_view s))"
    if "\<And>t. c \<noteq> LeaseGrant t"
    using that emem_view_stored [OF edoc_ok(1) [OF ok, of c], of "fst s"] edoc_ok(2) [OF ok, of c]
    by (cases c) (auto simp: emem_exec_def)
  show "emem_view (emem_pass d s) = elapse d (emem_view s)"
    using emem_view_stored [OF elapse_ok(1) [OF ok, of d], of "fst s"] by (simp add: emem_pass_def elapse_ok(2))
  show "view_ok (emem_view s)" by simp
qed

section \<open>What other clients can do\<close>

text \<open>What may happen in the cluster between two moments: any requests that satisfy \<open>P\<close>, and time.
  The clients of a lock under a token and a lease send no deletion naming the token and no
  revocation of the lease.\<close>

inductive world :: "'s etcd \<Rightarrow> (nat \<Rightarrow> 's \<Rightarrow> 's) \<Rightarrow> (ecmd \<Rightarrow> bool) \<Rightarrow> 's \<Rightarrow> 's \<Rightarrow> bool" for exec pass P where
  idle: "world exec pass P s s"
| request: "world exec pass P s s' \<Longrightarrow> P c \<Longrightarrow> \<forall>t \<le> 0. c \<noteq> LeaseGrant t \<Longrightarrow> world exec pass P s (snd (exec c s'))"
| time: "world exec pass P s s' \<Longrightarrow> world exec pass P s (pass d s')"

definition others :: "string \<Rightarrow> int \<Rightarrow> ecmd \<Rightarrow> bool" where
  "others tok l c \<longleftrightarrow> (case c of TxnDelete _ x \<Rightarrow> x \<noteq> tok | LeaseRevoke l' \<Rightarrow> l' \<noteq> l | _ \<Rightarrow> True)"

definition foreign :: "string \<Rightarrow> ecmd \<Rightarrow> bool" where
  "foreign tok c \<longleftrightarrow> (case c of TxnCreate _ x _ \<Rightarrow> x \<noteq> tok | _ \<Rightarrow> True)"

text \<open>The hold on a key under a lease drawn earlier: the key carries the token, or the lease is
  over for good.\<close>

definition held_or_over :: "string \<Rightarrow> string \<Rightarrow> int \<Rightarrow> eview \<Rightarrow> bool" where
  "held_or_over k tok l v \<longleftrightarrow> l \<in> ev_used v \<and> (ev_kv v k = Some (tok, l) \<or> ev_leases v l = None)"

definition tok_bound :: "string \<Rightarrow> int \<Rightarrow> eview \<Rightarrow> bool" where
  "tok_bound tok l v \<longleftrightarrow> l \<in> ev_used v \<and> (\<forall>k l'. ev_kv v k = Some (tok, l') \<longrightarrow> l' = l)"

lemma edoc_held:
  assumes "held_or_over k tok l v" "others tok l c"
  shows "held_or_over k tok l (snd (edoc c v))"
  using assms
  by (cases c) (auto simp: held_or_over_def others_def drop_leases_def split: option.splits)

lemma add_lease_held: "held_or_over k tok l v \<Longrightarrow> l' \<notin> ev_used v \<Longrightarrow> held_or_over k tok l (add_lease l' t v)"
  by (auto simp: held_or_over_def add_lease_def)

lemma elapse_held: "held_or_over k tok l v \<Longrightarrow> held_or_over k tok l (elapse d v)"
  by (auto simp: held_or_over_def elapse_def drop_leases_def split: option.splits)

definition over :: "int \<Rightarrow> eview \<Rightarrow> bool" where
  "over l v \<longleftrightarrow> l \<in> ev_used v \<and> ev_leases v l = None"

lemma over_stays:
  "over l v \<Longrightarrow> over l (snd (edoc c v))"
  "over l v \<Longrightarrow> l' \<notin> ev_used v \<Longrightarrow> over l (add_lease l' t v)"
  "over l v \<Longrightarrow> over l (elapse d v)"
  by (cases c) (auto simp: over_def drop_leases_def add_lease_def elapse_def split: option.splits)

lemma tok_bound_stays:
  "tok_bound tok l v \<Longrightarrow> foreign tok c \<Longrightarrow> tok_bound tok l (snd (edoc c v))"
  "tok_bound tok l v \<Longrightarrow> tok_bound tok l (add_lease l' t v)"
  "tok_bound tok l v \<Longrightarrow> tok_bound tok l (elapse d v)"
  by (cases c) (auto simp: tok_bound_def foreign_def drop_leases_def add_lease_def elapse_def split: option.splits if_splits)

lemma rev_mono:
  "ev_rev v \<le> ev_rev (snd (edoc c v))" "ev_rev (add_lease l t v) = ev_rev v" "ev_rev v \<le> ev_rev (elapse d v)"
  by (cases c) (auto simp: drop_leases_def add_lease_def elapse_def split: option.splits)

text \<open>The state in which the acquiring transaction of an attempt runs.\<close>

definition txn_state :: "'s etcd \<Rightarrow> LockOptions \<Rightarrow> 's eattempt \<Rightarrow> 's \<Rightarrow> 's" where
  "txn_state exec opts a s = ea_mid a (snd (exec (LeaseGrant (lease_secs (lo_ttl opts))) (ea_before a s)))"

lemma used_mono:
  "ev_used (snd (edoc c v)) = ev_used v" "ev_used (add_lease l t v) = insert l (ev_used v)" "ev_used (elapse d v) = ev_used v"
  by (cases c) (auto simp: drop_leases_def add_lease_def elapse_def split: option.splits)

context etcd_server
begin

lemma exec_step:
  assumes "\<forall>t \<le> 0. c \<noteq> LeaseGrant t"
  shows "(\<exists>l t. l \<notin> ev_used (view s) \<and> fst (exec c s) = ELease l \<and> view (snd (exec c s)) = add_lease l t (view s)) \<or>
    (\<forall>t. c \<noteq> LeaseGrant t) \<and> fst (exec c s) = fst (edoc c (view s)) \<and> view (snd (exec c s)) = snd (edoc c (view s))"
proof (cases "\<exists>t. c = LeaseGrant t")
  case True
  then obtain t where "c = LeaseGrant t" "0 < t" using assms not_le by blast
  then show ?thesis using exec_grant [of t s] by blast
next
  case False
  then show ?thesis using exec_doc [of c s] by blast
qed

text \<open>What every documented request, every lease grant and every lapse keep, the cluster keeps.\<close>

lemma world_keeps:
  assumes "world exec pass P s s'" "I (view s)"
    and "\<And>c v. P c \<Longrightarrow> I v \<Longrightarrow> I (snd (edoc c v))"
    and "\<And>l t v. I v \<Longrightarrow> l \<notin> ev_used v \<Longrightarrow> I (add_lease l t v)"
    and "\<And>d v. I v \<Longrightarrow> I (elapse d v)"
  shows "I (view s')"
  using assms(1,2)
proof (induction rule: world.induct)
  case (request s s' c)
  from exec_step [OF request.hyps(3), of s'] request show ?case
    by (auto simp: assms(3,4))
qed (auto simp: pass_view assms(5))

lemma world_held:
  "world exec pass (others tok l) s s' \<Longrightarrow> held_or_over k tok l (view s) \<Longrightarrow> held_or_over k tok l (view s')"
  by (erule world_keeps) (auto intro: edoc_held add_lease_held elapse_held)

lemma world_over: "world exec pass P s s' \<Longrightarrow> over l (view s) \<Longrightarrow> over l (view s')"
  by (erule world_keeps) (auto intro: over_stays)

lemma world_rev: "world exec pass P s s' \<Longrightarrow> ev_rev (view s) \<le> ev_rev (view s')"
  by (erule world_keeps [where I = "\<lambda>v. ev_rev (view s) \<le> ev_rev v"]) (auto simp: rev_mono intro: le_trans [OF _ rev_mono(1)] le_trans [OF _ rev_mono(3)])

lemma world_used: "world exec pass P s s' \<Longrightarrow> l \<in> ev_used (view s) \<Longrightarrow> l \<in> ev_used (view s')"
  by (erule world_keeps [where I = "\<lambda>v. l \<in> ev_used v"]) (auto simp: used_mono)

lemma world_tok: "world exec pass (foreign tok) s s' \<Longrightarrow> tok_bound tok l (view s) \<Longrightarrow> tok_bound tok l (view s')"
  by (erule world_keeps) (auto intro: tok_bound_stays)

lemma lease_secs_pos: "0 < lease_secs ttl"
  by (simp add: lease_secs_def)

text \<open>A grant took a fresh lease, found the key absent and bound it to the token and the lease, at the
  revision that is its fence.\<close>

lemma try_lock_granted:
  assumes "etcd_try_lock_with exec k opts a s = (Inr h, s')"
  shows "eh_token h = ea_token a" "eh_lease_id h \<notin> ev_used (view (ea_before a s))"
    "ev_kv (view (txn_state exec opts a s)) k = None"
    "ev_leases (view (txn_state exec opts a s)) (eh_lease_id h) \<noteq> None"
    "view s' = (view (txn_state exec opts a s))\<lparr>ev_kv := (ev_kv (view (txn_state exec opts a s)))(k \<mapsto> (eh_token h, eh_lease_id h)),
       ev_rev := ev_rev (view (txn_state exec opts a s)) + 1\<rparr>"
    "eh_fence h = FencingToken (of_nat (ev_rev (view s')))"
proof -
  let ?b = "ea_before a s" and ?c = "LeaseGrant (lease_secs (lo_ttl opts))"
  obtain l where l: "l \<notin> ev_used (view ?b)" "fst (exec ?c ?b) = ELease l"
    "\<exists>ttl \<ge> lease_secs (lo_ttl opts). view (snd (exec ?c ?b)) = add_lease l ttl (view ?b)"
    using exec_grant [OF lease_secs_pos] by blast
  let ?t = "snd (exec ?c ?b)"
  let ?m = "ea_mid a ?t" and ?x = "TxnCreate k (ea_token a) l"
  have x: "fst (exec ?x ?m) = fst (edoc ?x (view ?m))" "view (snd (exec ?x ?m)) = snd (edoc ?x (view ?m))"
    using exec_doc [of ?x ?m] by auto
  have g: "ecall exec (ea_grant a) ''lease grant failed'' ?c ?b = (Inr (ELease l), ?t)" "is_ok (validate opts)"
    using assms l(2) by (auto simp: etcd_try_lock_with_def ecall_def split_beta split: sum.splits delivery.splits)
  obtain rev where txn: "ecall exec (ea_txn a) ''acquire txn failed'' ?x ?m = (Inr (ETxn True rev), s')"
    and h: "h = etcd_make_handle k (ea_token a) (FencingToken (case rev of None \<Rightarrow> 0 | Some n \<Rightarrow> of_int n)) l
      (case lo_watchdog opts of None \<Rightarrow> False | Some b \<Rightarrow> b)"
    using assms g by (auto simp: etcd_try_lock_with_def Let_def split: sum.splits prod.splits ereply.splits bool.splits)
  from ecall_Inr [OF txn] x have e: "fst (edoc ?x (view ?m)) = ETxn True rev" "view s' = snd (edoc ?x (view ?m))" by simp_all
  from e(1) have free: "ev_kv (view ?m) k = None" "ev_leases (view ?m) l \<noteq> None" "rev = Some (int (ev_rev (view ?m) + 1))"
    by (cases "ev_kv (view ?m) k"; cases "ev_leases (view ?m) l"; simp)+
  with e(2) have "view s' = (view ?m)\<lparr>ev_kv := (ev_kv (view ?m))(k \<mapsto> (ea_token a, l)), ev_rev := ev_rev (view ?m) + 1\<rparr>" by simp
  with free h l show "eh_token h = ea_token a" "eh_lease_id h \<notin> ev_used (view (ea_before a s))"
    "ev_kv (view (txn_state exec opts a s)) k = None"
    "ev_leases (view (txn_state exec opts a s)) (eh_lease_id h) \<noteq> None"
    "view s' = (view (txn_state exec opts a s))\<lparr>ev_kv := (ev_kv (view (txn_state exec opts a s)))(k \<mapsto> (eh_token h, eh_lease_id h)),
       ev_rev := ev_rev (view (txn_state exec opts a s)) + 1\<rparr>"
    "eh_fence h = FencingToken (of_nat (ev_rev (view s')))"
    by (simp_all add: etcd_make_handle_def txn_state_def)
qed

lemma grant_world:
  assumes "world exec pass P s s'" "0 < t" "P (LeaseGrant t)"
  shows "world exec pass P s (snd (exec (LeaseGrant t) s'))"
  using world.request [OF assms(1,3)] assms(2) by fastforce

lemma txn_state_world:
  assumes "\<forall>x. world exec pass P x (ea_before a x)" "\<forall>x. world exec pass P x (ea_mid a x)" "\<forall>t. P (LeaseGrant t)"
    and keep: "\<And>x y. world exec pass P x y \<Longrightarrow> I x \<Longrightarrow> I y"
  shows "I s \<Longrightarrow> I (txn_state exec opts a s)"
  using assms unfolding txn_state_def by (meson grant_world lease_secs_pos)

lemma granted_holds:
  assumes "etcd_try_lock_with exec k opts a s = (Inr h, s')"
  shows "held_or_over k (eh_token h) (eh_lease_id h) (view s')"
proof -
  note g = try_lock_granted [OF assms]
  have "eh_lease_id h \<in> ev_used (view s')" using g(4,5) always_ok [of s'] by (auto simp: view_ok_def)
  then show ?thesis using g(5) by (simp add: held_or_over_def)
qed

lemma grant_ends_hold:
  assumes "held_or_over k tok l (view u)"
    and grant: "etcd_try_lock_with exec k opts b u = (Inr h, u')"
    and env: "\<forall>x. world exec pass (others tok l) x (ea_before b x)" "\<forall>x. world exec pass (others tok l) x (ea_mid b x)"
  shows "ev_leases (view u') l = None"
proof -
  have "held_or_over k tok l (view (txn_state exec opts b u))"
    using env _ world_held assms(1) by (rule txn_state_world) (simp add: others_def)
  then show ?thesis using try_lock_granted(3,5) [OF grant] by (simp add: held_or_over_def)
qed

lemma grant_revs:
  assumes grant: "etcd_try_lock_with exec k opts b u = (Inr h, u')"
    and env: "\<forall>x. world exec pass P x (ea_before b x)" "\<forall>x. world exec pass P x (ea_mid b x)" "\<forall>t. P (LeaseGrant t)"
  shows "ev_rev (view u) < ev_rev (view u')"
proof -
  have "ev_rev (view u) \<le> ev_rev (view (txn_state exec opts b u))"
    using env by (rule txn_state_world [where I = "\<lambda>x. ev_rev (view u) \<le> ev_rev (view x)"]) (auto intro: le_trans world_rev)
  then show ?thesis using try_lock_granted(5) [OF grant] by simp
qed

lemma revoke_view:
  "view (snd (ecall exec Delivered msg (LeaseRevoke l) s)) = snd (edoc (LeaseRevoke l) (view s))"
proof -
  have "snd (ecall exec Delivered msg c s) = snd (exec c s)" for c
    by (cases "exec c s"; cases "fst (exec c s)") (simp_all add: ecall_def)
  then show ?thesis using exec_doc [of "LeaseRevoke l" s] by simp
qed

lemma revoke_clears:
  assumes "tok_bound tok l (view s)" "world exec pass (foreign tok) s s'"
  shows "ev_kv (view (snd (ecall exec Delivered msg (LeaseRevoke l) s'))) k \<noteq> Some (tok, l')"
proof -
  have b: "tok_bound tok l (view s')" using assms(2,1) by (rule world_tok)
  show ?thesis
  proof
    assume *: "ev_kv (view (snd (ecall exec Delivered msg (LeaseRevoke l) s'))) k = Some (tok, l')"
    then have "ev_kv (view s') k = Some (tok, l')"
      by (auto simp: revoke_view drop_leases_def split: option.splits if_splits)
    moreover from this b have "l' = l" by (simp add: tok_bound_def)
    moreover from calculation view_okD [OF always_ok] have "ev_leases (view s') l \<noteq> None" by blast
    ultimately show False using * by (auto simp: revoke_view drop_leases_def)
  qed
qed

lemma ecall_state: "snd (ecall exec d msg c s) = s \<or> snd (ecall exec d msg c s) = snd (exec c s)"
  by (cases d; cases "exec c s"; cases "fst (exec c s)") (simp_all add: ecall_def)

lemma create_bound:
  assumes "tok_bound tok l (view s)"
  shows "tok_bound tok l (view (snd (ecall exec d msg (TxnCreate k tok l) s)))"
proof -
  have "tok_bound tok l (view (snd (exec (TxnCreate k tok l) s)))"
    using assms exec_doc [of "TxnCreate k tok l" s] by (auto simp: tok_bound_def)
  then show ?thesis using assms ecall_state [of d msg "TxnCreate k tok l" s] by auto
qed

lemma world_no_tok:
  "world exec pass (foreign tok) s s' \<Longrightarrow> \<forall>k l. ev_kv (view s) k \<noteq> Some (tok, l) \<Longrightarrow> \<forall>k l. ev_kv (view s') k \<noteq> Some (tok, l)"
proof (erule world_keeps [where I = "\<lambda>v. \<forall>k l. ev_kv v k \<noteq> Some (tok, l)"])
  show "\<forall>k l. ev_kv (snd (edoc c v)) k \<noteq> Some (tok, l)" if "foreign tok c" "\<forall>k l. ev_kv v k \<noteq> Some (tok, l)" for c v
    using that by (cases c) (auto simp: foreign_def drop_leases_def split: option.splits if_splits)
qed (auto simp: add_lease_def elapse_def drop_leases_def split: option.splits if_splits)

text \<open>How a lease request ends: with a fresh lease, or with an error; neither touches a key.\<close>

lemma grant_call:
  assumes "ecall exec d msg (LeaseGrant t) s = (r, s')" "0 < t"
  shows "ev_kv (view s') = ev_kv (view s)" "r = Inr x \<Longrightarrow> \<exists>l. x = ELease l \<and> l \<in> ev_used (view s')"
proof -
  obtain l t' where l: "fst (exec (LeaseGrant t) s) = ELease l" "view (snd (exec (LeaseGrant t) s)) = add_lease l t' (view s)"
    using exec_grant [OF assms(2)] by blast
  show "ev_kv (view s') = ev_kv (view s)"
    using ecall_state [of d msg "LeaseGrant t" s] assms(1) l(2) by (auto simp: add_lease_def)
  show "\<exists>l. x = ELease l \<and> l \<in> ev_used (view s')" if "r = Inr x"
    using ecall_Inr [OF assms(1) [unfolded that]] l by (auto simp: add_lease_def)
qed

lemma failed_attempt_clean:
  assumes fail: "etcd_try_lock_with exec k opts a s = (Inl e, s')"
    and fresh: "\<forall>k l. ev_kv (view s) k \<noteq> Some (ea_token a, l)"
    and env: "\<forall>x. world exec pass (foreign (ea_token a)) x (ea_before a x)" "\<forall>x. world exec pass (foreign (ea_token a)) x (ea_mid a x)"
      "\<forall>x. world exec pass (foreign (ea_token a)) x (ea_mid' a x)"
    and revoke: "ea_revoke a = Delivered"
  shows "ev_kv (view s') k' \<noteq> Some (ea_token a, l')"
proof (cases "validate opts")
  case (Inl e')
  then show ?thesis using fail fresh by (simp add: etcd_try_lock_with_def)
next
  case (Inr u)
  let ?tok = "ea_token a"
  obtain r t where g: "ecall exec (ea_grant a) ''lease grant failed'' (LeaseGrant (lease_secs (lo_ttl opts))) (ea_before a s) = (r, t)"
    by fastforce
  have clean: "\<forall>k l. ev_kv (view t) k \<noteq> Some (?tok, l)"
    using world_no_tok [OF env(1) [rule_format] fresh] grant_call(1) [OF g lease_secs_pos] by simp
  show ?thesis
  proof (cases r)
    case (Inl e')
    then show ?thesis using fail g clean Inr by (simp add: etcd_try_lock_with_def)
  next
    case r: (Inr x)
    then obtain l where l: "x = ELease l" "l \<in> ev_used (view t)" using grant_call(2) [OF g lease_secs_pos] by blast
    let ?u = "snd (ecall exec (ea_txn a) ''acquire txn failed'' (TxnCreate k ?tok l) (ea_mid a t))"
    have "tok_bound ?tok l (view t)" using clean l(2) by (simp add: tok_bound_def)
    then have b: "tok_bound ?tok l (view ?u)" by (intro create_bound world_tok [OF env(2) [rule_format]])
    have "s' = snd (ecall exec Delivered ''revoke'' (LeaseRevoke l) (ea_mid' a ?u))"
      using fail g Inr r l(1) revoke
      by (auto simp: etcd_try_lock_with_def Let_def split: sum.splits prod.splits ereply.splits bool.splits)
    then show ?thesis using revoke_clears [OF b env(3) [rule_format]] by simp
  qed
qed

end

section \<open>Properties of the backend\<close>

text \<open>Property C4. The etcd lock excludes on a linearizable cluster, for as long as the lease lives and
  whatever the other clients do: after a grant, and any other requests and time, either the lease is
  over or the key still carries the grant's token; and if another attempt on the key is granted,
  concurrent activity between its calls included, the first lease is over by then.\<close>

theorem etcd_exclusive:
  assumes "etcd_server exec view pass"
    and grant: "etcd_try_lock_with exec k opts a s = (Inr h, s')"
    and run: "world exec pass (others (eh_token h) (eh_lease_id h)) s' u"
    and env: "\<forall>x. world exec pass (others (eh_token h) (eh_lease_id h)) x (ea_before b x)"
      "\<forall>x. world exec pass (others (eh_token h) (eh_lease_id h)) x (ea_mid b x)"
  shows "(ev_leases (view u) (eh_lease_id h) = None \<or> ev_kv (view u) k = Some (eh_token h, eh_lease_id h)) \<and>
    (\<nexists>h' u'. etcd_try_lock_with exec k opts' b u = (Inr h', u') \<and> ev_leases (view u') (eh_lease_id h) \<noteq> None)"
proof -
  have held: "held_or_over k (eh_token h) (eh_lease_id h) (view u)"
    using etcd_server.world_held [OF assms(1) run] etcd_server.granted_holds [OF assms(1) grant] .
  then show ?thesis using etcd_server.grant_ends_hold [OF assms(1) held _ env] by (auto simp: held_or_over_def)
qed

text \<open>Property C20. Fences of the etcd backend increase across all keys: a grant that starts after
  another one has a strictly larger fence, whatever happened in between, releases and expiries included, as
  long as the store's revision fits the 64 bits of the fence.\<close>

theorem etcd_fences_increase:
  assumes "etcd_server exec view pass"
    and grant: "etcd_try_lock_with exec k opts a s = (Inr h, s')" "etcd_try_lock_with exec k' opts' b u = (Inr h', u')"
    and run: "world exec pass (\<lambda>_. True) s' u"
    and env: "\<forall>x. world exec pass (\<lambda>_. True) x (ea_before b x)" "\<forall>x. world exec pass (\<lambda>_. True) x (ea_mid b x)"
    and fits: "ev_rev (view u') < 2 ^ 64"
  shows "fence_value (eh_fence h) < fence_value (eh_fence h')"
proof -
  have "ev_rev (view s') \<le> ev_rev (view u)" using etcd_server.world_rev [OF assms(1) run] .
  also have "\<dots> < ev_rev (view u')" using etcd_server.grant_revs [OF assms(1) grant(2) env] by simp
  finally show ?thesis
    using etcd_server.try_lock_granted(6) [OF assms(1)] grant fits
    by (simp add: word_of_nat_less_iff take_bit_nat_eq_self)
qed

text \<open>Property C21. An attempt on the etcd backend that reports an error leaves no trace of itself: whether the lease
  request, the transaction or only its answer failed, once the revocation it sends is
  delivered no key of the store carries its token.\<close>

theorem etcd_failed_acquire_clean:
  assumes "etcd_server exec view pass"
    and "etcd_try_lock_with exec k opts a s = (Inl e, s')"
    and "\<forall>k l. ev_kv (view s) k \<noteq> Some (ea_token a, l)"
    and "\<forall>x. world exec pass (foreign (ea_token a)) x (ea_before a x)" "\<forall>x. world exec pass (foreign (ea_token a)) x (ea_mid a x)"
      "\<forall>x. world exec pass (foreign (ea_token a)) x (ea_mid' a x)"
    and "ea_revoke a = Delivered"
  shows "ev_kv (view s') k' \<noteq> Some (ea_token a, l)"
  using etcd_server.failed_attempt_clean [OF assms] .

text \<open>Undisturbed attempts on the in-memory cluster.\<close>

definition quiet :: "string \<Rightarrow> delivery \<Rightarrow> 's eattempt" where
  "quiet tok d = \<lparr>ea_token = tok, ea_grant = Delivered, ea_txn = d, ea_revoke = Delivered, ea_before = (\<lambda>s. s),
     ea_mid = (\<lambda>s. s), ea_mid' = (\<lambda>s. s), ea_now = 0\<rparr>"

definition first_grant :: "EtcdShared result \<times> emem" where
  "first_grant = etcd_try_lock_with emem_exec ''k'' default_options (quiet ''a'' Delivered) emem_init"

definition second_grant :: "EtcdShared result \<times> emem" where
  "second_grant = etcd_try_lock_with emem_exec ''j'' default_options (quiet ''b'' Delivered) (snd first_grant)"

definition first_handle :: EtcdShared where
  "first_handle = etcd_make_handle ''k'' ''a'' (FencingToken 1) 0 False"

lemmas emem_run = etcd_try_lock_with_def quiet_def emem_exec_def emem_view_def add_lease_def ecall_def emem_init_def
  default_options_def validate_def lease_secs_def MIN_TTL_def from_secs_def from_millis_def Let_def

lemma quiet_env [simp]: "world exec pass P x (ea_before (quiet t d) x)" "world exec pass P x (ea_mid (quiet t d) x)"
  "world exec pass P x (ea_mid' (quiet t d) x)" "ea_revoke (quiet t d) = Delivered" "ea_token (quiet t d) = t"
  by (simp_all add: quiet_def world.idle)

lemma first_grant_result: "fst first_grant = Inr first_handle"
  unfolding first_grant_def first_handle_def by (simp add: emem_run)

lemma second_grant_result: "fst second_grant = Inr (etcd_make_handle ''j'' ''b'' (FencingToken 2) 1 False)"
  unfolding second_grant_def first_grant_def by (simp add: emem_run)

lemma grant_views:
  "ev_leases (emem_view (snd first_grant)) 0 = Some (30, 30)" "ev_rev (emem_view (snd second_grant)) = 2"
  unfolding second_grant_def first_grant_def by (simp_all add: emem_run)

theorem etcd_exclusive_witness:
  "ev_leases (emem_view (emem_pass 10 (snd first_grant))) 0 \<noteq> None \<and>
   ev_kv (emem_view (emem_pass 10 (snd first_grant))) ''k'' = Some (''a'', 0) \<and>
   (\<nexists>h' u'. etcd_try_lock_with emem_exec ''k'' default_options (quiet ''b'' Delivered) (emem_pass 10 (snd first_grant)) = (Inr h', u') \<and>
      ev_leases (emem_view u') 0 \<noteq> None)"
proof -
  have g: "etcd_try_lock_with emem_exec ''k'' default_options (quiet ''a'' Delivered) emem_init = (Inr first_handle, snd first_grant)"
    using first_grant_result by (simp add: first_grant_def prod_eq_iff)
  have alive: "ev_leases (emem_view (emem_pass 10 (snd first_grant))) 0 \<noteq> None"
    using grant_views(1) by (simp add: emem.pass_view elapse_def drop_leases_def)
      (simp add: first_grant_def emem_run)
  have "world emem_exec emem_pass (others (eh_token first_handle) (eh_lease_id first_handle)) (snd first_grant) (emem_pass 10 (snd first_grant))"
    by (intro world.time world.idle)
  from etcd_exclusive [OF emem.etcd_server_axioms g this, of "quiet ''b'' Delivered" default_options] alive
  show ?thesis by (simp add: first_handle_def etcd_make_handle_def)
qed

theorem etcd_fences_increase_witness:
  "\<exists>h h'. fst first_grant = Inr h \<and> fst second_grant = Inr h' \<and> fence_value (eh_fence h) < fence_value (eh_fence h')"
proof -
  have g: "etcd_try_lock_with emem_exec ''k'' default_options (quiet ''a'' Delivered) emem_init = (Inr first_handle, snd first_grant)"
    "etcd_try_lock_with emem_exec ''j'' default_options (quiet ''b'' Delivered) (snd first_grant) =
      (Inr (etcd_make_handle ''j'' ''b'' (FencingToken 2) 1 False), snd second_grant)"
    using first_grant_result second_grant_result by (simp_all add: first_grant_def second_grant_def prod_eq_iff)
  from etcd_fences_increase [OF emem.etcd_server_axioms g world.idle] grant_views(2)
  show ?thesis using first_grant_result second_grant_result by simp
qed

theorem etcd_failed_acquire_clean_witness:
  "\<exists>e. fst (etcd_try_lock_with emem_exec ''k'' default_options (quiet ''a'' ReplyLost) emem_init) = Inl e \<and>
   ev_kv (emem_view (snd (etcd_try_lock_with emem_exec ''k'' default_options (quiet ''a'' ReplyLost) emem_init))) ''k'' \<noteq> Some (''a'', 0)"
proof -
  let ?r = "etcd_try_lock_with emem_exec ''k'' default_options (quiet ''a'' ReplyLost) emem_init"
  have f: "fst ?r = Inl (Backend ''acquire txn failed'')" by (simp add: emem_run)
  then have "?r = (Inl (Backend ''acquire txn failed''), snd ?r)" by (simp add: prod_eq_iff)
  from etcd_failed_acquire_clean [OF emem.etcd_server_axioms this] f show ?thesis
    by (simp add: emem_init_def emem_view_def)
qed

end
