(* ===== verification/LockApi.thy ===== *)
theory LockApi
  imports Mutex Redlock Etcd Client
begin

text \<open>
  The traits of \<^verbatim>\<open>src/crates/core/src/lock.rs\<close>. \<open>lock_manager\<close> is the contract of
  \<^verbatim>\<open>LockManager\<close> (implemented by the Redis, the Redlock and the etcd manager) and
  \<open>lock_handle\<close> the contract of \<^verbatim>\<open>LockHandle\<close> (implemented by their handles and by the
  remote handle of the client); each is interpreted on every implementation. The provided method
  \<^verbatim>\<open>lock\<close> is a definition over the implementation's \<^verbatim>\<open>try_lock_for\<close>.
\<close>

section \<open>Managers\<close>

definition DURATION_MAX :: duration where
  "DURATION_MAX = (2 ^ 64 - 1) * 1000000000 + 999999999"

text \<open>The provided method: wait for the longest duration there is.\<close>

definition trait_lock ::
  "(nat \<Rightarrow> string \<Rightarrow> LockOptions \<Rightarrow> duration \<Rightarrow> 'a list \<Rightarrow> 's \<Rightarrow> panic + ('h result \<times> 's) option) \<Rightarrow>
   nat \<Rightarrow> string \<Rightarrow> LockOptions \<Rightarrow> 'a list \<Rightarrow> 's \<Rightarrow> panic + ('h result \<times> 's) option" where
  "trait_lock wait_for now key options = wait_for now key options DURATION_MAX"

locale lock_manager =
  fixes attempt :: "'a \<Rightarrow> string \<Rightarrow> LockOptions \<Rightarrow> 's \<Rightarrow> 'h result \<times> 's"
    and wait_for :: "nat \<Rightarrow> string \<Rightarrow> LockOptions \<Rightarrow> duration \<Rightarrow> 'a list \<Rightarrow> 's \<Rightarrow> panic + ('h result \<times> 's) option"
    and clock_after :: "'a \<Rightarrow> nat"
    and handle_key :: "'h \<Rightarrow> string"
  assumes attempt_key: "fst (attempt a key options s) = Inr h \<Longrightarrow> handle_key h = key"
    and wait_granted: "wait_for now key options wait as s = Inr (Some (Inr h, t)) \<Longrightarrow>
      \<exists>a \<in> set as. \<exists>u. attempt a key options u = (Inr h, t)"
    and wait_not_held: "wait_for now key options wait as s \<noteq> Inr (Some (Inl (Held k), t))"
    and wait_bounded: "now + wait < INSTANT_LIMIT \<Longrightarrow> \<exists>a \<in> set as. now + wait \<le> clock_after a \<Longrightarrow>
      \<exists>r t. wait_for now key options wait as s = Inr (Some (r, t))"
begin

lemma wait_answers:
  assumes "now + wait < INSTANT_LIMIT" "\<exists>a \<in> set as. now + wait \<le> clock_after a"
  shows "\<exists>r t. wait_for now key options wait as s = Inr (Some (r, t)) \<and> (\<forall>k. r \<noteq> Inl (Held k)) \<and>
    (\<forall>h. r = Inr h \<longrightarrow> handle_key h = key)"
proof -
  obtain r t where rt: "wait_for now key options wait as s = Inr (Some (r, t))" using wait_bounded [OF assms] by blast
  have "handle_key h = key" if "r = Inr h" for h
    using wait_granted [OF rt [unfolded that]] attempt_key by (metis fst_conv)
  with rt show ?thesis using wait_not_held by blast
qed

end

text \<open>A manager that adds the wait to the present instant panics where the sum has no instant; one that
  checks the addition waits without a deadline.\<close>

locale unchecked_manager = lock_manager +
  assumes overflow: "INSTANT_LIMIT \<le> now + wait \<Longrightarrow>
    wait_for now key options wait as s = Inl (Panic ''overflow when adding duration to instant'')"
begin

lemma lock_panics: "trait_lock wait_for now key options as s = Inl (Panic ''overflow when adding duration to instant'')"
  unfolding trait_lock_def by (rule overflow) (simp add: INSTANT_LIMIT_def DURATION_MAX_def)

end

locale checked_manager = lock_manager +
  assumes no_panic: "\<exists>r. wait_for now key options wait as s = Inr r"
    and no_deadline: "INSTANT_LIMIT \<le> now + wait \<Longrightarrow> wait_for now key options wait (a # as) s =
      (case attempt a key options s of
         (Inl (Held k), t) \<Rightarrow> wait_for now key options wait as t
       | (r, t) \<Rightarrow> Inr (Some (r, t)))"
begin

text \<open>Waiting without bound: the answer is the first attempt that does not find the lock held.\<close>

lemma lock_first_answer:
  assumes "attempt a key options s = (r, t)"
  shows "trait_lock wait_for now key options (a # as) s =
    (case r of Inl (Held k) \<Rightarrow> trait_lock wait_for now key options as t | _ \<Rightarrow> Inr (Some (r, t)))"
proof -
  have "INSTANT_LIMIT \<le> now + DURATION_MAX" by (simp add: INSTANT_LIMIT_def DURATION_MAX_def)
  from no_deadline [OF this, of key options a as s] show ?thesis
    by (simp add: trait_lock_def assms split: sum.splits error.splits)
qed

end

text \<open>Managers whose waiting is the shared polling loop.\<close>

lemma polling_manager:
  assumes "\<And>a key options s h. fst (attempt a key options s) = Inr h \<Longrightarrow> handle_key h = key"
  shows "unchecked_manager attempt (\<lambda>now key options. poll_for (\<lambda>a. attempt a key options) clock_at key now) clock_at handle_key"
proof
  show "handle_key h = key" if "fst (attempt a key options s) = Inr h" for a key options s h
    using assms that .
next
  fix now key options wait as s h t
  assume "poll_for (\<lambda>a. attempt a key options) clock_at key now wait as s = Inr (Some (Inr h, t))"
  then obtain dl where "poll_loop (\<lambda>a. attempt a key options) clock_at key dl as s = Some (Inr h, t)"
    by (cases "instant_add now wait") (auto simp: poll_for_def)
  from poll_loop_result [OF this] show "\<exists>a \<in> set as. \<exists>u. attempt a key options u = (Inr h, t)"
    by (metis Inl_Inr_False prod.collapse)
next
  fix now key options wait as s k t
  show "poll_for (\<lambda>a. attempt a key options) clock_at key now wait as s \<noteq> Inr (Some (Inl (Held k), t))"
    using poll_loop_not_held by (cases "instant_add now wait") (fastforce simp: poll_for_def)+
next
  fix now wait as key options s
  assume "now + wait < INSTANT_LIMIT" and past: "\<exists>a \<in> set as. now + wait \<le> clock_at a"
  then have "instant_add now wait = Inr (now + wait)" by (simp add: instant_add_Inr)
  then show "\<exists>r t. poll_for (\<lambda>a. attempt a key options) clock_at key now wait as s = Inr (Some (r, t))"
    using poll_loop_returns [OF past, of "\<lambda>a. attempt a key options" key s] by (auto simp: poll_for_def)
next
  fix now wait key options as s
  assume "INSTANT_LIMIT \<le> now + wait"
  then show "poll_for (\<lambda>a. attempt a key options) clock_at key now wait as s = Inl (Panic ''overflow when adding duration to instant'')"
    by (simp add: poll_for_def instant_add_panics)
qed

section \<open>The implementations\<close>

text \<open>One attempt of the Redis manager's loop, with its own time limit.\<close>

definition redis_attempt ::
  "'s server \<Rightarrow> RedisLockManager \<Rightarrow> 's attempt \<Rightarrow> string \<Rightarrow> LockOptions \<Rightarrow> 's \<Rightarrow> HandleShared result \<times> 's" where
  "redis_attempt exec mgr a key options s =
     (let (r, t) = try_lock_with exec (at_delivery a) mgr (at_token a) key options (at_env a s) in
      if at_elapsed a \<and> is_ok (validate options) then (Inl (Timeout key), t) else (r, t))"

definition redis_wait_for ::
  "'s server \<Rightarrow> RedisLockManager \<Rightarrow> nat \<Rightarrow> string \<Rightarrow> LockOptions \<Rightarrow> duration \<Rightarrow> 's attempt list \<Rightarrow> 's \<Rightarrow>
   panic + (HandleShared result \<times> 's) option" where
  "redis_wait_for exec mgr now key options wait as s = Inr (try_lock_for exec mgr now key options wait as s)"

lemma try_lock_for_loop_attempt:
  "try_lock_for_loop exec mgr key options deadline (a # as) s =
     (case redis_attempt exec mgr a key options s of
        (Inl (Held k), t) \<Rightarrow>
          (case deadline of
             Some dl \<Rightarrow> if dl \<le> at_now a then Some (Inl (Timeout key), t) else try_lock_for_loop exec mgr key options deadline as t
           | None \<Rightarrow> try_lock_for_loop exec mgr key options deadline as t)
      | (r, t) \<Rightarrow> Some (r, t))"
  by (auto simp: redis_attempt_def Let_def split: prod.splits sum.splits error.splits)

lemma try_lock_for_loop_granted:
  "try_lock_for_loop exec mgr key options deadline as s = Some (Inr h, t) \<Longrightarrow>
     \<exists>a \<in> set as. \<exists>u. redis_attempt exec mgr a key options u = (Inr h, t)"
  by (induction as arbitrary: s)
    (auto simp: try_lock_for_loop_attempt simp del: try_lock_for_loop.simps(2)
      split: prod.splits sum.splits error.splits option.splits if_splits)

lemma try_lock_for_loop_not_held: "try_lock_for_loop exec mgr key options deadline as s \<noteq> Some (Inl (Held k), t)"
  by (induction as arbitrary: s)
    (auto simp: try_lock_for_loop_attempt simp del: try_lock_for_loop.simps(2)
      split: prod.splits sum.splits error.splits option.splits if_splits)

lemma try_lock_with_key: "fst (try_lock_with exec d mgr tok key options s) = Inr h \<Longrightarrow> hs_key h = key"
  by (auto simp: try_lock_with_def split: sum.splits prod.splits if_splits)

interpretation redis_manager: checked_manager "redis_attempt exec mgr" "redis_wait_for exec mgr" at_now hs_key for exec mgr
proof
  show "hs_key h = key" if "fst (redis_attempt exec mgr a key options s) = Inr h" for a key options s h
    using that by (auto simp: redis_attempt_def split_beta Let_def intro: try_lock_with_key split: if_splits)
  show "\<exists>a \<in> set as. \<exists>u. redis_attempt exec mgr a key options u = (Inr h, t)"
    if "redis_wait_for exec mgr now key options wait as s = Inr (Some (Inr h, t))" for now key options wait as s h t
    using that try_lock_for_loop_granted by (simp add: redis_wait_for_def try_lock_for_def)
  show "redis_wait_for exec mgr now key options wait as s \<noteq> Inr (Some (Inl (Held k), t))" for now key options wait as s k t
    using try_lock_for_loop_not_held by (simp add: redis_wait_for_def try_lock_for_def)
  show "\<exists>r t. redis_wait_for exec mgr now key options wait as s = Inr (Some (r, t))"
    if "now + wait < INSTANT_LIMIT" "\<exists>a \<in> set as. now + wait \<le> at_now a" for now key options wait as s
    using that try_lock_for_answers [of now wait "now + wait" as exec mgr key options s]
    by (auto simp: redis_wait_for_def instant_checked_add_def)
  show "\<exists>r. redis_wait_for exec mgr now key options wait as s = Inr r" for now key options wait as s
    by (simp add: redis_wait_for_def)
  show "redis_wait_for exec mgr now key options wait (a # as) s =
      (case redis_attempt exec mgr a key options s of
         (Inl (Held k), t) \<Rightarrow> redis_wait_for exec mgr now key options wait as t
       | (r, t) \<Rightarrow> Inr (Some (r, t)))"
    if "INSTANT_LIMIT \<le> now + wait" for now key options wait a as s
    using that by (auto simp: redis_wait_for_def try_lock_for_def instant_checked_add_def try_lock_for_loop_attempt
        simp del: try_lock_for_loop.simps(2) split: prod.splits sum.splits error.splits)
qed

definition redlock_attempt ::
  "'s server \<Rightarrow> RedlockManager \<Rightarrow> 's rround \<Rightarrow> string \<Rightarrow> LockOptions \<Rightarrow> 's list \<Rightarrow> RedlockShared result \<times> 's list" where
  "redlock_attempt exec mgr r key options = redlock_try_lock exec mgr key options r"

definition etcd_attempt :: "'s etcd \<Rightarrow> 's eattempt \<Rightarrow> string \<Rightarrow> LockOptions \<Rightarrow> 's \<Rightarrow> EtcdShared result \<times> 's" where
  "etcd_attempt exec a key options = etcd_try_lock_with exec key options a"

interpretation redlock_manager: unchecked_manager "redlock_attempt exec mgr" "redlock_try_lock_for exec mgr" rr_now rs_key for exec mgr
proof -
  have "rs_key h = key" if "fst (redlock_attempt exec mgr r key options ss) = Inr h" for r key options ss h
    using that by (auto simp: redlock_attempt_def redlock_try_lock_def make_handle_def split: sum.splits prod.splits if_splits)
  from polling_manager [of "redlock_attempt exec mgr" rs_key rr_now, OF this]
  show "unchecked_manager (redlock_attempt exec mgr) (redlock_try_lock_for exec mgr) rr_now rs_key"
    by (simp add: redlock_try_lock_for_def [abs_def] redlock_attempt_def [abs_def])
qed

interpretation etcd_manager: unchecked_manager "etcd_attempt exec" "etcd_try_lock_for exec" ea_now eh_key for exec
proof -
  have "eh_key h = key" if "fst (etcd_attempt exec a key options s) = Inr h" for a key options s h
    using that by (auto simp: etcd_attempt_def etcd_try_lock_with_def etcd_make_handle_def Let_def
        split: sum.splits prod.splits ereply.splits bool.splits)
  from polling_manager [of "etcd_attempt exec" eh_key ea_now, OF this]
  show "unchecked_manager (etcd_attempt exec) (etcd_try_lock_for exec) ea_now eh_key"
    by (simp add: etcd_try_lock_for_def [abs_def] etcd_attempt_def [abs_def])
qed

section \<open>Waiting\<close>




section \<open>Handles\<close>

text \<open>The calls a holder makes on a handle; \<open>'d\<close> is the environment of one call.\<close>

datatype 'd handle_op = OpExtend 'd duration | OpRelease 'd

fun use_handle ::
  "('d \<Rightarrow> duration \<Rightarrow> 'h \<Rightarrow> 's \<Rightarrow> unit result \<times> 'h \<times> 's) \<Rightarrow> ('d \<Rightarrow> 'h \<Rightarrow> 's \<Rightarrow> unit result \<times> 'h \<times> 's) \<Rightarrow>
   'd handle_op list \<Rightarrow> 'h \<Rightarrow> 's \<Rightarrow> 'h \<times> 's" where
  "use_handle ext rel [] h s = (h, s)"
| "use_handle ext rel (OpExtend d ttl # ops) h s =
     (case ext d ttl h s of (_, h', s') \<Rightarrow> use_handle ext rel ops h' s')"
| "use_handle ext rel (OpRelease d # ops) h s =
     (case rel d h s of (_, h', s') \<Rightarrow> use_handle ext rel ops h' s')"

text \<open>Waiting for the loss signal: the values the watch channel shows, in order; a closed channel ends the
  wait too.\<close>

datatype signal = Shows bool | Closed

fun until_lost :: "signal list \<Rightarrow> bool" where
  "until_lost [] \<longleftrightarrow> False"
| "until_lost (Shows b # ss) \<longleftrightarrow> b \<or> until_lost ss"
| "until_lost (Closed # ss) \<longleftrightarrow> True"

lemma until_lost_iff: "until_lost ss \<longleftrightarrow> Shows True \<in> set ss \<or> Closed \<in> set ss"
  by (induction ss rule: until_lost.induct) auto

text \<open>What a holder may rely on: everything after a release is without effect, the identity of the grant stays,
  and so does a loss.\<close>

definition handle_ok ::
  "('d \<Rightarrow> duration \<Rightarrow> 'h \<Rightarrow> 's \<Rightarrow> unit result \<times> 'h \<times> 's) \<Rightarrow> ('d \<Rightarrow> 'h \<Rightarrow> 's \<Rightarrow> unit result \<times> 'h \<times> 's) \<Rightarrow> ('h \<Rightarrow> bool) \<Rightarrow>
   ('h \<Rightarrow> string \<times> string \<times> FencingToken) \<Rightarrow> 'd handle_op list \<Rightarrow> 'd \<Rightarrow> 'd handle_op list \<Rightarrow> 'h \<Rightarrow> 's \<Rightarrow> bool" where
  "handle_ok ext rel lost identity ops d ops' h s \<longleftrightarrow>
     use_handle ext rel (ops @ OpRelease d # ops') h s = use_handle ext rel (ops @ [OpRelease d]) h s \<and>
     identity (fst (use_handle ext rel ops h s)) = identity h \<and>
     (lost h \<longrightarrow> lost (fst (use_handle ext rel ops h s)))"

locale lock_handle =
  fixes ext :: "'d \<Rightarrow> duration \<Rightarrow> 'h \<Rightarrow> 's \<Rightarrow> unit result \<times> 'h \<times> 's"
    and rel :: "'d \<Rightarrow> 'h \<Rightarrow> 's \<Rightarrow> unit result \<times> 'h \<times> 's"
    and spent :: "'h \<Rightarrow> bool"
    and is_lost :: "'h \<Rightarrow> bool"
    and identity :: "'h \<Rightarrow> string \<times> string \<times> FencingToken"
  assumes release_spends: "rel d h s = (r, h', s') \<Longrightarrow> spent h'"
    and release_again: "spent h \<Longrightarrow> rel d h s = (Inr (), h, s)"
    and extend_spent: "spent h \<Longrightarrow> \<exists>e. ext d ttl h s = (Inl e, h, s)"
    and keeps_identity: "rel d h s = (r, h', s') \<or> ext d ttl h s = (r, h', s') \<Longrightarrow> identity h' = identity h"
    and stays_lost: "rel d h s = (r, h', s') \<or> ext d ttl h s = (r, h', s') \<Longrightarrow> is_lost h \<Longrightarrow> is_lost h'"
    and extend_lost: "ext d ttl h s = (Inl (Lost k f), h', s') \<Longrightarrow> \<not> spent h \<Longrightarrow> is_lost h'"
begin

lemma spent_inert: "spent h \<Longrightarrow> use_handle ext rel ops h s = (h, s)"
proof (induction ops)
  case (Cons x ops)
  show ?case
  proof (cases x)
    case (OpExtend d ttl)
    obtain e where "ext d ttl h s = (Inl e, h, s)" using extend_spent [OF Cons.prems] by blast
    then show ?thesis using Cons by (simp add: OpExtend)
  next
    case (OpRelease d)
    then show ?thesis using Cons release_again [OF Cons.prems] by simp
  qed
qed simp

lemma use_append:
  "use_handle ext rel (ops @ ops') h s =
     (case use_handle ext rel ops h s of (h', s') \<Rightarrow> use_handle ext rel ops' h' s')"
proof (induction ops arbitrary: h s)
  case (Cons x ops)
  then show ?case by (cases x) (simp_all split: prod.split)
qed simp

lemma inert_after_release:
  "use_handle ext rel (ops @ OpRelease d # ops') h s = use_handle ext rel (ops @ [OpRelease d]) h s"
  using release_spends spent_inert by (fastforce simp: use_append split: prod.split)

lemma same_identity: "use_handle ext rel ops h s = (h', s') \<Longrightarrow> identity h' = identity h"
proof (induction ops arbitrary: h s)
  case (Cons x ops)
  then show ?case using keeps_identity by (cases x) (fastforce split: prod.splits)+
qed simp

lemma loss_is_final: "use_handle ext rel ops h s = (h', s') \<Longrightarrow> is_lost h \<Longrightarrow> is_lost h'"
proof (induction ops arbitrary: h s)
  case (Cons x ops)
  then show ?case using stays_lost by (cases x) (fastforce split: prod.splits)+
qed simp

lemma contract: "handle_ok ext rel is_lost identity ops d ops' h s"
  unfolding handle_ok_def using inert_after_release same_identity loss_is_final
  by (cases "use_handle ext rel ops h s") (metis fst_conv)

end

section \<open>The implementations\<close>

text \<open>What identifies a grant, and the trait's methods over the environment of one call each.\<close>

definition redis_identity :: "HandleShared \<Rightarrow> string \<times> string \<times> FencingToken" where
  "redis_identity h = (hs_key h, hs_token h, hs_fence h)"

definition redlock_identity :: "RedlockShared \<Rightarrow> string \<times> string \<times> FencingToken" where
  "redlock_identity h = (rs_key h, rs_token h, rs_fence h)"

definition etcd_identity :: "EtcdShared \<Rightarrow> string \<times> string \<times> FencingToken" where
  "etcd_identity h = (eh_key h, eh_token h, eh_fence h)"

definition remote_identity :: "RemoteShared \<Rightarrow> string \<times> string \<times> FencingToken" where
  "remote_identity h = (rh_key h, rh_token h, rh_fence h)"

lemma transport_errors:
  "fire_extend exec d h ttl s = (Inl e, t) \<Longrightarrow> e \<noteq> Lost k f"
  "redlock_fire_extend exec mgr r g ttl ss = (Inl e, us) \<Longrightarrow> e \<noteq> Lost k f"
  "remote_fire_extend valid stub d sp rh ttl hist v = (Inl e, w) \<Longrightarrow> e \<noteq> Lost k f"
proof -
  show "fire_extend exec d h ttl s = (Inl e, t) \<Longrightarrow> e \<noteq> Lost k f"
    using invoke_Inl [of d "''extend script failed''" "extend_lua exec [hs_key h, hs_fence_key h] [hs_token h, ttl_arg ttl, fence_ttl_arg ttl]" s]
    by (auto simp: fire_extend_def split: prod.splits sum.splits)
  show "redlock_fire_extend exec mgr r g ttl ss = (Inl e, us) \<Longrightarrow> e \<noteq> Lost k f"
    by (auto simp: redlock_fire_extend_def extend_verdict_def split: prod.splits if_splits)
  show "remote_fire_extend valid stub d sp rh ttl hist v = (Inl e, w) \<Longrightarrow> e \<noteq> Lost k f"
    by (auto simp: remote_fire_extend_def rpc_def Let_def status_to_error_def rpc_answer_def split: prod.splits sum.splits if_splits)
qed

interpretation redis_handle: lock_handle "handle_extend exec" "handle_release exec" hs_released hs_poisoned redis_identity for exec
  by unfold_locales
    (auto simp: handle_release_def handle_extend_def mark_released_def mark_lost_def redis_identity_def
      dest: transport_errors(1)
      split: if_splits prod.splits sum.splits bool.splits)

interpretation redlock_handle: lock_handle "redlock_extend exec mgr" "redlock_release exec mgr" rs_gone rs_poisoned redlock_identity for exec mgr
  by unfold_locales
    (auto simp: redlock_release_def redlock_extend_def rs_mark_gone_def rs_mark_lost_def redlock_identity_def
      dest: transport_errors(2)
      split: if_splits prod.splits sum.splits bool.splits)

record 's etcd_call =
  ec_opened :: bool
  ec_sent :: bool
  ec_first :: delivery
  ec_second :: delivery
  ec_mid :: "'s \<Rightarrow> 's"

definition etcd_handle_extend ::
  "'s etcd \<Rightarrow> 's etcd_call \<Rightarrow> duration \<Rightarrow> EtcdShared \<Rightarrow> 's \<Rightarrow> unit result \<times> EtcdShared \<times> 's" where
  "etcd_handle_extend exec c ttl h s = etcd_extend exec (ec_opened c) (ec_sent c) (ec_first c) h s"

definition etcd_handle_release :: "'s etcd \<Rightarrow> 's etcd_call \<Rightarrow> EtcdShared \<Rightarrow> 's \<Rightarrow> unit result \<times> EtcdShared \<times> 's" where
  "etcd_handle_release exec c h s = etcd_release exec (ec_first c) (ec_second c) (ec_mid c) h s"

interpretation etcd_handle: lock_handle "etcd_handle_extend exec" "etcd_handle_release exec" eh_gone eh_poisoned etcd_identity for exec
  by unfold_locales
    (auto simp: etcd_handle_extend_def etcd_handle_release_def etcd_release_def etcd_extend_def eh_mark_gone_def eh_mark_lost_def
      etcd_identity_def split: if_splits prod.splits sum.splits bool.splits)

text \<open>The remote handle's state is the recorded history and the server.\<close>

definition remote_handle_extend ::
  "(string \<Rightarrow> bool) \<Rightarrow> (string option \<Rightarrow> string \<Rightarrow> string \<Rightarrow> u64 \<Rightarrow> (ExtendResponse option, 'v) handler) \<Rightarrow> delivery \<times> span \<Rightarrow> duration \<Rightarrow>
   RemoteShared \<Rightarrow> HistoryRecorder \<times> 'v \<Rightarrow> unit result \<times> RemoteShared \<times> HistoryRecorder \<times> 'v" where
  "remote_handle_extend valid stub c ttl h s = client_extend valid stub (fst c) (snd c) ttl h (fst s) (snd s)"

definition remote_handle_release ::
  "(string \<Rightarrow> bool) \<Rightarrow> (string option \<Rightarrow> string \<Rightarrow> string \<Rightarrow> (UnlockResponse option, 'v) handler) \<Rightarrow> delivery \<times> span \<Rightarrow> RemoteShared \<Rightarrow>
   HistoryRecorder \<times> 'v \<Rightarrow> unit result \<times> RemoteShared \<times> HistoryRecorder \<times> 'v" where
  "remote_handle_release valid stub c h s = client_release valid stub (fst c) (snd c) h (fst s) (snd s)"

interpretation remote_handle:
  lock_handle "remote_handle_extend valid estub" "remote_handle_release valid ustub" rh_released rh_lost remote_identity
  for valid estub ustub
  by unfold_locales
    (auto simp: remote_handle_extend_def remote_handle_release_def client_extend_def client_release_def rh_mark_gone_def
      rh_mark_lost_def rh_lost_error_def remote_identity_def
      dest: transport_errors(3)
      split: if_splits prod.splits sum.splits bool.splits)

text \<open>Property C26. The handle contract. On each of the four kinds of handle (Redis, Redlock, etcd, remote), once a release
  has been called, whether it succeeded or failed, no further release or extension, in any number and order and under
  any failures, changes the handle or reaches the store; and throughout its life a handle keeps its key, its owner token and its
  fence, and a loss once reported is never taken back.\<close>

theorem handle_contract:
  "handle_ok (handle_extend exec) (handle_release exec) hs_poisoned redis_identity ops1 d1 ops1' h1 s1 \<and>
   handle_ok (redlock_extend exec mgr) (redlock_release exec mgr) rs_poisoned redlock_identity ops2 d2 ops2' h2 s2 \<and>
   handle_ok (etcd_handle_extend ex) (etcd_handle_release ex) eh_poisoned etcd_identity ops3 d3 ops3' h3 s3 \<and>
   handle_ok (remote_handle_extend valid estub) (remote_handle_release valid ustub) rh_lost remote_identity ops4 d4 ops4' h4 s4"
  by (intro conjI redis_handle.contract redlock_handle.contract etcd_handle.contract remote_handle.contract)

end
