(* ===== verification/Predictor.thy ===== *)
theory Predictor
  imports Float64 Core
begin

text \<open>
  The contention predictor of \<^verbatim>\<open>src/crates/core/src/predictor.rs\<close>: per key a running average of
  hold durations and of their squared deviation, and a forecast of when the present holder lets go.
  Every \<^verbatim>\<open>f64\<close> operation is one application of \<open>f64\<close>; the square root is correctly
  rounded, and the conversion back to \<^verbatim>\<open>u64\<close> truncates and saturates, as in Rust. The map behind
  the mutex is a function from keys.
\<close>

section \<open>Data\<close>

definition MIN_SAMPLES :: u64 where
  "MIN_SAMPLES = 3"

record AvailabilityForecast =
  best_case_ms :: u64
  expected_ms :: u64
  worst_case_ms :: u64
  confidence_samples :: u64

record KeyStats =
  ewma_ms :: real
  ewma_var_ms :: real
  stat_samples :: u64

type_synonym predictor = "string \<Rightarrow> KeyStats option"

definition predictor_new :: predictor where
  "predictor_new = Map.empty"

section \<open>Conversions\<close>

definition u64_as_f64 :: "u64 \<Rightarrow> real" where
  "u64_as_f64 w = f64 (of_nat (unat w))"

definition f64_as_u64 :: "real \<Rightarrow> u64" where
  "f64_as_u64 x = (if x \<le> 0 then 0 else if 2 ^ 64 \<le> x then - 1 else word_of_int \<lfloor>x\<rfloor>)"

section \<open>Operations\<close>

definition gain :: "u64 \<Rightarrow> real" where
  "gain n = f64 (1 / u64_as_f64 (min n 20))"

definition update_stats :: "u64 \<Rightarrow> KeyStats \<Rightarrow> KeyStats" where
  "update_stats hold_ms st = (
     let n = stat_samples st + 1;
         delta = f64 (u64_as_f64 hold_ms - ewma_ms st)
     in \<lparr>ewma_ms = f64 (ewma_ms st + f64 (gain n * delta)),
         ewma_var_ms = f64 (ewma_var_ms st + f64 (gain n * f64 (f64 (delta * delta) - ewma_var_ms st))),
         stat_samples = n\<rparr>)"

definition observe_hold :: "string \<Rightarrow> u64 \<Rightarrow> predictor \<Rightarrow> predictor" where
  "observe_hold key hold_ms keys = (
     let st = (case keys key of Some st \<Rightarrow> st
        | None \<Rightarrow> \<lparr>ewma_ms = u64_as_f64 hold_ms, ewma_var_ms = 0, stat_samples = 0\<rparr>)
     in keys(key \<mapsto> update_stats hold_ms st))"

definition forecast :: "string \<Rightarrow> u64 \<Rightarrow> predictor \<Rightarrow> AvailabilityForecast option" where
  "forecast key elapsed_ms keys =
     (case keys key of
        None \<Rightarrow> None
      | Some st \<Rightarrow>
          if stat_samples st < MIN_SAMPLES then None
          else let sigma = max (f64 (sqrt (ewma_var_ms st))) 1;
                   elapsed = u64_as_f64 elapsed_ms;
                   remaining_best = f64 (max (f64 (ewma_ms st - sigma)) 1 - elapsed);
                   remaining_exp = f64 (ewma_ms st - elapsed);
                   remaining_worst = f64 (f64 (ewma_ms st + sigma) - elapsed)
               in Some \<lparr>best_case_ms = f64_as_u64 (max remaining_best 0),
                        expected_ms = f64_as_u64 (max remaining_exp 0),
                        worst_case_ms = f64_as_u64 (max remaining_worst 0),
                        confidence_samples = stat_samples st\<rparr>)"

definition observe_holds :: "(string \<times> u64) list \<Rightarrow> predictor" where
  "observe_holds os = fold (\<lambda>(key, hold_ms). observe_hold key hold_ms) os predictor_new"

section \<open>Conversions keep the order\<close>

lemma unat_of_nat_u64: "n < 2 ^ 64 \<Longrightarrow> unat (of_nat n :: u64) = n"
  by (simp add: unsigned_of_nat take_bit_nat_eq_self_iff)

lemma u64_as_f64_f64 [simp]: "f64 (u64_as_f64 w) = u64_as_f64 w"
  by (simp add: u64_as_f64_def f64_f64)

lemma u64_as_f64_nonneg [simp]: "0 \<le> u64_as_f64 w"
  unfolding u64_as_f64_def by (rule f64_nonneg) (rule of_nat_0_le_iff)

lemma u64_as_f64_ge: "int n \<le> 2 ^ 53 \<Longrightarrow> n \<le> unat w \<Longrightarrow> of_nat n \<le> u64_as_f64 w"
  using f64_mono [of "of_nat n" "of_nat (unat w)"] f64_int [of "int n"] unfolding u64_as_f64_def of_nat_le_iff by simp

lemma f64_as_u64_mono: "x \<le> y \<Longrightarrow> f64_as_u64 x \<le> f64_as_u64 y"
proof -
  assume le: "x \<le> y"
  have u: "uint (word_of_int \<lfloor>z\<rfloor> :: u64) = \<lfloor>z\<rfloor>" if "\<not> z \<le> 0" "\<not> 2 ^ 64 \<le> z" for z :: real
    using that by (simp add: take_bit_int_eq_self_iff le_floor_iff floor_less_iff unsigned_of_int)
  have top: "w \<le> - 1" for w :: u64 by simp
  show ?thesis
    using le floor_mono [OF le] top by (cases "2 ^ 64 \<le> y") (auto simp: f64_as_u64_def word_le_def u)
qed

section \<open>The averages\<close>

lemma gain_bounds: "0 \<le> gain n" "gain n \<le> 1" "2 \<le> n \<Longrightarrow> gain n \<le> 1 / 2"
proof -
  let ?m = "u64_as_f64 (min n 20)"
  show "0 \<le> gain n" by (simp add: gain_def f64_nonneg)
  show "gain n \<le> 1"
  proof (cases "n = 0")
    case True
    then show ?thesis by (simp add: gain_def u64_as_f64_def f64.fl_0)
  next
    case False
    then have "1 \<le> unat (min n 20)" by (auto simp: min_def Suc_le_eq unat_gt_0)
    then have "1 \<le> ?m" using u64_as_f64_ge [of 1] by simp
    then show ?thesis using f64_mono [of "1 / ?m" 1] f64.fl_1 by (simp add: gain_def)
  qed
  assume "2 \<le> n"
  then have "2 \<le> unat (min n 20)" by (auto simp: min_def word_le_nat_alt)
  then have "2 \<le> ?m" using u64_as_f64_ge [of 2] by simp
  then have "gain n \<le> f64 (1 / 2)" unfolding gain_def by (intro f64_mono) (simp add: field_simps)
  then show "gain n \<le> 1 / 2" using f64_exact [of 1 "- 1"] by (simp add: powr_minus_divide)
qed

interpretation pr: averaging f64 "gain n" for n
  by unfold_locales (simp_all add: gain_bounds)

lemma update_stats_avg:
  "ewma_ms (update_stats h st) = pr.avg (stat_samples st + 1) (ewma_ms st) (u64_as_f64 h)"
  "ewma_var_ms (update_stats h st) = pr.avg (stat_samples st + 1) (ewma_var_ms st)
     (f64 (f64 (u64_as_f64 h - ewma_ms st) * f64 (u64_as_f64 h - ewma_ms st)))"
  "stat_samples (update_stats h st) = stat_samples st + 1"
  by (simp_all add: update_stats_def Let_def pr.avg_def)

definition stats_ok :: "KeyStats \<Rightarrow> bool" where
  "stats_ok st \<longleftrightarrow> f64 (ewma_ms st) = ewma_ms st \<and> 0 \<le> ewma_ms st \<and> f64 (ewma_var_ms st) = ewma_var_ms st \<and> 0 \<le> ewma_var_ms st"

lemma update_stats_ok: "stats_ok st \<Longrightarrow> stats_ok (update_stats h st)"
  by (simp add: stats_ok_def update_stats_avg pr.avg_fl pr.avg_nonneg f64_nonneg)

section \<open>Runs\<close>

text \<open>The holds of one key, in order; the others do not matter to its statistics.\<close>

definition holds_of :: "string \<Rightarrow> (string \<times> u64) list \<Rightarrow> u64 list" where
  "holds_of key os = map snd (filter (\<lambda>(k, h). k = key) os)"

definition stats_of :: "u64 list \<Rightarrow> KeyStats option" where
  "stats_of hs = (case hs of [] \<Rightarrow> None
     | h # _ \<Rightarrow> Some (fold update_stats hs \<lparr>ewma_ms = u64_as_f64 h, ewma_var_ms = 0, stat_samples = 0\<rparr>))"

lemma stats_of_snoc:
  "stats_of (hs @ [h]) = Some (update_stats h (case stats_of hs of Some st \<Rightarrow> st
     | None \<Rightarrow> \<lparr>ewma_ms = u64_as_f64 h, ewma_var_ms = 0, stat_samples = 0\<rparr>))"
  by (cases hs) (simp_all add: stats_of_def)

lemma observe_holds_stats: "observe_holds os key = stats_of (holds_of key os)"
proof (induction os rule: rev_induct)
  case Nil
  show ?case by (simp add: observe_holds_def predictor_new_def holds_of_def stats_of_def)
next
  case (snoc o' os)
  obtain k h where o': "o' = (k, h)" by (cases o')
  have "observe_holds (os @ [o']) = observe_hold k h (observe_holds os)" by (simp add: observe_holds_def o')
  then show ?case using snoc.IH by (auto simp: observe_hold_def o' holds_of_def stats_of_snoc)
qed

lemma stats_of_facts:
  assumes "hs \<noteq> []" "length hs < 2 ^ 64"
  obtains st where "stats_of hs = Some st" "stats_ok st" "stat_samples st = of_nat (length hs)"
    "0 \<notin> set hs \<Longrightarrow> 1 \<le> ewma_ms st" "length hs = 1 \<Longrightarrow> ewma_ms st = u64_as_f64 (hd hs)"
  using assms
proof (induction hs arbitrary: thesis rule: rev_induct)
  case (snoc h hs)
  show ?case
  proof (cases "hs = []")
    case True
    let ?st = "update_stats h \<lparr>ewma_ms = u64_as_f64 h, ewma_var_ms = 0, stat_samples = 0\<rparr>"
    have e: "ewma_ms ?st = u64_as_f64 h" by (simp add: update_stats_def Let_def f64.fl_0)
    show ?thesis
    proof (rule snoc.prems(1))
      show "stats_of (hs @ [h]) = Some ?st" using True by (simp add: stats_of_def)
      show "stats_ok ?st" by (rule update_stats_ok) (simp add: stats_ok_def f64.fl_0)
      show "0 \<notin> set (hs @ [h]) \<Longrightarrow> 1 \<le> ewma_ms ?st"
        using u64_as_f64_ge [of 1 h] unfolding e by (simp add: Suc_le_eq unat_gt_0)
    qed (use True e in \<open>simp_all add: update_stats_avg\<close>)
  next
    case False
    obtain st where st: "stats_of hs = Some st" "stats_ok st" "stat_samples st = of_nat (length hs)"
      "0 \<notin> set hs \<Longrightarrow> 1 \<le> ewma_ms st" using snoc.IH False snoc.prems(3) by auto
    show ?thesis
    proof (rule snoc.prems(1))
      show "stats_of (hs @ [h]) = Some (update_stats h st)" using st(1) by (simp add: stats_of_snoc)
      show "stats_ok (update_stats h st)" using st(2) by (rule update_stats_ok)
      show "stat_samples (update_stats h st) = of_nat (length (hs @ [h]))" by (simp add: update_stats_avg st(3))
      show "1 \<le> ewma_ms (update_stats h st)" if nz: "0 \<notin> set (hs @ [h])"
        unfolding update_stats_avg
      proof (rule pr.avg_ge_one)
        have "unat (stat_samples st + 1) = length hs + 1"
          using snoc.prems(3) unat_of_nat_u64 [of "length hs + 1"] by (simp add: st(3) add.commute)
        then show "gain (stat_samples st + 1) \<le> 1 / 2"
          using False by (intro gain_bounds(3)) (simp add: word_le_nat_alt Suc_le_eq)
        show "1 \<le> u64_as_f64 h" using nz u64_as_f64_ge [of 1 h] by (auto simp: Suc_le_eq unat_gt_0)
      qed (use st nz in \<open>auto simp: stats_ok_def\<close>)
    qed (use False in simp)
  qed
qed simp

section \<open>The forecast\<close>

lemma forecast_unfold:
  assumes "keys key = Some st" "\<not> stat_samples st < MIN_SAMPLES"
  shows "\<exists>w. forecast key e keys = Some w \<and> confidence_samples w = stat_samples st \<and>
    best_case_ms w = f64_as_u64 (max (f64 (max (f64 (ewma_ms st - max (f64 (sqrt (ewma_var_ms st))) 1)) 1 - u64_as_f64 e)) 0) \<and>
    expected_ms w = f64_as_u64 (max (f64 (ewma_ms st - u64_as_f64 e)) 0) \<and>
    worst_case_ms w = f64_as_u64 (max (f64 (f64 (ewma_ms st + max (f64 (sqrt (ewma_var_ms st))) 1) - u64_as_f64 e)) 0)"
  using assms by (simp add: forecast_def Let_def)

lemma remaining_mono: "x \<le> y \<Longrightarrow> f64_as_u64 (max (f64 (x - e)) 0) \<le> f64_as_u64 (max (f64 (y - e)) 0)"
  by (intro f64_as_u64_mono max.mono f64_mono) auto

lemma expected_le_worst:
  assumes "f64 x = x"
  shows "f64_as_u64 (max (f64 (x - e)) 0) \<le> f64_as_u64 (max (f64 (f64 (x + max d 1) - e)) 0)"
  using f64_mono [of x "x + max d 1"] assms by (intro remaining_mono) simp

lemma best_le_expected:
  assumes "f64 x = x" "1 \<le> x"
  shows "f64_as_u64 (max (f64 (max (f64 (x - max d 1)) 1 - e)) 0) \<le> f64_as_u64 (max (f64 (x - e)) 0)"
  using f64_mono [of "x - max d 1" x] assms by (intro remaining_mono) simp



text \<open>Holds of zero milliseconds put the best case after the expected release.\<close>

lemma zero_holds_inverted:
  "forecast ''k'' 0 (observe_holds [(''k'', 0), (''k'', 0), (''k'', 0)]) =
     Some \<lparr>best_case_ms = 1, expected_ms = 0, worst_case_ms = 1, confidence_samples = 3\<rparr>"
  by (simp add: observe_holds_def predictor_new_def observe_hold_def update_stats_def forecast_def Let_def MIN_SAMPLES_def
      u64_as_f64_def f64_as_u64_def f64.fl_0 f64.fl_1 f64_uminus)

end
