(* ===== verification/Pressure.thy ===== *)
theory Pressure
  imports Float64
begin

text \<open>
  The store pressure index of \<^verbatim>\<open>src/crates/server/src/lattice.rs\<close>: three exponentially weighted
  averages fed by every store operation, a composite score in [0, 100], the degradation tier read
  off the score and the watchdog multiplier it recommends. Every \<^verbatim>\<open>f64\<close> operation of the source
  is one application of \<open>f64\<close>. The natural logarithm comes from the platform's mathematical
  library and is a parameter (\<open>ln64\<close>), of which nothing is assumed; instants are
  nanoseconds.
\<close>

section \<open>Data\<close>

definition ALPHA :: real where
  "ALPHA = f64 (3 / 10)"

record StorePressureIndex =
  px_latency_us :: real
  px_failure_ratio :: real
  px_contention_ratio :: real
  px_spi :: real
  px_last_tick :: nat

datatype Tier = Normal | Elevated | Critical | Siege

primrec tier_as_u8 :: "Tier \<Rightarrow> nat" where
  "tier_as_u8 Normal = 0"
| "tier_as_u8 Elevated = 1"
| "tier_as_u8 Critical = 2"
| "tier_as_u8 Siege = 3"

primrec tier_as_str :: "Tier \<Rightarrow> string" where
  "tier_as_str Normal = ''NORMAL''"
| "tier_as_str Elevated = ''ELEVATED''"
| "tier_as_str Critical = ''CRITICAL''"
| "tier_as_str Siege = ''SIEGE''"

text \<open>The derived order is the order of the declaration.\<close>

instantiation Tier :: linorder
begin

definition less_eq_Tier :: "Tier \<Rightarrow> Tier \<Rightarrow> bool" where
  "less_eq_Tier s t \<longleftrightarrow> tier_as_u8 s \<le> tier_as_u8 t"

definition less_Tier :: "Tier \<Rightarrow> Tier \<Rightarrow> bool" where
  "less_Tier s t \<longleftrightarrow> tier_as_u8 s < tier_as_u8 t"

instance
proof
  fix s t :: Tier
  show "s \<le> t \<Longrightarrow> t \<le> s \<Longrightarrow> s = t" by (cases s; cases t) (simp_all add: less_eq_Tier_def)
qed (auto simp: less_eq_Tier_def less_Tier_def)

end

section \<open>Operations\<close>

definition spi_new :: "nat \<Rightarrow> StorePressureIndex" where
  "spi_new now = \<lparr>px_latency_us = 500, px_failure_ratio = 0, px_contention_ratio = 0, px_spi = 0,
     px_last_tick = now\<rparr>"

definition ewma :: "real \<Rightarrow> real \<Rightarrow> real" where
  "ewma x t = f64 (x + f64 (ALPHA * f64 (t - x)))"

text \<open>A latency is a duration in nanoseconds; the code takes its whole microseconds.\<close>

definition observe :: "duration \<Rightarrow> bool \<Rightarrow> bool \<Rightarrow> StorePressureIndex \<Rightarrow> StorePressureIndex" where
  "observe latency ok denied p =
     p\<lparr>px_latency_us := ewma (px_latency_us p) (f64 (of_nat (latency div 1000))),
       px_failure_ratio := ewma (px_failure_ratio p) (if ok then 0 else 1),
       px_contention_ratio := ewma (px_contention_ratio p) (if denied then 1 else 0)\<rparr>"

text \<open>The logarithm of a zero quotient is minus infinity, which the following maximum turns into zero.\<close>

definition lat_norm :: "(real \<Rightarrow> real) \<Rightarrow> StorePressureIndex \<Rightarrow> real" where
  "lat_norm ln64 p = (let q = f64 (px_latency_us p / 10000) in
     min (f64 ((if q = 0 then 0 else max (ln64 q) 0) / 5)) 1)"

definition raw_score :: "(real \<Rightarrow> real) \<Rightarrow> StorePressureIndex \<Rightarrow> real" where
  "raw_score ln64 p =
     f64 (f64 (f64 (lat_norm ln64 p * 35) + f64 (px_failure_ratio p * 55)) + f64 (px_contention_ratio p * 10))"

definition tick :: "(real \<Rightarrow> real) \<Rightarrow> nat \<Rightarrow> StorePressureIndex \<Rightarrow> real \<times> StorePressureIndex" where
  "tick ln64 now p = (
     let score = raw_score ln64 p;
         score = (if f64 (8 / 10) < px_failure_ratio p then max score 95 else score);
         spi = min (max score 0) 100
     in (spi, p\<lparr>px_spi := spi, px_last_tick := now\<rparr>))"

definition tier :: "StorePressureIndex \<Rightarrow> Tier" where
  "tier p = (if 90 \<le> px_spi p then Siege else if 70 \<le> px_spi p then Critical
     else if 40 \<le> px_spi p then Elevated else Normal)"

definition recommended_cadence_multiplier :: "StorePressureIndex \<Rightarrow> real" where
  "recommended_cadence_multiplier p =
     (case tier p of Normal \<Rightarrow> 1 | Elevated \<Rightarrow> 3 / 2 | Critical \<Rightarrow> 2 | Siege \<Rightarrow> 3)"

text \<open>A run of the index: the calls the gateway makes, in order.\<close>

datatype PressureCall = Observe duration bool bool | Tick nat

fun pressure_call :: "(real \<Rightarrow> real) \<Rightarrow> PressureCall \<Rightarrow> StorePressureIndex \<Rightarrow> StorePressureIndex" where
  "pressure_call ln64 (Observe latency ok denied) p = observe latency ok denied p"
| "pressure_call ln64 (Tick now) p = snd (tick ln64 now p)"

section \<open>The moving average\<close>

text \<open>
  The averages are bounded for every rounding with the laws of the locale, whatever the smoothing
  factor's last digits.
\<close>

locale smoothing = averaging +
  assumes alpha_lo: "3 / 10 - (1 / 2) ^ 53 \<le> alpha"
    and alpha_hi: "alpha \<le> 3 / 10 + (1 / 2) ^ 53"
begin

lemma alpha_lt: "alpha \<le> 31 / 100"
  using alpha_hi eps_small by linarith

lemma step_le:
  assumes "fl x = x" "0 \<le> x" "x \<le> 1"
  shows "x + fl (alpha * fl (1 - x)) \<le> 1"
proof (cases "x = 1")
  case True
  then show ?thesis by (simp add: fl_0)
next
  case False
  then have gap: "(1 / 2) ^ 53 \<le> 1 - x" using fl_gap [of x] assms by simp
  have half: "(1 / 2 :: real) ^ 54 = (1 / 2) ^ 53 / 2" by (simp add: power_one_over)
  have "fl (1 - x) \<le> (1 - x) * (1000001 / 1000000)" using gap half zero_le_power [of "1 / 2 :: real" 53] by (intro fl_above) linarith
  then have "alpha * fl (1 - x) \<le> 31 / 100 * ((1 - x) * (1000001 / 1000000))"
    using alpha_lt alpha_pos assms by (intro mult_mono) (auto intro: fl_nonneg)
  then have "alpha * fl (1 - x) \<le> (1 - x) / 2" using assms by simp
  then have "fl (alpha * fl (1 - x)) \<le> fl ((1 - x) / 2)" by (rule fl_mono)
  also have "\<dots> \<le> (1 - x) / 2 * (1000001 / 1000000)" by (intro fl_above) (unfold half, use gap in \<open>simp add: divide_right_mono\<close>)
  finally show ?thesis using assms by simp
qed

lemma avg_le_one:
  assumes "fl x = x" "0 \<le> x" "x \<le> 1" "t \<le> 1"
  shows "avg x t \<le> 1"
proof -
  have "x + fl (alpha * fl (1 - x)) \<le> 1" using step_le [OF assms(1-3)] .
  then have "avg x 1 \<le> 1" using fl_mono fl_1 unfolding avg_def by metis
  then show ?thesis using avg_mono [OF assms(4), of x] by linarith
qed

text \<open>One step moves the average three tenths of the way, up to a few units in the last place.\<close>

lemma alpha_near:
  assumes "0 \<le> u" "u \<le> 1"
  shows "\<bar>alpha * u - 3 / 10 * u\<bar> \<le> 1 / 1000000"
proof -
  have "\<bar>alpha * u - 3 / 10 * u\<bar> = \<bar>alpha - 3 / 10\<bar> * u" using assms(1) by (simp only: abs_mult abs_of_nonneg flip: left_diff_distrib)
  also have "\<dots> \<le> (1 / 2) ^ 53 * 1" using alpha_lo alpha_hi assms by (intro mult_mono) (auto simp: abs_le_iff)
  finally show ?thesis using eps_small by linarith
qed

lemma thirds:
  fixes v x h a g :: real
  assumes "x + h - 2 / 1000000 \<le> v" "a - 1 / 1000000 \<le> h" "3 / 10 * g - 1 / 1000000 \<le> a" "1 - x - 1 / 1000000 \<le> g"
  shows "1 - v \<le> 7 / 10 * (1 - x) + 1 / 100000"
  using assms by argo

lemma avg_up:
  assumes "fl x = x" "0 \<le> x" "x \<le> 1"
  shows "1 - avg x 1 \<le> 7 / 10 * (1 - x) + 1 / 100000"
proof -
  let ?g = "fl (1 - x)"
  have g: "0 \<le> ?g" "?g \<le> 1" using assms fl_nonneg fl_le_int [of "1 - x" 1] by auto
  have a: "0 \<le> alpha * ?g" "alpha * ?g \<le> 1"
    using g alpha_pos alpha_lt mult_mono [of alpha 1 ?g 1] by auto
  have h: "0 \<le> fl (alpha * ?g)" "fl (alpha * ?g) \<le> 1" using a fl_nonneg fl_le_int [of "alpha * ?g" 1] by auto
  have "x + fl (alpha * ?g) - 2 / 1000000 \<le> avg x 1"
    using fl_near [of "x + fl (alpha * ?g)"] step_le [OF assms] assms h unfolding avg_def by linarith
  moreover have "alpha * ?g - 1 / 1000000 \<le> fl (alpha * ?g)" using fl_near [of "alpha * ?g"] a by linarith
  moreover have "3 / 10 * ?g - 1 / 1000000 \<le> alpha * ?g" using alpha_near [OF g] by linarith
  moreover have "1 - x - 1 / 1000000 \<le> ?g" using fl_near [of "1 - x"] assms by linarith
  ultimately show ?thesis by (rule thirds)
qed

lemma avg_down:
  assumes "fl x = x" "0 \<le> x" "x \<le> 1"
  shows "avg x 0 \<le> 7 / 10 * x + 1 / 100000"
proof -
  have a: "0 \<le> alpha * x" "alpha * x \<le> x" using assms alpha_pos alpha_lt mult_left_le_one_le [of x alpha] by auto
  have h: "0 \<le> fl (alpha * x)" "fl (alpha * x) \<le> x" using a fl_nonneg fl_mono [OF a(2)] assms(1) by auto
  have "\<bar>avg x 0 - (x - fl (alpha * x))\<bar> \<le> 1 / 1000000"
    using fl_near [of "x - fl (alpha * x)"] assms h by (simp add: avg_zero)
  moreover have "\<bar>fl (alpha * x) - alpha * x\<bar> \<le> 1 / 1000000" using a assms by (intro fl_near) simp
  ultimately show ?thesis using alpha_near [OF assms(2,3)] by (simp only: abs_le_iff) linarith
qed

end

interpretation px: smoothing f64 ALPHA
  rewrites "averaging.avg f64 ALPHA = ewma"
proof -
  have near: "\<bar>ALPHA - 3 / 10\<bar> \<le> (1 / 2) ^ 53" using f64_half [of "3 / 10"] by (simp add: ALPHA_def)
  moreover have "(1 / 2 :: real) ^ 53 \<le> 1 / 10" by (simp add: power_one_over)
  ultimately show s: "smoothing f64 ALPHA" by unfold_locales linarith+
  show "averaging.avg f64 ALPHA = ewma"
    by (rule ext)+ (simp add: averaging.avg_def [OF smoothing.axioms(1) [OF s]] ewma_def)
qed

section \<open>The invariant\<close>

definition ratio_ok :: "real \<Rightarrow> bool" where
  "ratio_ok x \<longleftrightarrow> 0 \<le> x \<and> x \<le> 1 \<and> f64 x = x"

definition pressure_ok :: "StorePressureIndex \<Rightarrow> bool" where
  "pressure_ok p \<longleftrightarrow> 0 \<le> px_latency_us p \<and> f64 (px_latency_us p) = px_latency_us p
     \<and> ratio_ok (px_failure_ratio p) \<and> ratio_ok (px_contention_ratio p) \<and> 0 \<le> px_spi p \<and> px_spi p \<le> 100"

lemma ewma_ratio [simp, intro]: "ratio_ok x \<Longrightarrow> 0 \<le> t \<Longrightarrow> t \<le> 1 \<Longrightarrow> ratio_ok (ewma x t)"
  by (simp add: ratio_ok_def px.avg_nonneg px.avg_le_one px.avg_fl)

lemma spi_new_ok: "pressure_ok (spi_new now)"
  using f64_int [of 500] by (simp add: pressure_ok_def ratio_ok_def spi_new_def f64.fl_0)

lemma observe_ok: "pressure_ok p \<Longrightarrow> pressure_ok (observe l ok denied p)"
  by (simp add: pressure_ok_def observe_def px.avg_nonneg px.avg_fl f64_nonneg)

lemma tick_ok: "pressure_ok p \<Longrightarrow> pressure_ok (snd (tick ln64 now p))"
  by (simp add: pressure_ok_def tick_def Let_def)

lemma pressure_call_ok: "pressure_ok p \<Longrightarrow> pressure_ok (pressure_call ln64 c p)"
  by (cases c) (simp_all add: observe_ok tick_ok)

lemma pressure_run_ok: "pressure_ok p \<Longrightarrow> pressure_ok (fold (pressure_call ln64) cs p)"
  by (induction cs arbitrary: p) (simp_all add: pressure_call_ok)

section \<open>The score\<close>

lemma lat_norm_bounds: "0 \<le> lat_norm ln64 p" "lat_norm ln64 p \<le> 1"
  by (simp_all add: lat_norm_def Let_def f64_nonneg)

lemma f64_le_halves:
  assumes "x \<le> of_int n / 2" "\<bar>n\<bar> \<le> 2 ^ 53"
  shows "f64 x \<le> of_int n / 2"
  using f64_mono [OF assms(1)] f64_exact [OF assms(2), of "- 1"] by (simp add: powr_minus_divide)

text \<open>Bounds on the two ratios, in halves of a point, bound the score.\<close>

lemma raw_score_le:
  assumes "px_failure_ratio p * 55 \<le> of_int a / 2" "px_contention_ratio p * 10 \<le> of_int b / 2"
    and "a \<in> {0..110}" "b \<in> {0..20}"
  shows "raw_score ln64 p \<le> of_int (70 + a + b) / 2"
proof -
  let ?l = "f64 (lat_norm ln64 p * 35)" and ?f = "f64 (px_failure_ratio p * 55)" and ?c = "f64 (px_contention_ratio p * 10)"
  have "?l \<le> of_int 70 / 2" using lat_norm_bounds [of ln64 p] by (intro f64_le_halves) simp_all
  moreover have "?f \<le> of_int a / 2" using assms by (intro f64_le_halves) auto
  ultimately have "?l + ?f \<le> of_int (70 + a) / 2" by simp
  then have "f64 (?l + ?f) \<le> of_int (70 + a) / 2" by (rule f64_le_halves) (use assms in auto)
  moreover have "?c \<le> of_int b / 2" using assms by (intro f64_le_halves) auto
  ultimately have "f64 (?l + ?f) + ?c \<le> of_int (70 + a + b) / 2" by simp
  then show ?thesis unfolding raw_score_def by (rule f64_le_halves) (use assms in auto)
qed

lemma raw_score_nonneg: "pressure_ok p \<Longrightarrow> 0 \<le> raw_score ln64 p"
  using lat_norm_bounds [of ln64 p]
  by (simp add: raw_score_def pressure_ok_def ratio_ok_def f64_nonneg)

text \<open>Above four fifths of failures the index reports a siege, whatever the other signals.\<close>

lemma f64_eight_tenths: "f64 (8 / 10) \<le> 81 / 100"
  using f64.fl_near [of "8 / 10"] by (simp only: abs_le_iff) simp

lemma tick_siege: "81 / 100 < px_failure_ratio p \<Longrightarrow> tier (snd (tick ln64 now p)) = Siege"
  using f64_eight_tenths by (simp add: tick_def tier_def Let_def max_def)

lemma tick_calm:
  assumes "px_failure_ratio p * 55 \<le> of_int a / 2" "px_contention_ratio p * 10 \<le> of_int b / 2"
    and "a \<in> {0..40}" "b \<in> {0..20}"
  shows "px_spi (snd (tick ln64 now p)) \<le> of_int (70 + a + b) / 2"
proof -
  have "px_failure_ratio p \<le> 1 / 2" using assms(1,3) by simp
  moreover have "(1 / 2 :: real) \<le> f64 (8 / 10)" using f64.fl_near [of "8 / 10"] by (simp only: abs_le_iff) simp
  moreover have "raw_score ln64 p \<le> of_int (70 + a + b) / 2" using assms by (intro raw_score_le) auto
  ultimately show ?thesis using assms by (auto simp: tick_def Let_def)
qed

section \<open>Sequences of observations\<close>

text \<open>Observations with a fixed outcome, each with a latency and a contention flag of its own.\<close>

definition observe_all :: "bool \<Rightarrow> (duration \<times> bool) list \<Rightarrow> StorePressureIndex \<Rightarrow> StorePressureIndex" where
  "observe_all ok os = fold (\<lambda>(l, denied). observe l ok denied) os"

lemma observe_all_simps [simp]:
  "observe_all ok [] p = p"
  "observe_all ok ((l, d) # os) p = observe_all ok os (observe l ok d p)"
  by (simp_all add: observe_all_def)

lemma observe_all_ok: "pressure_ok p \<Longrightarrow> pressure_ok (observe_all ok os p)"
  by (induction os arbitrary: p) (auto simp: observe_ok)

lemma observe_fields [simp]:
  "px_failure_ratio (observe l ok d p) = ewma (px_failure_ratio p) (if ok then 0 else 1)"
  "px_contention_ratio (observe l ok d p) = ewma (px_contention_ratio p) (if d then 1 else 0)"
  by (simp_all add: observe_def)

text \<open>
  The distance of an average from its target after a number of steps: seven tenths per step, and the
  rounding errors together never exceed a twenty thousandth.
\<close>

lemma approach:
  fixes u v w :: real
  assumes "w \<le> 7 / 10 * v + 1 / 100000" "v \<le> (7 / 10) ^ n * u + 1 / 20000"
  shows "w \<le> (7 / 10) ^ Suc n * u + 1 / 20000"
  using assms by simp

lemma observe_all_snoc [simp]: "observe_all ok (os @ [(l, d)]) p = observe l ok d (observe_all ok os p)"
  by (simp add: observe_all_def)

lemma failures_close_in:
  "pressure_ok p \<Longrightarrow> 1 - px_failure_ratio (observe_all False os p) \<le> (7 / 10) ^ length os * (1 - px_failure_ratio p) + 1 / 20000"
proof (induction os rule: rev_induct)
  case (snoc ld os)
  let ?q = "observe_all False os p"
  have "1 - ewma (px_failure_ratio ?q) 1 \<le> 7 / 10 * (1 - px_failure_ratio ?q) + 1 / 100000"
    using observe_all_ok [OF snoc.prems] by (intro px.avg_up) (auto simp: pressure_ok_def ratio_ok_def)
  from approach [OF this snoc.IH [OF snoc.prems]] show ?case by (cases ld) simp
qed simp

lemma successes_fade:
  "pressure_ok p \<Longrightarrow> px_failure_ratio (observe_all True os p) \<le> (7 / 10) ^ length os * px_failure_ratio p + 1 / 20000"
proof (induction os rule: rev_induct)
  case (snoc ld os)
  let ?q = "observe_all True os p"
  have "ewma (px_failure_ratio ?q) 0 \<le> 7 / 10 * px_failure_ratio ?q + 1 / 100000"
    using observe_all_ok [OF snoc.prems] by (intro px.avg_down) (auto simp: pressure_ok_def ratio_ok_def)
  from approach [OF this snoc.IH [OF snoc.prems]] show ?case by (cases ld) simp
qed simp

lemma contention_fades:
  "pressure_ok p \<Longrightarrow> px_contention_ratio (observe_all ok (map (\<lambda>l. (l, False)) ls) p)
     \<le> (7 / 10) ^ length ls * px_contention_ratio p + 1 / 20000"
proof (induction ls rule: rev_induct)
  case (snoc l ls)
  let ?q = "observe_all ok (map (\<lambda>l. (l, False)) ls) p"
  have "ewma (px_contention_ratio ?q) 0 \<le> 7 / 10 * px_contention_ratio ?q + 1 / 100000"
    using observe_all_ok [OF snoc.prems] by (intro px.avg_down) (auto simp: pressure_ok_def ratio_ok_def)
  from approach [OF this snoc.IH [OF snoc.prems]] show ?case by simp
qed simp

lemma no_failures_zero: "px_failure_ratio p = 0 \<Longrightarrow> px_failure_ratio (observe_all True os p) = 0"
  by (induction os arbitrary: p) (auto simp: ewma_def f64.fl_0)

lemma outage_is_siege:
  assumes "pressure_ok p" "5 \<le> length os"
  shows "tier (snd (tick ln64 now (observe_all False os p))) = Siege"
proof (rule tick_siege)
  let ?f = "px_failure_ratio p"
  have f: "0 \<le> ?f" "?f \<le> 1" using assms(1) by (auto simp: pressure_ok_def ratio_ok_def)
  have "(7 / 10 :: real) ^ length os \<le> (7 / 10) ^ 5" using assms(2) by (intro power_decreasing) auto
  then have "(7 / 10) ^ length os * (1 - ?f) \<le> (7 / 10) ^ 5 * 1" using f by (intro mult_mono) auto
  moreover have "(7 / 10 :: real) ^ 5 * 1 \<le> 17 / 100" by (simp add: power_divide)
  ultimately show "81 / 100 < px_failure_ratio (observe_all False os p)"
    using failures_close_in [OF assms(1), of os] by linarith
qed

lemma recovery_is_normal:
  assumes "pressure_ok p" "8 \<le> length ls"
  shows "tier (snd (tick ln64 now (observe_all True (map (\<lambda>l. (l, False)) ls) p))) = Normal"
proof -
  let ?q = "observe_all True (map (\<lambda>l. (l, False)) ls) p"
  have fade: "(7 / 10) ^ length ls * u \<le> 58 / 1000" if "0 \<le> u" "u \<le> 1" for u :: real
  proof -
    have "(7 / 10 :: real) ^ length ls \<le> (7 / 10) ^ 8" using assms(2) by (intro power_decreasing) auto
    then have "(7 / 10) ^ length ls * u \<le> (7 / 10) ^ 8 * 1" using that by (intro mult_mono) auto
    also have "\<dots> \<le> 58 / 1000" by (simp add: power_divide)
    finally show ?thesis .
  qed
  have "px_failure_ratio ?q \<le> 581 / 10000" "px_contention_ratio ?q \<le> 581 / 10000"
    using assms(1) successes_fade [OF assms(1), of "map (\<lambda>l. (l, False)) ls"] contention_fades [OF assms(1), of True ls]
      fade [of "px_failure_ratio p"] fade [of "px_contention_ratio p"]
    by (auto simp: pressure_ok_def ratio_ok_def)
  then have "px_spi (snd (tick ln64 now ?q)) \<le> of_int (70 + 7 + 2) / 2" by (intro tick_calm) simp_all
  then show ?thesis by (simp add: tier_def)
qed

lemma cadence_mono: "tier p \<le> tier q \<Longrightarrow> recommended_cadence_multiplier p \<le> recommended_cadence_multiplier q"
  by (cases "tier p"; cases "tier q") (simp_all add: recommended_cadence_multiplier_def less_eq_Tier_def)

text \<open>Property C30. Whatever calls the gateway makes and whatever the platform's logarithm returns, every average
  stays in its range (the two ratios in [0, 1], the latency non-negative) and the index in [0, 100], rounding
  included; from every state so reached five or more failed operations in a row, of any latency, make the next
  tick report a siege, and eight or more uncontended successes in a row bring it back to normal, whatever the
  latency; and without a single failure contention and latency never raise the tier above elevated.\<close>

theorem pressure_levels:
  fixes now :: nat
  defines "run \<equiv> \<lambda>ln64 cs. fold (pressure_call ln64) cs (spi_new now)"
  shows "pressure_ok (run ln64 cs)
    \<and> tier (snd (tick ln64 t (observe_all False (o1 # o2 # o3 # o4 # o5 # os) (run ln64 cs)))) = Siege
    \<and> tier (snd (tick ln64 t (observe_all True (map (\<lambda>l. (l, False)) (l1 # l2 # l3 # l4 # l5 # l6 # l7 # l8 # ls)) (run ln64 cs)))) = Normal
    \<and> tier (snd (tick ln64 t (observe_all True os (spi_new now)))) \<le> Elevated"
proof -
  have ok: "pressure_ok (run ln64 cs)" unfolding run_def by (intro pressure_run_ok spi_new_ok)
  let ?q = "observe_all True os (spi_new now)"
  have "px_failure_ratio ?q = 0" by (intro no_failures_zero) (simp add: spi_new_def)
  moreover have "px_contention_ratio ?q \<le> 1"
    using observe_all_ok [OF spi_new_ok, of True os now] by (simp add: pressure_ok_def ratio_ok_def)
  ultimately have "px_spi (snd (tick ln64 t ?q)) \<le> of_int (70 + 0 + 20) / 2" by (intro tick_calm) auto
  then have "tier (snd (tick ln64 t ?q)) \<le> Elevated" by (simp add: tier_def less_eq_Tier_def)
  then show ?thesis by (intro conjI ok outage_is_siege [OF ok] recovery_is_normal [OF ok]) simp_all
qed

end
