(* ===== verification/Console.thy ===== *)
theory Console
  imports Service Pressure Reentrant RwLock Semaphore Fair Multi Latch Semantic Testament
begin

text \<open>
  The demonstration console (\<^verbatim>\<open>crates/server/src/demo.rs\<close>): HTTP handlers over every lock primitive.
  For the primitives whose release needs a handle the console keeps the handles itself, under names
  made of the key and the owner or the fence; replacing a stored handle drops the old one, and dropping
  a handle releases it in the background.

  What the store goes through before such a background release is an argument (\<open>mid\<close>). Every
  operation on the mutex and the semantic lock feeds one observation to the pressure index. Parsing of
  UUIDs, of floating-point numbers and of UTF-8 is library code and a parameter. The console's
  protected data lives on a connection of its own, to the same server or another.
\<close>

section \<open>State\<close>

definition DEMO_MAX_TTL :: duration where
  "DEMO_MAX_TTL = from_secs 60"

record LiveHandles =
  lv_reentrant :: "string \<Rightarrow> ReentrantShared option"
  lv_read :: "string \<Rightarrow> RwShared option"
  lv_write :: "string \<Rightarrow> RwShared option"
  lv_permits :: "string \<Rightarrow> PermitShared option"
  lv_fair :: "string \<Rightarrow> FairShared option"
  lv_multi :: "string \<Rightarrow> HandleShared list option"

record 's DemoState =
  ds_manager :: RedisLockManager
  ds_hub :: hub
  ds_pressure :: StorePressureIndex
  ds_sessions :: SessionBook
  ds_live :: LiveHandles
  ds_store :: 's
  ds_data :: "'s option"

definition no_handles :: LiveHandles where
  "no_handles = \<lparr>lv_reentrant = Map.empty, lv_read = Map.empty, lv_write = Map.empty, lv_permits = Map.empty,
     lv_fair = Map.empty, lv_multi = Map.empty\<rparr>"

text \<open>The protected data's server is \<open>None\<close> when its address is that of the lock server.\<close>

definition demo_new :: "RedisLockManager \<Rightarrow> nat \<Rightarrow> 's \<Rightarrow> 's option \<Rightarrow> 's DemoState" where
  "demo_new mgr now s data = \<lparr>ds_manager = mgr, ds_hub = hub_new, ds_pressure = spi_new now, ds_sessions = [], ds_live = no_handles, ds_store = s,
     ds_data = data\<rparr>"

definition demo_observe :: "duration \<Rightarrow> bool \<Rightarrow> bool \<Rightarrow> 's DemoState \<Rightarrow> 's DemoState" where
  "demo_observe elapsed ok denied ds = ds\<lparr>ds_pressure := observe elapsed ok denied (ds_pressure ds)\<rparr>"

section \<open>Errors and options\<close>

datatype ApiError = ApiError nat string

type_synonym 'a api = "ApiError + 'a"

definition api_error :: "error \<Rightarrow> ApiError" where
  "api_error e = ApiError (case e of InvalidConfig _ \<Rightarrow> 400 | Backend _ \<Rightarrow> 502 | _ \<Rightarrow> 500) (error_display e)"

definition ascii_lower :: "string \<Rightarrow> string" where
  "ascii_lower s = map (\<lambda>c. let n = of_char c :: nat in if 65 \<le> n \<and> n \<le> 90 then char_of (n + 32) else c) s"

definition parse_safety_policy :: "string \<Rightarrow> SafetyPolicy api" where
  "parse_safety_policy s =
     (let l = ascii_lower s in
      if l = ''cowardly'' then Inr Cowardly
      else if l = ''balanced'' then Inr Balanced
      else if l = ''aggressive'' then Inr Aggressive
      else Inl (ApiError 400 (''unknown safety policy `'' @ l @ ''` (cowardly|balanced|aggressive)'')))"

definition clamp_ttl :: "u64 option \<Rightarrow> duration" where
  "clamp_ttl ttl_ms =
     (let floor_ms = as_millis_u64 MIN_TTL;
          requested = min (case ttl_ms of None \<Rightarrow> 4000 | Some t \<Rightarrow> t) (as_millis_u64 DEMO_MAX_TTL) in
      from_millis (unat (max requested floor_ms)))"

definition demo_options :: "u64 option \<Rightarrow> LockOptions" where
  "demo_options ttl_ms = with_ttl_opt (clamp_ttl ttl_ms) default_options"

definition rw_map_key :: "string \<Rightarrow> u64 \<Rightarrow> string" where
  "rw_map_key key f = key @ ''|'' @ show_nat (unat f)"

definition owner_map_key :: "string \<Rightarrow> string \<Rightarrow> string" where
  "owner_map_key key owner = key @ ''|'' @ owner"

section \<open>The mutex\<close>

record AcquireRequest =
  aq_key :: string
  aq_ttl_ms :: "u64 option"
  aq_watchdog :: "bool option"
  aq_policy :: "string option"
  aq_session :: "string option"

datatype DemoOutcome = DemoGranted string string u64 u64 | DemoHeld string

definition demo_acquire ::
  "'s server \<Rightarrow> delivery \<Rightarrow> delivery \<Rightarrow> ('s \<Rightarrow> 's) \<Rightarrow> nat \<Rightarrow> duration \<Rightarrow> string \<Rightarrow> AcquireRequest \<Rightarrow> 's DemoState \<Rightarrow>
   DemoOutcome api \<times> 's DemoState" where
  "demo_acquire exec d d' mid now elapsed token req ds =
     (if aq_key req = [] then (Inl (ApiError 400 ''key must not be empty''), ds)
      else case (case aq_policy req of None \<Rightarrow> Inr Balanced | Some p \<Rightarrow> parse_safety_policy p) of
          Inl e \<Rightarrow> (Inl e, ds)
        | Inr policy \<Rightarrow>
            let opts = with_safety_policy policy (with_watchdog (case aq_watchdog req of None \<Rightarrow> False | Some b \<Rightarrow> b)
                  (demo_options (aq_ttl_ms req))) in
            (case try_lock_with exec d (ds_manager ds) token (aq_key req) opts (ds_store ds) of
               (Inr h, s) \<Rightarrow>
                 let ds1 = ds\<lparr>ds_store := s\<rparr>;
                     (bound, book) = (case aq_session req of None \<Rightarrow> (True, ds_sessions ds1)
                       | Some sess \<Rightarrow> session_bind sess (aq_key req) (hs_token h) now (ds_sessions ds1)) in
                 if \<not> bound then
                   (Inl (ApiError 404 ''unknown or expired session''),
                    ds1\<lparr>ds_sessions := book, ds_store := snd (snd (handle_release exec d' h (mid (ds_store ds1))))\<rparr>)
                 else
                   let h' = disarm h in
                   (Inr (DemoGranted (aq_key req) (hs_token h') (fence_value (hs_fence h')) (as_millis_u64 (lo_ttl opts))),
                    demo_observe elapsed True False (ds1\<lparr>ds_sessions := book\<rparr>))
             | (Inl (Held _), s) \<Rightarrow> (Inr (DemoHeld (aq_key req)), demo_observe elapsed True True (ds\<lparr>ds_store := s\<rparr>))
             | (Inl e, s) \<Rightarrow> (Inl (api_error e), demo_observe elapsed False False (ds\<lparr>ds_store := s\<rparr>))))"

datatype UnlockOutcome = DemoReleased | DemoLost

definition demo_release ::
  "'s server \<Rightarrow> delivery \<Rightarrow> duration \<Rightarrow> string \<Rightarrow> string \<Rightarrow> 's DemoState \<Rightarrow> UnlockOutcome api \<times> 's DemoState" where
  "demo_release exec d elapsed key token ds =
     (case unlock_with_token exec d key token (ds_store ds) of
        (Inl e, s) \<Rightarrow> (Inl (api_error e), ds\<lparr>ds_store := s\<rparr>)
      | (Inr released, s) \<Rightarrow> (Inr (if released then DemoReleased else DemoLost), demo_observe elapsed True False (ds\<lparr>ds_store := s\<rparr>)))"

definition demo_describe ::
  "'s server \<Rightarrow> delivery \<Rightarrow> ('s \<Rightarrow> 's) \<Rightarrow> ('s \<Rightarrow> 's) \<Rightarrow> string \<Rightarrow> 's DemoState \<Rightarrow> (bool \<times> u64 \<times> u64) api \<times> 's DemoState" where
  "demo_describe exec d mid mid' key ds =
     (case describe_key exec d mid mid' key (ds_store ds) of (r, s) \<Rightarrow> (map_sum api_error id r, ds\<lparr>ds_store := s\<rparr>))"

definition demo_list_locks ::
  "'s server \<Rightarrow> (string \<Rightarrow> delivery) \<Rightarrow> scan_answer list \<Rightarrow> string option \<Rightarrow> 's DemoState \<Rightarrow>
   ((string \<times> (string \<times> u64) list) api \<times> 's DemoState) option" where
  "demo_list_locks exec d as pre ds =
     map_option (\<lambda>(r, s). (map_sum api_error (Pair (case pre of None \<Rightarrow> [] | Some p \<Rightarrow> p)) r, ds\<lparr>ds_store := s\<rparr>))
       (scan_held exec d as [] (ds_store ds))"

definition tier_name :: "Tier \<Rightarrow> string" where
  "tier_name t = (case t of Normal \<Rightarrow> ''NORMAL'' | Elevated \<Rightarrow> ''ELEVATED'' | Critical \<Rightarrow> ''CRITICAL'' | Siege \<Rightarrow> ''SIEGE'')"

definition demo_pressure :: "(real \<Rightarrow> real) \<Rightarrow> nat \<Rightarrow> 's DemoState \<Rightarrow> (real \<times> string) \<times> 's DemoState" where
  "demo_pressure ln64 now ds =
     (case tick ln64 now (ds_pressure ds) of (spi, p) \<Rightarrow> ((spi, tier_name (tier p)), ds\<lparr>ds_pressure := p\<rparr>))"

datatype ExtendOutcome = DemoExtended | DemoExtendLost

definition demo_extend ::
  "'s server \<Rightarrow> delivery \<Rightarrow> string \<Rightarrow> string \<Rightarrow> u64 \<Rightarrow> 's DemoState \<Rightarrow> ExtendOutcome api \<times> 's DemoState" where
  "demo_extend exec d key token ttl_ms ds =
     (case extend_with_token exec d key token (clamp_ttl (Some ttl_ms)) (ds_store ds) of
        (r, s) \<Rightarrow> (map_sum api_error (\<lambda>ok. if ok then DemoExtended else DemoExtendLost) r, ds\<lparr>ds_store := s\<rparr>))"

definition demo_force_unlock :: "'s server \<Rightarrow> delivery \<Rightarrow> string \<Rightarrow> 's DemoState \<Rightarrow> bool api \<times> 's DemoState" where
  "demo_force_unlock exec d key ds =
     (case force_unlock exec d key (ds_store ds) of (r, s) \<Rightarrow> (map_sum api_error id r, ds\<lparr>ds_store := s\<rparr>))"

section \<open>Locks with stored handles\<close>

definition reentrant_acquire ::
  "(string \<Rightarrow> string option) \<Rightarrow> 's server \<Rightarrow> delivery \<Rightarrow> delivery \<Rightarrow> ('s \<Rightarrow> 's) \<Rightarrow> string \<Rightarrow> string \<Rightarrow> u64 option \<Rightarrow> string option \<Rightarrow> 's DemoState \<Rightarrow>
   (string \<times> u64) api \<times> 's DemoState" where
  "reentrant_acquire parse_uuid exec d d' mid fresh key ttl_ms owner_id ds =
     (case (case owner_id of
          Some i \<Rightarrow> (case parse_uuid i of None \<Rightarrow> Inl (ApiError 400 (''owner_id `'' @ i @ ''` is not a valid uuid'')) | Some u \<Rightarrow> Inr u)
        | None \<Rightarrow> Inr fresh) of
        Inl e \<Rightarrow> (Inl e, ds)
      | Inr owner \<Rightarrow>
          (case try_lock_reentrant exec d key owner (demo_options ttl_ms) (ds_store ds) of
             (Inl e, s) \<Rightarrow> (Inl (api_error e), ds\<lparr>ds_store := s\<rparr>)
           | (Inr h, s) \<Rightarrow>
               let name = owner_map_key key (re_token h); live = ds_live ds;
                   ds1 = ds\<lparr>ds_store := s, ds_live := live\<lparr>lv_reentrant := (lv_reentrant live)(name \<mapsto> h)\<rparr>\<rparr> in
               (Inr (re_token h, fence_value (re_fence h)),
                case lv_reentrant live name of
                  None \<Rightarrow> ds1
                | Some old \<Rightarrow> ds1\<lparr>ds_store := re_drop exec d' True old (mid (ds_store ds1))\<rparr>)))"

definition reentrant_release ::
  "'s server \<Rightarrow> delivery \<Rightarrow> string \<Rightarrow> string \<Rightarrow> bool option \<Rightarrow> 's DemoState \<Rightarrow> bool api \<times> 's DemoState" where
  "reentrant_release exec d key owner_id all ds =
     (let live = ds_live ds; name = owner_map_key key owner_id in
      case lv_reentrant live name of
        None \<Rightarrow> (Inr False, ds)
      | Some h \<Rightarrow>
          (case (if all = Some True then Reentrant.release_all exec d h (ds_store ds) else release_one exec d h (ds_store ds)) of
             (r, _, s) \<Rightarrow>
               (map_sum api_error (\<lambda>_. True) r,
                ds\<lparr>ds_store := s, ds_live := live\<lparr>lv_reentrant := (lv_reentrant live)(name := None)\<rparr>\<rparr>)))"

text \<open>The two sides of the read-write lock differ in the map they keep their handles in.\<close>

datatype RwOutcome = RwAcquired u64 | RwHeld

definition rw_read ::
  "'s server \<Rightarrow> delivery \<Rightarrow> delivery \<Rightarrow> ('s \<Rightarrow> 's) \<Rightarrow> string \<Rightarrow> string \<Rightarrow> u64 option \<Rightarrow> 's DemoState \<Rightarrow> RwOutcome api \<times> 's DemoState" where
  "rw_read exec d d' mid token key ttl_ms ds =
     (case try_read exec d token key (demo_options ttl_ms) (ds_store ds) of
        (Inr h, s) \<Rightarrow>
          let f = fence_value (rw_fence h); name = rw_map_key key f; live = ds_live ds;
              ds1 = ds\<lparr>ds_store := s, ds_live := live\<lparr>lv_read := (lv_read live)(name \<mapsto> h)\<rparr>\<rparr> in
          (Inr (RwAcquired f), case lv_read live name of None \<Rightarrow> ds1
             | Some old \<Rightarrow> ds1\<lparr>ds_store := rw_drop exec d' True old (mid (ds_store ds1))\<rparr>)
      | (Inl (Held _), s) \<Rightarrow> (Inr RwHeld, ds\<lparr>ds_store := s\<rparr>)
      | (Inl e, s) \<Rightarrow> (Inl (api_error e), ds\<lparr>ds_store := s\<rparr>))"

definition rw_write ::
  "'s server \<Rightarrow> delivery \<Rightarrow> delivery \<Rightarrow> ('s \<Rightarrow> 's) \<Rightarrow> string \<Rightarrow> string \<Rightarrow> u64 option \<Rightarrow> 's DemoState \<Rightarrow> RwOutcome api \<times> 's DemoState" where
  "rw_write exec d d' mid token key ttl_ms ds =
     (case try_write exec d token key (demo_options ttl_ms) (ds_store ds) of
        (Inr h, s) \<Rightarrow>
          let f = fence_value (rw_fence h); name = rw_map_key key f; live = ds_live ds;
              ds1 = ds\<lparr>ds_store := s, ds_live := live\<lparr>lv_write := (lv_write live)(name \<mapsto> h)\<rparr>\<rparr> in
          (Inr (RwAcquired f), case lv_write live name of None \<Rightarrow> ds1
             | Some old \<Rightarrow> ds1\<lparr>ds_store := rw_drop exec d' True old (mid (ds_store ds1))\<rparr>)
      | (Inl (Held _), s) \<Rightarrow> (Inr RwHeld, ds\<lparr>ds_store := s\<rparr>)
      | (Inl e, s) \<Rightarrow> (Inl (api_error e), ds\<lparr>ds_store := s\<rparr>))"

definition rw_release ::
  "'s server \<Rightarrow> delivery \<Rightarrow> string \<Rightarrow> u64 \<Rightarrow> string \<Rightarrow> 's DemoState \<Rightarrow> bool api \<times> 's DemoState" where
  "rw_release exec d key f mode ds =
     (let name = rw_map_key key f; live = ds_live ds in
      if mode = ''read'' then
        (case lv_read live name of
           None \<Rightarrow> (Inr False, ds)
         | Some h \<Rightarrow> (case rw_read_release exec d h (ds_store ds) of (r, _, s) \<Rightarrow>
             (map_sum api_error (\<lambda>_. True) r, ds\<lparr>ds_store := s, ds_live := live\<lparr>lv_read := (lv_read live)(name := None)\<rparr>\<rparr>)))
      else if mode = ''write'' then
        (case lv_write live name of
           None \<Rightarrow> (Inr False, ds)
         | Some h \<Rightarrow> (case rw_write_release exec d h (ds_store ds) of (r, _, s) \<Rightarrow>
             (map_sum api_error (\<lambda>_. True) r, ds\<lparr>ds_store := s, ds_live := live\<lparr>lv_write := (lv_write live)(name := None)\<rparr>\<rparr>)))
      else (Inl (ApiError 400 (''mode must be `read` or `write`, got `'' @ mode @ ''`'')), ds))"

datatype SemaphoreOutcome = SemAcquired u64 | SemFull

definition semaphore_acquire ::
  "'s server \<Rightarrow> delivery \<Rightarrow> delivery \<Rightarrow> ('s \<Rightarrow> 's) \<Rightarrow> string \<Rightarrow> string \<Rightarrow> u32 \<Rightarrow> u64 option \<Rightarrow> 's DemoState \<Rightarrow> SemaphoreOutcome api \<times> 's DemoState" where
  "semaphore_acquire exec d d' mid token key n ttl_ms ds =
     (case semaphore key n of
        Inl e \<Rightarrow> (Inl (api_error e), ds)
      | Inr sem \<Rightarrow>
          (case try_acquire exec d sem token (demo_options ttl_ms) (ds_store ds) of
             (Inr p, s) \<Rightarrow>
               let f = fence_value (pm_fence p); name = rw_map_key key f; live = ds_live ds;
                   ds1 = ds\<lparr>ds_store := s, ds_live := live\<lparr>lv_permits := (lv_permits live)(name \<mapsto> p)\<rparr>\<rparr> in
               (Inr (SemAcquired f), case lv_permits live name of None \<Rightarrow> ds1
                  | Some old \<Rightarrow> ds1\<lparr>ds_store := permit_drop exec d' True old (mid (ds_store ds1))\<rparr>)
           | (Inl (Held _), s) \<Rightarrow> (Inr SemFull, ds\<lparr>ds_store := s\<rparr>)
           | (Inl e, s) \<Rightarrow> (Inl (api_error e), ds\<lparr>ds_store := s\<rparr>)))"

definition semaphore_release ::
  "'s server \<Rightarrow> delivery \<Rightarrow> string \<Rightarrow> u64 \<Rightarrow> 's DemoState \<Rightarrow> bool api \<times> 's DemoState" where
  "semaphore_release exec d key f ds =
     (let name = rw_map_key key f; live = ds_live ds in
      case lv_permits live name of
        None \<Rightarrow> (Inr False, ds)
      | Some p \<Rightarrow> (case permit_release exec d p (ds_store ds) of (r, _, s) \<Rightarrow>
          (map_sum api_error (\<lambda>_. True) r, ds\<lparr>ds_store := s, ds_live := live\<lparr>lv_permits := (lv_permits live)(name := None)\<rparr>\<rparr>)))"

definition demo_fair_lock ::
  "nat \<Rightarrow> 's server \<Rightarrow> delivery \<Rightarrow> delivery \<Rightarrow> ('s \<Rightarrow> 's) \<Rightarrow> string \<Rightarrow> string \<Rightarrow> u64 option \<Rightarrow> 's DemoState \<Rightarrow> (string \<times> u64) api \<times> 's DemoState" where
  "demo_fair_lock fuel exec d d' mid fresh key ttl_ms ds =
     (case try_lock_fair fuel exec d key fresh (demo_options ttl_ms) (ds_store ds) of
        (Inl e, s) \<Rightarrow> (Inl (api_error e), ds\<lparr>ds_store := s\<rparr>)
      | (Inr h, s) \<Rightarrow>
          let f = fence_value (fa_fence h); name = rw_map_key key f; live = ds_live ds;
              ds1 = ds\<lparr>ds_store := s, ds_live := live\<lparr>lv_fair := (lv_fair live)(name \<mapsto> h)\<rparr>\<rparr> in
          (Inr (fa_token h, f), case lv_fair live name of None \<Rightarrow> ds1
             | Some old \<Rightarrow> ds1\<lparr>ds_store := fair_drop exec d' True old (mid (ds_store ds1))\<rparr>))"

definition demo_fair_release ::
  "'s server \<Rightarrow> delivery \<Rightarrow> string \<Rightarrow> u64 \<Rightarrow> 's DemoState \<Rightarrow> bool api \<times> 's DemoState" where
  "demo_fair_release exec d key f ds =
     (let name = rw_map_key key f; live = ds_live ds in
      case lv_fair live name of
        None \<Rightarrow> (Inr False, ds)
      | Some h \<Rightarrow> (case fair_release exec d h (ds_store ds) of (r, _, s) \<Rightarrow>
          (map_sum api_error (\<lambda>_. True) r, ds\<lparr>ds_store := s, ds_live := live\<lparr>lv_fair := (lv_fair live)(name := None)\<rparr>\<rparr>)))"

datatype MultiOutcome = MultiAcquired string "(string \<times> u64) list" | MultiTimeout

definition multi_lock ::
  "'s server \<Rightarrow> nat \<Rightarrow> 's mround list \<Rightarrow> 's mround \<Rightarrow> string \<Rightarrow> string list \<Rightarrow> u64 option \<Rightarrow> u64 option \<Rightarrow> 's DemoState \<Rightarrow>
   panic + (MultiOutcome api \<times> 's DemoState) option" where
  "multi_lock exec now rs r' multi_id keys ttl_ms wait_ms ds =
     (if keys = [] then Inr (Some (Inl (ApiError 400 ''keys must not be empty''), ds))
      else let wait = from_millis (unat (min (case wait_ms of None \<Rightarrow> 2000 | Some w \<Rightarrow> w) 30000)) in
        (case try_lock_all exec (ds_manager ds) now keys (demo_options ttl_ms) wait rs (ds_store ds) of
           Inl p \<Rightarrow> Inl p
         | Inr None \<Rightarrow> Inr None
         | Inr (Some (Inr hs, s)) \<Rightarrow>
             let live = ds_live ds;
                 ds1 = ds\<lparr>ds_store := s, ds_live := live\<lparr>lv_multi := (lv_multi live)(multi_id \<mapsto> hs)\<rparr>\<rparr> in
             Inr (Some (Inr (MultiAcquired multi_id (zip (multi_keys hs) (map fence_value (multi_fences hs)))),
               case lv_multi live multi_id of None \<Rightarrow> ds1
               | Some old \<Rightarrow> ds1\<lparr>ds_store := drop_each exec r' old (ds_store ds1)\<rparr>))
         | Inr (Some (Inl (Timeout _), s)) \<Rightarrow> Inr (Some (Inr MultiTimeout, ds\<lparr>ds_store := s\<rparr>))
         | Inr (Some (Inl e, s)) \<Rightarrow> Inr (Some (Inl (api_error e), ds\<lparr>ds_store := s\<rparr>))))"

definition multi_release ::
  "'s server \<Rightarrow> 's mround \<Rightarrow> string \<Rightarrow> 's DemoState \<Rightarrow> bool api \<times> 's DemoState" where
  "multi_release exec r multi_id ds =
     (let live = ds_live ds in
      case lv_multi live multi_id of
        None \<Rightarrow> (Inr False, ds)
      | Some hs \<Rightarrow> (case multi_release_all exec r hs (ds_store ds) of (res, _, s) \<Rightarrow>
          (map_sum api_error (\<lambda>_. True) res, ds\<lparr>ds_store := s, ds_live := live\<lparr>lv_multi := (lv_multi live)(multi_id := None)\<rparr>\<rparr>)))"

section \<open>Latches\<close>

text \<open>Every latch request first adopts the latch, which creates it where there is none.\<close>

definition with_latch ::
  "'s server \<Rightarrow> delivery \<Rightarrow> string \<Rightarrow> u32 \<Rightarrow> (string \<Rightarrow> 's \<Rightarrow> 'a result \<times> 's) \<Rightarrow> 's DemoState \<Rightarrow> 'a api \<times> 's DemoState" where
  "with_latch exec d key n op ds =
     (case latch_create exec d key n (ds_store ds) of
        (Inl e, s) \<Rightarrow> (Inl (api_error e), ds\<lparr>ds_store := s\<rparr>)
      | (Inr latch, s) \<Rightarrow> (case op latch s of (r, t) \<Rightarrow> (map_sum api_error id r, ds\<lparr>ds_store := t\<rparr>)))"

definition demo_latch_create ::
  "'s server \<Rightarrow> delivery \<Rightarrow> delivery \<Rightarrow> ('s \<Rightarrow> 's) \<Rightarrow> string \<Rightarrow> u32 \<Rightarrow> 's DemoState \<Rightarrow> u64 api \<times> 's DemoState" where
  "demo_latch_create exec d d' mid key n = with_latch exec d key n (\<lambda>l s. latch_count exec d' l (mid s))"

definition demo_latch_count_down ::
  "'s server \<Rightarrow> delivery \<Rightarrow> delivery \<Rightarrow> ('s \<Rightarrow> 's) \<Rightarrow> string \<Rightarrow> 's DemoState \<Rightarrow> u64 api \<times> 's DemoState" where
  "demo_latch_count_down exec d d' mid key = with_latch exec d key 1 (\<lambda>l s. count_down exec d' l (mid s))"

definition demo_latch_count ::
  "'s server \<Rightarrow> delivery \<Rightarrow> delivery \<Rightarrow> ('s \<Rightarrow> 's) \<Rightarrow> string \<Rightarrow> 's DemoState \<Rightarrow> u64 api \<times> 's DemoState" where
  "demo_latch_count exec d d' mid key = with_latch exec d key 1 (\<lambda>l s. latch_count exec d' l (mid s))"

definition demo_latch_wait ::
  "'s server \<Rightarrow> delivery \<Rightarrow> nat \<Rightarrow> 's attempt list \<Rightarrow> string \<Rightarrow> u64 option \<Rightarrow> 's DemoState \<Rightarrow>
   panic + (bool api \<times> 's DemoState) option" where
  "demo_latch_wait exec d now as key timeout_ms ds =
     (case latch_create exec d key 1 (ds_store ds) of
        (Inl e, s) \<Rightarrow> Inr (Some (Inl (api_error e), ds\<lparr>ds_store := s\<rparr>))
      | (Inr latch, s) \<Rightarrow>
          let timeout = from_millis (unat (min (case timeout_ms of None \<Rightarrow> 5000 | Some t \<Rightarrow> t) 30000)) in
          map_sum id (map_option (\<lambda>(r, t). (Inr (is_ok r), ds\<lparr>ds_store := t\<rparr>))) (wait_until_zero exec latch now timeout as s))"

section \<open>Semantic locks and the protected data\<close>

record PredicateSpec =
  ps_field :: string
  ps_op :: string
  ps_value :: "string option"

fun build_guard :: "(string \<Rightarrow> real option) \<Rightarrow> PredicateSpec list \<Rightarrow> SemanticGuard \<Rightarrow> SemanticGuard api" where
  "build_guard parse_f64 [] g = Inr g"
| "build_guard parse_f64 (p # ps) g =
     (if ps_op p = ''eq'' then
        build_guard parse_f64 ps (field_equals (ps_field p) (case ps_value p of None \<Rightarrow> [] | Some v \<Rightarrow> v) g)
      else if ps_op p = ''gt'' then
        (case Option.bind (ps_value p) parse_f64 of
           None \<Rightarrow> Inl (ApiError 400 (''predicate `'' @ ps_field p @ ''` needs numeric value''))
         | Some v \<Rightarrow> build_guard parse_f64 ps (field_gt (ps_field p) v g))
      else if ps_op p = ''absent'' then build_guard parse_f64 ps (field_absent (ps_field p) g)
      else Inl (ApiError 400 (''unknown predicate op `'' @ ps_op p @ ''` (eq|gt|absent)'')))"

datatype SemanticOutcome = SemGranted string u64 | SemHeld | SemPredicatesFailed

definition demo_semantic_acquire ::
  "(string \<Rightarrow> real option) \<Rightarrow> (string \<Rightarrow> real option) \<Rightarrow> 's server \<Rightarrow> delivery \<Rightarrow> delivery \<Rightarrow> ('s \<Rightarrow> 's) \<Rightarrow> ('s \<Rightarrow> 's) \<Rightarrow> ('s \<Rightarrow> 's) \<Rightarrow>
   duration \<Rightarrow> string \<Rightarrow> string \<Rightarrow> u64 option \<Rightarrow> PredicateSpec list \<Rightarrow> 's DemoState \<Rightarrow> SemanticOutcome api \<times> 's DemoState" where
  "demo_semantic_acquire parse_f64 tonum exec d d' mid mid1 mid2 elapsed token key ttl_ms preds ds =
     (if preds = [] then (Inl (ApiError 400 ''at least one predicate required''), ds)
      else case build_guard parse_f64 preds (guard_ttl (clamp_ttl ttl_ms) (acquire_where key)) of
          Inl e \<Rightarrow> (Inl e, ds)
        | Inr g \<Rightarrow>
            (case semantic_acquire tonum exec d token g (ds_store ds) of
               (Inr h, s) \<Rightarrow>
                 (Inr (SemGranted (hs_token h) (fence_value (hs_fence h))), demo_observe elapsed True False (ds\<lparr>ds_store := s\<rparr>))
             | (Inl (Held _), s) \<Rightarrow>
                 let ds1 = demo_observe elapsed True True (ds\<lparr>ds_store := s\<rparr>) in
                 (case describe_key exec d' mid1 mid2 key (mid s) of
                    (Inl e, t) \<Rightarrow> (Inl (api_error e), ds1\<lparr>ds_store := t\<rparr>)
                  | (Inr (held, _, _), t) \<Rightarrow> (Inr (if held then SemHeld else SemPredicatesFailed), ds1\<lparr>ds_store := t\<rparr>))
             | (Inl e, s) \<Rightarrow> (Inl (api_error e), demo_observe elapsed False False (ds\<lparr>ds_store := s\<rparr>))))"

definition semantic_set_data ::
  "'s server \<Rightarrow> bool \<Rightarrow> delivery \<Rightarrow> string \<Rightarrow> string \<Rightarrow> string \<Rightarrow> 's \<Rightarrow> unit api \<times> 's" where
  "semantic_set_data exec dialed d key field val s =
     (if \<not> dialed then (Inl (api_error (Backend ''data connect'')), s)
      else case query exec d ''hset failed'' (HSET key [(field, val)]) s of
        (Inl e, t) \<Rightarrow> (Inl (api_error e), t)
      | (Inr _, t) \<Rightarrow> (Inr (), t))"

text \<open>The reply to \<^verbatim>\<open>HGETALL\<close> alternates fields and values.\<close>

fun field_pairs :: "string list \<Rightarrow> (string \<times> string) list" where
  "field_pairs (f # v # xs) = (f, v) # field_pairs xs"
| "field_pairs _ = []"

definition semantic_get_data ::
  "'s server \<Rightarrow> bool \<Rightarrow> delivery \<Rightarrow> string \<Rightarrow> 's \<Rightarrow> (string \<times> string) list api \<times> 's" where
  "semantic_get_data exec dialed d key s =
     (if \<not> dialed then (Inl (api_error (Backend ''data connect'')), s)
      else case query exec d ''hgetall failed'' (HGETALL key) s of
        (Inr (RArr xs), t) \<Rightarrow> (Inr (field_pairs xs), t)
      | (Inr _, t) \<Rightarrow> (Inl (api_error (Backend ''hgetall failed'')), t)
      | (Inl e, t) \<Rightarrow> (Inl (api_error e), t))"

text \<open>Both run on the data connection.\<close>

definition on_data :: "('s \<Rightarrow> 'a \<times> 's) \<Rightarrow> 's DemoState \<Rightarrow> 'a \<times> 's DemoState" where
  "on_data f ds =
     (case ds_data ds of
        None \<Rightarrow> (case f (ds_store ds) of (r, t) \<Rightarrow> (r, ds\<lparr>ds_store := t\<rparr>))
      | Some s \<Rightarrow> (case f s of (r, t) \<Rightarrow> (r, ds\<lparr>ds_data := Some t\<rparr>)))"

section \<open>Testaments, sessions and watching\<close>

definition testament_set ::
  "'s server \<Rightarrow> delivery \<Rightarrow> string \<Rightarrow> string \<Rightarrow> u64 option \<Rightarrow> string \<Rightarrow> 's DemoState \<Rightarrow> unit api \<times> 's DemoState" where
  "testament_set exec d key token ttl_ms payload ds =
     (case set_testament exec d key token (clamp_ttl ttl_ms) payload (ds_store ds) of
        (r, s) \<Rightarrow> (map_sum api_error id r, ds\<lparr>ds_store := s\<rparr>))"

definition testament_read ::
  "(string \<Rightarrow> string) \<Rightarrow> 's server \<Rightarrow> delivery \<Rightarrow> string \<Rightarrow> 's DemoState \<Rightarrow> string option api \<times> 's DemoState" where
  "testament_read lossy exec d key ds =
     (case read_testament exec d key (ds_store ds) of (r, s) \<Rightarrow> (map_sum api_error (map_option lossy) r, ds\<lparr>ds_store := s\<rparr>))"

definition demo_session_register ::
  "string \<Rightarrow> nat \<Rightarrow> nat \<Rightarrow> string \<Rightarrow> u64 option \<Rightarrow> 's DemoState \<Rightarrow> (string \<times> u64) \<times> 's DemoState" where
  "demo_session_register fresh now now' client_id ttl_ms ds =
     (let ttl = from_millis (unat (min (case ttl_ms of None \<Rightarrow> 10000 | Some t \<Rightarrow> t) 60000));
          (token, book) = session_register client_id ttl fresh now now' (ds_sessions ds) in
      ((token, as_millis_u64 ttl), ds\<lparr>ds_sessions := book\<rparr>))"

datatype SessionHeartbeatOutcome = BeatOk | BeatRateLimited | BeatUnknown

definition demo_session_heartbeat :: "nat \<Rightarrow> string \<Rightarrow> 's DemoState \<Rightarrow> SessionHeartbeatOutcome \<times> 's DemoState" where
  "demo_session_heartbeat now token ds =
     (case session_heartbeat token now (ds_sessions ds) of (r, book) \<Rightarrow>
        (case r of HbOk \<Rightarrow> BeatOk | RateLimited \<Rightarrow> BeatRateLimited | Unknown \<Rightarrow> BeatUnknown, ds\<lparr>ds_sessions := book\<rparr>))"

definition demo_session_close ::
  "'s server \<Rightarrow> (string \<times> string \<Rightarrow> delivery) \<Rightarrow> string \<Rightarrow> 's DemoState \<Rightarrow> u32 \<times> 's DemoState" where
  "demo_session_close exec d token ds =
     (case session_close exec d token (ds_sessions ds, ds_store ds) of
        (n, book, s) \<Rightarrow> (n, ds\<lparr>ds_sessions := book, ds_store := s\<rparr>))"

definition demo_sweep :: "'s server \<Rightarrow> 's sweep_env \<Rightarrow> nat \<Rightarrow> 's DemoState \<Rightarrow> 's DemoState" where
  "demo_sweep exec v now ds =
     (case sweep_once exec v now (ds_sessions ds, ds_store ds) of (book, s) \<Rightarrow> ds\<lparr>ds_sessions := book, ds_store := s\<rparr>)"

definition render_event :: "LockEvent option \<Rightarrow> string" where
  "render_event ev =
     (let q = (\<lambda>s. [CHR 0x22] @ s @ [CHR 0x22]) in
      ''{'' @ q ''event'' @ '':'' @
      (case ev of
         Some (EvAcquired v) \<Rightarrow> q ''acquired'' @ '','' @ q ''version'' @ '':'' @ show_nat (unat v)
       | Some (EvFreed v) \<Rightarrow> q ''freed'' @ '','' @ q ''version'' @ '':'' @ show_nat (unat v)
       | None \<Rightarrow> q ''unknown'') @ ''}'')"

text \<open>What wakes the socket task: an event of the hub with whether it could be sent, the end of the
  subscription, or something from the browser (a frame or a disconnect).\<close>

datatype wake = HubEvent "LockEvent option" bool | HubEnd | Inbound bool

fun pump_events :: "wake list \<Rightarrow> string list" where
  "pump_events [] = []"
| "pump_events (HubEvent ev sent # ws) = (if sent then render_event ev # pump_events ws else [])"
| "pump_events (HubEnd # ws) = []"
| "pump_events (Inbound ok # ws) = (if ok then pump_events ws else [])"

section \<open>Names of handles\<close>

lemma show_nat_no_bar: "CHR 0x7C \<notin> set (show_nat n)"
proof (induction n rule: show_nat.induct)
  case (1 n)
  have "digit m \<noteq> CHR 0x7C" if "m < 10" for m
    using that by (auto simp: digit_def less_Suc_eq numeral_eq_Suc)
  from this [of "n mod 10"] this [of n] 1 show ?case by (subst show_nat.simps) auto
qed

lemma bar_split:
  assumes "xs @ CHR 0x7C # ys = xs' @ CHR 0x7C # ys'" "CHR 0x7C \<notin> set ys" "CHR 0x7C \<notin> set ys'"
  shows "xs = xs' \<and> ys = ys'"
  using assms
proof (induction xs arbitrary: xs')
  case Nil
  then show ?case by (cases xs') auto
next
  case (Cons x xs)
  then show ?case by (cases xs') auto
qed

text \<open>A name determines the key and the fence it was made of.\<close>

lemma rw_map_key_inject: "rw_map_key k f = rw_map_key k' f' \<longleftrightarrow> k = k' \<and> f = f'"
  using bar_split [of k "show_nat (unat f)" k' "show_nat (unat f')"] show_nat_no_bar
  by (auto simp: rw_map_key_def word_unat_eq_iff)

section \<open>Leases\<close>

lemma clamp_ttl_range: "MIN_TTL \<le> clamp_ttl t" "clamp_ttl t \<le> DEMO_MAX_TTL"
proof -
  have c: "as_millis_u64 MIN_TTL = 10" "as_millis_u64 DEMO_MAX_TTL = 60000"
    by (simp_all add: as_millis_u64_def MIN_TTL_def DEMO_MAX_TTL_def as_millis_def from_secs_def from_millis_def)
  have "10 \<le> unat (max (min (case t of None \<Rightarrow> 4000 | Some x \<Rightarrow> x) 60000) (10 :: u64))"
    "unat (max (min (case t of None \<Rightarrow> 4000 | Some x \<Rightarrow> x) 60000) (10 :: u64)) \<le> 60000"
    by (auto simp: max_def min_def word_le_nat_alt word_less_nat_alt split: option.splits)
  then show "MIN_TTL \<le> clamp_ttl t" "clamp_ttl t \<le> DEMO_MAX_TTL"
    unfolding clamp_ttl_def Let_def c by (simp_all add: MIN_TTL_def DEMO_MAX_TTL_def from_millis_def from_secs_def)
qed

lemma demo_options_valid [simp]: "validate (demo_options t) = Inr ()"
  using clamp_ttl_range(1) [of t] by (simp add: validate_def demo_options_def with_ttl_opt_def)

section \<open>The stored handles\<close>

text \<open>Every request the console serves, every turn of its sweeper, and what others do to the store.\<close>

inductive console_step :: "'s server \<Rightarrow> 's DemoState \<Rightarrow> 's DemoState \<Rightarrow> bool" for exec where
  acquire: "console_step exec ds (snd (demo_acquire exec d d' mid now el tok req ds))"
| release: "console_step exec ds (snd (demo_release exec d el key tok ds))"
| describe: "console_step exec ds (snd (demo_describe exec d mid mid' key ds))"
| listing: "demo_list_locks exec dk scans pre ds = Some (res, ds') \<Longrightarrow> console_step exec ds ds'"
| extend: "console_step exec ds (snd (demo_extend exec d key tok ms ds))"
| force: "console_step exec ds (snd (demo_force_unlock exec d key ds))"
| re_acquire: "console_step exec ds (snd (reentrant_acquire uuid exec d d' mid fresh key ttl owner ds))"
| re_release: "console_step exec ds (snd (reentrant_release exec d key owner' all' ds))"
| reader: "console_step exec ds (snd (rw_read exec d d' mid tok key ttl ds))"
| writer: "console_step exec ds (snd (rw_write exec d d' mid tok key ttl ds))"
| rw_rel: "console_step exec ds (snd (rw_release exec d key f mode ds))"
| sem_acquire: "console_step exec ds (snd (semaphore_acquire exec d d' mid tok key n ttl ds))"
| sem_release: "console_step exec ds (snd (semaphore_release exec d key f ds))"
| fair: "console_step exec ds (snd (demo_fair_lock fuel exec d d' mid fresh key ttl ds))"
| fair_rel: "console_step exec ds (snd (demo_fair_release exec d key f ds))"
| multi: "multi_lock exec now rs r' mid' keys ttl wait ds = Inr (Some (res, ds')) \<Longrightarrow> console_step exec ds ds'"
| multi_rel: "console_step exec ds (snd (multi_release exec r' mid' ds))"
| latch: "console_step exec ds (snd (demo_latch_create exec d d' mid key n ds))"
| latch_down: "console_step exec ds (snd (demo_latch_count_down exec d d' mid key ds))"
| latch_read: "console_step exec ds (snd (demo_latch_count exec d d' mid key ds))"
| latch_wait: "demo_latch_wait exec d now as key timeout ds = Inr (Some (res, ds')) \<Longrightarrow> console_step exec ds ds'"
| semantic: "console_step exec ds (snd (demo_semantic_acquire pf tn exec d d' mid mid1 mid2 el tok key ttl preds ds))"
| will_set: "console_step exec ds (snd (testament_set exec d key tok ttl payload ds))"
| will_read: "console_step exec ds (snd (testament_read lossy exec d key ds))"
| register: "console_step exec ds (snd (demo_session_register fresh now now' client ttl ds))"
| heartbeat: "console_step exec ds (snd (demo_session_heartbeat now tok ds))"
| close: "console_step exec ds (snd (demo_session_close exec ds' tok ds))"
| sweep: "console_step exec ds (demo_sweep exec v now ds)"
| data_set: "console_step exec ds (snd (on_data (semantic_set_data exec dialed d key field val) ds))"
| data_get: "console_step exec ds (snd (on_data (semantic_get_data exec dialed d key) ds))"
| gauge: "console_step exec ds (snd (demo_pressure ln64 now ds))"
| environment: "console_step exec ds (ds\<lparr>ds_store := s, ds_hub := h, ds_data := data\<rparr>)"

inductive console_reach :: "'s server \<Rightarrow> 's DemoState \<Rightarrow> bool" for exec where
  start: "console_reach exec (demo_new mgr now s data)"
| step: "console_reach exec ds \<Longrightarrow> console_step exec ds ds' \<Longrightarrow> console_reach exec ds'"

definition filed :: "('h \<Rightarrow> string) \<Rightarrow> ('h \<Rightarrow> bool) \<Rightarrow> (string \<Rightarrow> 'h option) \<Rightarrow> bool" where
  "filed name good m \<longleftrightarrow> (\<forall>x h. m x = Some h \<longrightarrow> x = name h \<and> good h)"

lemma filed_simps [simp]:
  "filed name good Map.empty"
  "filed name good m \<Longrightarrow> name h = x \<Longrightarrow> good h \<Longrightarrow> filed name good (m(x \<mapsto> h))"
  "filed name good m \<Longrightarrow> filed name good (m(x := None))"
  by (auto simp: filed_def)

lemma filedD: "filed name good m \<Longrightarrow> m x = Some h \<Longrightarrow> name h = x \<and> good h"
  by (auto simp: filed_def)

definition live_ok :: "LiveHandles \<Rightarrow> bool" where
  "live_ok l \<longleftrightarrow>
     filed (\<lambda>h. owner_map_key (re_key h) (re_token h)) (\<lambda>h. \<not> re_gone h) (lv_reentrant l) \<and>
     filed (\<lambda>h. rw_map_key (rw_key h) (fence_value (rw_fence h))) (\<lambda>h. \<not> rw_gone h \<and> \<not> write_mode h) (lv_read l) \<and>
     filed (\<lambda>h. rw_map_key (rw_key h) (fence_value (rw_fence h))) (\<lambda>h. \<not> rw_gone h \<and> write_mode h) (lv_write l) \<and>
     filed (\<lambda>h. rw_map_key (pm_key h) (fence_value (pm_fence h))) (\<lambda>h. \<not> pm_gone h) (lv_permits l) \<and>
     filed (\<lambda>h. rw_map_key (fa_key h) (fence_value (fa_fence h))) (\<lambda>h. \<not> fa_gone h) (lv_fair l)"

text \<open>What each acquisition hands out.\<close>

lemma granted_handles:
  "try_lock_reentrant exec d key owner opts s = (Inr h, t) \<Longrightarrow> re_key h = key \<and> re_token h = owner \<and> \<not> re_gone h"
  "try_read exec d tok key opts s = (Inr r, t) \<Longrightarrow> rw_key r = key \<and> \<not> rw_gone r \<and> \<not> write_mode r"
  "try_write exec d tok key opts s = (Inr w, t) \<Longrightarrow> rw_key w = key \<and> \<not> rw_gone w \<and> write_mode w"
  "semaphore key n = Inr sem \<Longrightarrow> try_acquire exec d sem tok opts s = (Inr p, t) \<Longrightarrow> pm_key p = key \<and> \<not> pm_gone p"
  "try_lock_fair fuel exec d key tok opts s = (Inr g, t) \<Longrightarrow> fa_key g = key \<and> \<not> fa_gone g"
  by (auto simp: try_lock_reentrant_def try_read_def try_write_def semaphore_def try_acquire_def try_lock_fair_def
      try_lock_fair_as_def rw_new_def split: sum.splits prod.splits if_splits)

text \<open>The requests that store no handle leave the stored ones alone.\<close>

lemma live_untouched:
  "ds_live (snd (demo_acquire exec d d' mid now el tok req ds)) = ds_live ds"
  "ds_live (snd (demo_release exec d el key tok ds)) = ds_live ds"
  "ds_live (snd (with_latch exec d key n op ds)) = ds_live ds"
  "ds_live (snd (demo_semantic_acquire pf tn exec d d' mid mid1 mid2 el tok key ttl preds ds)) = ds_live ds"
  "ds_live (snd (demo_session_register fresh now now' client ttl ds)) = ds_live ds"
  "ds_live (snd (demo_session_heartbeat now tok ds)) = ds_live ds"
  "ds_live (snd (demo_session_close exec dl tok ds)) = ds_live ds"
  "ds_live (demo_sweep exec v now ds) = ds_live ds"
  by (auto simp: demo_acquire_def demo_release_def demo_observe_def with_latch_def demo_semantic_acquire_def
      demo_session_register_def demo_session_heartbeat_def demo_session_close_def demo_sweep_def Let_def
      split: sum.split prod.split error.split if_splits option.split)

lemma step_live_ok:
  assumes "console_step exec ds ds'" "live_ok (ds_live ds)"
  shows "live_ok (ds_live ds')"
  using assms
proof (induction rule: console_step.induct)
  case (re_acquire ds uuid d d' mid fresh key ttl owner)
  then show ?case
    by (auto simp: reentrant_acquire_def Let_def live_ok_def owner_map_key_def dest: granted_handles(1)
        split: sum.splits prod.splits option.splits)
next
  case (reader ds d d' mid tok key ttl)
  then show ?case
    by (auto simp: rw_read_def Let_def live_ok_def dest: granted_handles(2) split: sum.splits prod.splits option.splits error.splits)
next
  case (writer ds d d' mid tok key ttl)
  then show ?case
    by (auto simp: rw_write_def Let_def live_ok_def dest: granted_handles(3) split: sum.splits prod.splits option.splits error.splits)
next
  case (sem_acquire ds d d' mid tok key n ttl)
  then show ?case
    by (auto simp: semaphore_acquire_def Let_def live_ok_def dest: granted_handles(4)
        split: sum.splits prod.splits option.splits error.splits)
next
  case (fair ds fuel d d' mid fresh key ttl)
  then show ?case
    by (auto simp: demo_fair_lock_def Let_def live_ok_def dest: granted_handles(5) split: sum.splits prod.splits option.splits)
next
  case (multi now rs r' mid' keys ttl wait ds res ds')
  then show ?case
    by (auto simp: multi_lock_def Let_def live_ok_def split: sum.splits prod.splits option.splits error.splits if_splits)
qed (auto simp: live_untouched demo_describe_def demo_list_locks_def demo_extend_def demo_force_unlock_def
    reentrant_release_def rw_release_def semaphore_release_def demo_fair_release_def multi_release_def demo_latch_create_def
    demo_latch_count_down_def demo_latch_count_def demo_latch_wait_def testament_set_def testament_read_def demo_pressure_def on_data_def map_sum_eq_Inr Let_def live_ok_def
    split: sum.splits prod.splits option.splits if_splits)

text \<open>The pressure index of the console keeps its ranges.\<close>

lemma pressure_kept:
  "pressure_ok (ds_pressure ds) \<Longrightarrow> pressure_ok (ds_pressure (demo_observe el ok denied ds))"
  "pressure_ok (ds_pressure ds) \<Longrightarrow> pressure_ok (ds_pressure (snd (demo_pressure ln64 now ds)))"
  by (simp_all add: demo_observe_def observe_ok demo_pressure_def tick_ok split_beta)

lemma step_pressure_ok:
  assumes "console_step exec ds ds'" "pressure_ok (ds_pressure ds)"
  shows "pressure_ok (ds_pressure ds')"
  using assms
  by (induction rule: console_step.induct)
    (auto simp: demo_acquire_def demo_release_def demo_describe_def demo_list_locks_def demo_extend_def demo_force_unlock_def
      reentrant_acquire_def reentrant_release_def rw_read_def rw_write_def rw_release_def semaphore_acquire_def semaphore_release_def
      demo_fair_lock_def demo_fair_release_def multi_lock_def multi_release_def demo_latch_create_def demo_latch_count_down_def
      demo_latch_count_def demo_latch_wait_def with_latch_def demo_semantic_acquire_def testament_set_def testament_read_def
      demo_session_register_def demo_session_heartbeat_def demo_session_close_def demo_sweep_def on_data_def map_sum_eq_Inr Let_def
      intro!: pressure_kept split: sum.splits prod.splits option.splits error.splits if_splits)

lemma console_pressure_ok: "console_reach exec ds \<Longrightarrow> pressure_ok (ds_pressure ds)"
  by (induction rule: console_reach.induct) (auto simp: demo_new_def spi_new_ok intro: step_pressure_ok)

text \<open>Property C40. Stored handles are what their names say. In every state the console's requests, its sweeper
  and other clients of the store can produce, the handle found under a key and a fence is a handle of that key and that
  fence, of the right kind, that nobody has released yet; so a release request naming a grant
  acts on exactly that grant.\<close>

theorem stored_handles_sound:
  assumes "console_reach exec ds"
  shows "(\<forall>h. lv_read (ds_live ds) (rw_map_key key f) = Some h \<longrightarrow>
      rw_key h = key \<and> fence_value (rw_fence h) = f \<and> \<not> rw_gone h \<and> \<not> write_mode h) \<and>
    (\<forall>h. lv_write (ds_live ds) (rw_map_key key f) = Some h \<longrightarrow>
      rw_key h = key \<and> fence_value (rw_fence h) = f \<and> \<not> rw_gone h \<and> write_mode h) \<and>
    (\<forall>p. lv_permits (ds_live ds) (rw_map_key key f) = Some p \<longrightarrow> pm_key p = key \<and> fence_value (pm_fence p) = f \<and> \<not> pm_gone p) \<and>
    (\<forall>h. lv_fair (ds_live ds) (rw_map_key key f) = Some h \<longrightarrow> fa_key h = key \<and> fence_value (fa_fence h) = f \<and> \<not> fa_gone h) \<and>
    (\<forall>h. lv_reentrant (ds_live ds) (owner_map_key key owner) = Some h \<longrightarrow>
      owner_map_key (re_key h) (re_token h) = owner_map_key key owner \<and> \<not> re_gone h)"
proof -
  have "live_ok (ds_live ds)" using assms
  proof (induction rule: console_reach.induct)
    case (start mgr now s data)
    show ?case by (simp add: live_ok_def demo_new_def no_handles_def)
  qed (rule step_live_ok)
  then show ?thesis by (auto simp: live_ok_def rw_map_key_inject dest: filedD)
qed

definition ex_console :: "mem DemoState" where
  "ex_console = demo_new ex_mgr 0 mem_init None"

definition ex_reading :: "RwOutcome api \<times> mem DemoState" where
  "ex_reading = rw_read mem_exec Delivered Delivered id ''t'' ''k'' None ex_console"

lemma mem_first_read:
  "fst (rw_read_acquire_lua mem_exec [''k'', fence_key_for ''k''] [''t'', show_nat 4000, show_nat 40000] mem_init) = Inr (1, 1)"
proof -
  have "rw_sim mem_ks fst ''k'' mem_init (rw_start 0)" "rw_within (ReadAcquire ''t'' 4000) (rw_start 0)"
    by (simp_all add: rw_sim_def rw_start_def mem_init_def mem_ks_def expire_def rw_within_def ttl_ok_def)
  from mem.rw_step_refines [OF this] show ?thesis
    by (simp add: rw_impl_step_def rw_spec_step_def rw_start_def rw_grant_def)
qed

theorem stored_handles_sound_witness:
  "fst ex_reading = Inr (RwAcquired 1) \<and>
   (\<exists>h. lv_read (ds_live (snd ex_reading)) (rw_map_key ''k'' 1) = Some h \<and> rw_key h = ''k'' \<and> \<not> rw_gone h \<and> \<not> write_mode h)"
proof -
  have o: "lo_ttl (demo_options None) = from_millis 4000" "ttl_arg (from_millis 4000) = show_nat 4000"
    "fence_ttl_arg (from_millis 4000) = show_nat 40000"
    by (simp_all add: demo_options_def with_ttl_opt_def clamp_ttl_def as_millis_u64_def MIN_TTL_def DEMO_MAX_TTL_def from_secs_def
        as_millis_def from_millis_def ttl_arg_def fence_ttl_arg_def FENCE_TTL_MULTIPLIER_def)
  have "try_read mem_exec Delivered ''t'' ''k'' (demo_options None) mem_init = (Inr (rw_new ''k'' ''t'' 1 (demo_options None) False),
      snd (rw_read_acquire_lua mem_exec [''k'', fence_key_for ''k''] [''t'', show_nat 4000, show_nat 40000] mem_init))"
    using mem_first_read by (simp add: try_read_def o invoke_def split_beta)
  then have r: "fst ex_reading = Inr (RwAcquired 1)"
    "lv_read (ds_live (snd ex_reading)) (rw_map_key ''k'' 1) = Some (rw_new ''k'' ''t'' 1 (demo_options None) False)"
    by (simp_all add: ex_reading_def rw_read_def ex_console_def demo_new_def no_handles_def rw_new_def)
  have "console_reach mem_exec (snd ex_reading)"
    unfolding ex_reading_def ex_console_def by (rule console_reach.step [OF console_reach.start console_step.reader])
  from stored_handles_sound [OF this, of "''k''" 1] r show ?thesis by blast
qed

section \<open>Entering again\<close>

text \<open>Entering a reentrant lock again through the console does not count. When an owner who holds the
  lock, with its handle stored by the console, acquires it once more, the request is granted, but
  storing the new handle drops the old one, whose background release takes the count back:
  the lock ends as if it had been entered no more often than before, and as many releases as
  acquisitions are one too many.\<close>

theorem console_reentry_undone:
  assumes srv: "redis_server exec ks clock pass"
    and held: "re_sim ks clock key (ds_store ds) a" "sp_hold a = Some (owner, c, e)" "c < i64_max" "sp_grants a < i64_max"
    and stored: "lv_reentrant (ds_live ds) (owner_map_key key owner) = Some old" "re_key old = key" "re_token old = owner" "\<not> re_gone old"
    and uuid: "parse_uuid owner = Some owner"
    and ttl: "ttl_ok (sp_now a) (as_millis (clamp_ttl ttl_ms))"
  shows "\<exists>f ds'. reentrant_acquire parse_uuid exec Delivered Delivered id fresh key ttl_ms (Some owner) ds = (Inr (owner, f), ds') \<and>
    re_sim ks clock key (ds_store ds')
      (a\<lparr>sp_hold := Some (owner, c, sp_now a + as_millis (clamp_ttl ttl_ms)), sp_grants := sp_grants a + 1\<rparr>)"
proof -
  let ?m = "as_millis (clamp_ttl ttl_ms)"
  let ?b = "snd (spec_step (ReAcquire owner ?m) a)"
  have b: "?b = a\<lparr>sp_hold := Some (owner, c + 1, sp_now a + ?m), sp_grants := sp_grants a + 1\<rparr>"
    using held(2) by (simp add: spec_step_def)
  have arg: "ttl_arg (clamp_ttl ttl_ms) = show_nat ?m" using ttl by (intro ttl_arg_eq) (auto simp: ttl_ok_def)
  have pos: "1 \<le> c" using held(1,2) by (simp add: re_sim_def)
  let ?A = "reentrant_acquire_lua exec [key, fence_key_for key] [owner, show_nat ?m, fence_ttl_arg (clamp_ttl ttl_ms)] (ds_store ds)"
  have "impl_step exec pass key (ReAcquire owner ?m) (ds_store ds) = ?A"
    by (simp add: impl_step_def reentrant_acquire_lua_def lua_arg_def cong: if_cong)
  then have acq: "fst ?A = Inr (2, sp_grants a + 1)" "re_sim ks clock key (snd ?A) ?b"
    using redis_server.re_step_refines [OF srv held(1), of "ReAcquire owner ?m"] held(2-4) ttl
    by (auto simp: op_in_range_def spec_step_def)
  let ?h = "\<lparr>re_key = key, re_token = owner, re_fence = FencingToken (of_int (sp_grants a + 1)), re_ttl = clamp_ttl ttl_ms, re_gone = False\<rparr>"
  have got: "try_lock_reentrant exec Delivered key owner (demo_options ttl_ms) (ds_store ds) = (Inr ?h, snd ?A)"
  proof -
    have "lo_ttl (demo_options ttl_ms) = clamp_ttl ttl_ms" by (simp add: demo_options_def with_ttl_opt_def)
    then show ?thesis using acq(1) by (simp add: try_lock_reentrant_def arg invoke_def split_beta)
  qed
  let ?R = "reentrant_release_lua exec [key] [owner, show_nat 0] (snd ?A)"
  have "snd (impl_step exec pass key (ReRelease owner 0) (snd ?A)) = snd ?R"
    by (simp add: impl_step_def lua_simps split_beta split: sum.splits)
  then have "re_sim ks clock key (snd ?R) (snd (spec_step (ReRelease owner 0) ?b))"
    using redis_server.re_step_refines [OF srv acq(2), of "ReRelease owner 0"] by (simp add: op_in_range_def)
  moreover have "snd (spec_step (ReRelease owner 0) ?b) = a\<lparr>sp_hold := Some (owner, c, sp_now a + ?m), sp_grants := sp_grants a + 1\<rparr>"
    unfolding b using pos by (simp add: spec_step_def)
  moreover have "re_drop exec Delivered True old (snd ?A) = snd ?R"
  proof -
    have "show_nat 0 = ''0''" by (simp add: show_nat.simps digit_def)
    then show ?thesis
      using stored by (simp add: re_drop_def re_mark_gone_def detached_release_one_def invoke_def split_beta split: sum.splits)
  qed
  ultimately show ?thesis
    using stored uuid got by (simp add: reentrant_acquire_def Let_def)
qed

definition ex_reentered :: "mem DemoState" where
  "ex_reentered = (demo_new ex_mgr 0 (0, [''k'' \<mapsto> (re_hash ''a'' 1, Some 4000), fence_key_for ''k'' \<mapsto> (VStr ''1'', None)]) None)
     \<lparr>ds_live := no_handles\<lparr>lv_reentrant := [''k|a'' \<mapsto> \<lparr>re_key = ''k'', re_token = ''a'', re_fence = FencingToken 1,
        re_ttl = from_secs 4, re_gone = False\<rparr>]\<rparr>\<rparr>"

theorem console_reentry_undone_witness:
  "\<exists>f ds'. reentrant_acquire Some mem_exec Delivered Delivered id ''x'' ''k'' None (Some ''a'') ex_reentered = (Inr (''a'', f), ds') \<and>
    re_sim mem_ks fst ''k'' (ds_store ds') \<lparr>sp_now = 0, sp_hold = Some (''a'', 1, 4000), sp_grants = 2\<rparr>"
proof -
  let ?a = "\<lparr>sp_now = 0, sp_hold = Some (''a'', 1, 4000), sp_grants = 1\<rparr>"
  have n: "fence_key_for ''k'' \<noteq> ''k''" by (simp add: fence_key_for_def)
  have sim: "re_sim mem_ks fst ''k'' (ds_store ex_reentered) ?a"
    by (simp add: re_sim_def ex_reentered_def demo_new_def mem_ks_def expire_def show_int_1 n)
  have ms: "as_millis (clamp_ttl None) = 4000"
    by (simp add: clamp_ttl_def as_millis_u64_def MIN_TTL_def DEMO_MAX_TTL_def from_secs_def as_millis_def from_millis_def)
  from console_reentry_undone [OF mem.redis_server_axioms sim, of "''a''" 1 4000, where ttl_ms = None and parse_uuid = Some and fresh = "''x''"]
  show ?thesis by (simp add: ex_reentered_def demo_new_def no_handles_def owner_map_key_def ms ttl_ok_def)
qed

section \<open>Reading a latch\<close>

text \<open>Asking for the count of a latch that does not exist creates it with count one.\<close>

lemma latch_read_creates:
  assumes "redis_server exec ks clock pass" "ks (ds_store ds) key = None"
  shows "ks (ds_store (snd (demo_latch_count exec Delivered d' id key ds))) key \<noteq> None"
proof -
  let ?s = "snd (latch_init_lua exec [key] [show_nat 1] (ds_store ds))"
  have "fst (latch_init_lua exec [key] [show_nat 1] (ds_store ds)) = Inr 1" "ks ?s key = Some (VStr (show_nat 1), None)"
    using assms(2) by (simp_all add: latch_init_lua_def lua_simps redis_server.lcall_simps [OF assms(1)] redis_simps)
  then have c: "latch_create exec Delivered key 1 (ds_store ds) = (Inr key, ?s)" "ks ?s key = Some (VStr (show_nat 1), None)"
    by (simp_all add: latch_create_def initial_counts_def invoke_def split_beta)
  have "ks (snd (latch_get_lua exec [key] ?s)) key = Some (VStr (show_nat 1), None)"
    using c(2) by (simp add: latch_get_lua_def lua_simps latch_value_def redis_server.lcall_simps [OF assms(1)] redis_simps)
  then have "ks (snd (latch_count exec d' key ?s)) key \<noteq> None"
    using c(2) by (cases d') (auto simp: latch_count_def eval_remaining_def invoke_def split: prod.splits sum.splits)
  then show ?thesis using c(1) by (simp add: demo_latch_count_def with_latch_def split_beta)
qed

section \<open>Renewal and contention\<close>

text \<open>A grant is disarmed before it is handed out, so the renewal task of a request that asks for one
  stops at its first wake-up without renewing.\<close>

lemma disarmed_watchdog_stops:
  "watchdog_tick exec d alive spawn_watchdog (disarm h) s = (spawn_watchdog\<lparr>wd_running := False\<rparr>, disarm h, s)"
  by (simp add: watchdog_tick_def spawn_watchdog_def disarm_def mark_released_def)

text \<open>Contention on the reentrant and the fair lock is reported as an internal server error.\<close>

lemma contention_is_server_error:
  "try_lock_reentrant exec d key owner (demo_options ttl) (ds_store ds) = (Inl (Held key), s) \<Longrightarrow> uuid owner = Some owner \<Longrightarrow>
    \<exists>m. fst (reentrant_acquire uuid exec d d' mid fresh key ttl (Some owner) ds) = Inl (ApiError 500 m)"
  "try_lock_fair fuel exec d key fresh (demo_options ttl) (ds_store ds) = (Inl (Held key), s) \<Longrightarrow>
    \<exists>m. fst (demo_fair_lock fuel exec d d' mid fresh key ttl ds) = Inl (ApiError 500 m)"
  by (simp_all add: reentrant_acquire_def demo_fair_lock_def api_error_def)

end
