(* ===== verification/ConsoleApi.thy ===== *)
theory ConsoleApi
  imports Console Config
begin

text \<open>
  The console as an HTTP server (\<^verbatim>\<open>src/crates/server/src/demo.rs\<close>): the request and response bodies, the
  routes, one dispatcher over every handler, and the process that runs it
  (\<^verbatim>\<open>bin/palisade-demo.rs\<close>). Matching a path, decoding and encoding JSON, static files and the upgrade to a
  web socket belong to the HTTP library. What happens around one request (deliveries, clocks, identities drawn,
  what others do to the store meanwhile) is one record.
\<close>

section \<open>Request bodies\<close>

record ReleaseRequest =
  ul_key :: string
  ul_token :: string

record ExtendRequest =
  xt_key :: string
  xt_token :: string
  xt_ttl_ms :: u64

record ForceUnlockRequest =
  fu_key :: string

record ListQuery =
  lq_prefix :: "string option"

record ReentrantAcquireRequest =
  ra_key :: string
  ra_ttl_ms :: "u64 option"
  ra_owner_id :: "string option"

record ReentrantReleaseRequest =
  rx_key :: string
  rx_owner_id :: string
  rx_all :: "bool option"

record RwAcquireRequest =
  rwq_key :: string
  rwq_ttl_ms :: "u64 option"

record RwReleaseRequest =
  rwx_key :: string
  rwx_fence :: u64
  rwx_mode :: string

record SemaphoreAcquireRequest =
  sq_key :: string
  sq_max_permits :: u32
  sq_ttl_ms :: "u64 option"

record FenceReleaseRequest =
  fx_key :: string
  fx_fence :: u64

record MultiAcquireRequest =
  mq_keys :: "string list"
  mq_ttl_ms :: "u64 option"
  mq_wait_ms :: "u64 option"

record MultiReleaseRequest =
  mx_multi_id :: string

record LatchCreateRequest =
  lc_key :: string
  lc_count :: u32

record LatchKeyRequest =
  lk_key :: string

record LatchWaitRequest =
  lw_key :: string
  lw_timeout_ms :: "u64 option"

record SemanticAcquireRequest =
  smq_key :: string
  smq_ttl_ms :: "u64 option"
  smq_predicates :: "PredicateSpec list"

record SemanticDataRequest =
  sd_key :: string
  sd_field :: string
  sd_value :: string

record TestamentSetRequest =
  tq_key :: string
  tq_token :: string
  tq_ttl_ms :: "u64 option"
  tq_payload :: string

record SessionRegisterRequest =
  sgq_client_id :: string
  sgq_ttl_ms :: "u64 option"

datatype Request =
    ReqIndex
  | ReqLock AcquireRequest
  | ReqUnlock ReleaseRequest
  | ReqExtend ExtendRequest
  | ReqForceUnlock ForceUnlockRequest
  | ReqDescribe string
  | ReqLocks ListQuery
  | ReqPressure
  | ReqReentrantAcquire ReentrantAcquireRequest
  | ReqReentrantRelease ReentrantReleaseRequest
  | ReqRwRead RwAcquireRequest
  | ReqRwWrite RwAcquireRequest
  | ReqRwRelease RwReleaseRequest
  | ReqSemaphoreAcquire SemaphoreAcquireRequest
  | ReqSemaphoreRelease FenceReleaseRequest
  | ReqFairLock RwAcquireRequest
  | ReqFairRelease FenceReleaseRequest
  | ReqMultiLock MultiAcquireRequest
  | ReqMultiRelease MultiReleaseRequest
  | ReqLatchCreate LatchCreateRequest
  | ReqLatchCountDown LatchKeyRequest
  | ReqLatchCount string
  | ReqLatchWait LatchWaitRequest
  | ReqSemanticAcquire SemanticAcquireRequest
  | ReqSemanticSetData SemanticDataRequest
  | ReqSemanticGetData string
  | ReqTestamentSet TestamentSetRequest
  | ReqTestamentRead string
  | ReqSessionRegister SessionRegisterRequest
  | ReqSessionHeartbeat LatchKeyRequest
  | ReqSessionClose LatchKeyRequest

section \<open>Response bodies\<close>

record DescribeResponse =
  dr_held :: bool
  dr_version :: u64
  dr_ttl_ms :: u64

record KeyEntry =
  ke_key :: string
  ke_ttl_ms :: u64

record ListLocksResponse =
  lr_prefix :: string
  lr_locks :: "KeyEntry list"

record PressureResponse =
  ps_spi :: real
  ps_tier :: string

record ForceUnlockResponse =
  fu_released :: bool

record ReentrantAcquireResponse =
  rar_owner_id :: string
  rar_fence :: u64

record ReleasedResponse =
  rel_released :: bool

record FairAcquireResponse =
  far_owner :: string
  far_fence :: u64

record LatchCountResponse =
  lcr_count :: u64

record LatchWaitResponse =
  lwr_zero :: bool

record SemanticDataResponse =
  sdr_fields :: "(string \<times> string) list"

record TestamentSetResponse =
  tsr_stored :: bool

record TestamentReadResponse =
  trr_payload :: "string option"

record SessionRegisterResponse =
  srr_session_token :: string
  srr_ttl_ms :: u64

record SessionCloseResponse =
  scr_released_locks :: u32

datatype Response =
    ResIndex
  | ResLock DemoOutcome
  | ResUnlock UnlockOutcome
  | ResExtend ExtendOutcome
  | ResForceUnlock ForceUnlockResponse
  | ResDescribe DescribeResponse
  | ResLocks ListLocksResponse
  | ResPressure PressureResponse
  | ResReentrant ReentrantAcquireResponse
  | ResReleased ReleasedResponse
  | ResRw RwOutcome
  | ResSemaphore SemaphoreOutcome
  | ResFair FairAcquireResponse
  | ResMulti MultiOutcome
  | ResLatchCount LatchCountResponse
  | ResLatchWait LatchWaitResponse
  | ResSemantic SemanticOutcome
  | ResOk
  | ResData SemanticDataResponse
  | ResTestamentSet TestamentSetResponse
  | ResTestamentRead TestamentReadResponse
  | ResSession SessionRegisterResponse
  | ResHeartbeat SessionHeartbeatOutcome
  | ResClosed SessionCloseResponse

section \<open>Routes\<close>

datatype http_method = Get | Post

datatype endpoint =
    HIndex | HAcquire | HRelease | HExtend | HForce_unlock | HDescribe | HList_locks | HPressure | HWatch_upgrade
  | HReentrant_acquire | HReentrant_release | HRw_read | HRw_write | HRw_release | HSemaphore_acquire | HSemaphore_release
  | HFair_lock | HFair_release | HMulti_lock | HMulti_release | HLatch_create | HLatch_count_down | HLatch_count | HLatch_wait
  | HSemantic_acquire | HSemantic_set_data | HSemantic_get_data | HTestament_set | HTestament_read | HSession_register
  | HSession_heartbeat | HSession_close

definition demo_router :: "(string \<times> http_method \<times> endpoint) list" where
  "demo_router =
     [(''/'', Get, HIndex),
      (''/api/lock'', Post, HAcquire),
      (''/api/unlock'', Post, HRelease),
      (''/api/extend'', Post, HExtend),
      (''/api/force-unlock'', Post, HForce_unlock),
      (''/api/describe/{key}'', Get, HDescribe),
      (''/api/locks'', Get, HList_locks),
      (''/api/pressure'', Get, HPressure),
      (''/api/watch/{key}'', Get, HWatch_upgrade),
      (''/api/reentrant/acquire'', Post, HReentrant_acquire),
      (''/api/reentrant/release'', Post, HReentrant_release),
      (''/api/rw/read'', Post, HRw_read),
      (''/api/rw/write'', Post, HRw_write),
      (''/api/rw/release'', Post, HRw_release),
      (''/api/semaphore/acquire'', Post, HSemaphore_acquire),
      (''/api/semaphore/release'', Post, HSemaphore_release),
      (''/api/fair/lock'', Post, HFair_lock),
      (''/api/fair/release'', Post, HFair_release),
      (''/api/multi/lock'', Post, HMulti_lock),
      (''/api/multi/release'', Post, HMulti_release),
      (''/api/latch/create'', Post, HLatch_create),
      (''/api/latch/count-down'', Post, HLatch_count_down),
      (''/api/latch/count/{key}'', Get, HLatch_count),
      (''/api/latch/wait'', Post, HLatch_wait),
      (''/api/semantic/acquire'', Post, HSemantic_acquire),
      (''/api/semantic/data'', Post, HSemantic_set_data),
      (''/api/semantic/data/{key}'', Get, HSemantic_get_data),
      (''/api/testament/set'', Post, HTestament_set),
      (''/api/testament/{key}'', Get, HTestament_read),
      (''/api/session/register'', Post, HSession_register),
      (''/api/session/heartbeat'', Post, HSession_heartbeat),
      (''/api/session/close'', Post, HSession_close)]"

text \<open>The router refuses two handlers for one method on one path.\<close>

lemma routes_distinct: "distinct (map (\<lambda>(path, m, h). (path, m)) demo_router)" "distinct (map (\<lambda>(path, m, h). h) demo_router)"
  by (simp_all add: demo_router_def)

primrec request_endpoint :: "Request \<Rightarrow> endpoint" where
  "request_endpoint ReqIndex = HIndex"
| "request_endpoint (ReqLock _) = HAcquire"
| "request_endpoint (ReqUnlock _) = HRelease"
| "request_endpoint (ReqExtend _) = HExtend"
| "request_endpoint (ReqForceUnlock _) = HForce_unlock"
| "request_endpoint (ReqDescribe _) = HDescribe"
| "request_endpoint (ReqLocks _) = HList_locks"
| "request_endpoint ReqPressure = HPressure"
| "request_endpoint (ReqReentrantAcquire _) = HReentrant_acquire"
| "request_endpoint (ReqReentrantRelease _) = HReentrant_release"
| "request_endpoint (ReqRwRead _) = HRw_read"
| "request_endpoint (ReqRwWrite _) = HRw_write"
| "request_endpoint (ReqRwRelease _) = HRw_release"
| "request_endpoint (ReqSemaphoreAcquire _) = HSemaphore_acquire"
| "request_endpoint (ReqSemaphoreRelease _) = HSemaphore_release"
| "request_endpoint (ReqFairLock _) = HFair_lock"
| "request_endpoint (ReqFairRelease _) = HFair_release"
| "request_endpoint (ReqMultiLock _) = HMulti_lock"
| "request_endpoint (ReqMultiRelease _) = HMulti_release"
| "request_endpoint (ReqLatchCreate _) = HLatch_create"
| "request_endpoint (ReqLatchCountDown _) = HLatch_count_down"
| "request_endpoint (ReqLatchCount _) = HLatch_count"
| "request_endpoint (ReqLatchWait _) = HLatch_wait"
| "request_endpoint (ReqSemanticAcquire _) = HSemantic_acquire"
| "request_endpoint (ReqSemanticSetData _) = HSemantic_set_data"
| "request_endpoint (ReqSemanticGetData _) = HSemantic_get_data"
| "request_endpoint (ReqTestamentSet _) = HTestament_set"
| "request_endpoint (ReqTestamentRead _) = HTestament_read"
| "request_endpoint (ReqSessionRegister _) = HSession_register"
| "request_endpoint (ReqSessionHeartbeat _) = HSession_heartbeat"
| "request_endpoint (ReqSessionClose _) = HSession_close"

text \<open>Every request body has a route, and every route but the socket's a request.\<close>

lemma routes_complete: "range request_endpoint = set (map (\<lambda>(path, m, h). h) demo_router) - {HWatch_upgrade}"
proof -
  have "endp \<in> range request_endpoint" if "endp \<noteq> HWatch_upgrade" for endp
    using that by (cases endp) (metis request_endpoint.simps rangeI)+
  moreover have "request_endpoint r \<noteq> HWatch_upgrade" for r by (cases r) simp_all
  moreover have "endp \<in> set (map (\<lambda>(path, m, h). h) demo_router)" for endp by (cases endp) (simp_all add: demo_router_def)
  ultimately show ?thesis by auto
qed

section \<open>Dispatch\<close>

record 's http_env =
  he_delivery :: delivery
  he_delivery2 :: delivery
  he_mid :: "'s \<Rightarrow> 's"
  he_mid1 :: "'s \<Rightarrow> 's"
  he_mid2 :: "'s \<Rightarrow> 's"
  he_now :: nat
  he_now2 :: nat
  he_elapsed :: duration
  he_fresh :: string
  he_fuel :: nat
  he_dialed :: bool
  he_attempts :: "'s attempt list"
  he_rounds :: "'s mround list"
  he_round :: "'s mround"
  he_scan :: "scan_answer list"
  he_per_key :: "string \<Rightarrow> delivery"
  he_per_lock :: "string \<times> string \<Rightarrow> delivery"

record libs =
  lib_ln :: "real \<Rightarrow> real"
  lib_uuid :: "string \<Rightarrow> string option"
  lib_f64 :: "string \<Rightarrow> real option"
  lib_tonumber :: "string \<Rightarrow> real option"
  lib_lossy :: "string \<Rightarrow> string"

definition answer :: "('a \<Rightarrow> Response) \<Rightarrow> 'a api \<times> 's DemoState \<Rightarrow> panic + (Response api \<times> 's DemoState) option" where
  "answer f r = Inr (Some (map_sum id f (fst r), snd r))"

definition answer_wait ::
  "('a \<Rightarrow> Response) \<Rightarrow> panic + ('a api \<times> 's DemoState) option \<Rightarrow> panic + (Response api \<times> 's DemoState) option" where
  "answer_wait f r = map_sum id (map_option (\<lambda>(x, ds). (map_sum id f x, ds))) r"

text \<open>The handler that cannot fail is answered the same way.\<close>

definition always :: "'a \<times> 's DemoState \<Rightarrow> 'a api \<times> 's DemoState" where
  "always r = (Inr (fst r), snd r)"

fun demo_serve ::
  "'s server \<Rightarrow> libs \<Rightarrow> 's http_env \<Rightarrow> Request \<Rightarrow> 's DemoState \<Rightarrow> panic + (Response api \<times> 's DemoState) option" where
  "demo_serve exec lib e ReqIndex ds = Inr (Some (Inr ResIndex, ds))"
| "demo_serve exec lib e (ReqLock q) ds =
     answer ResLock (demo_acquire exec (he_delivery e) (he_delivery2 e) (he_mid e) (he_now e) (he_elapsed e) (he_fresh e) q ds)"
| "demo_serve exec lib e (ReqUnlock q) ds =
     answer ResUnlock (demo_release exec (he_delivery e) (he_elapsed e) (ul_key q) (ul_token q) ds)"
| "demo_serve exec lib e (ReqExtend q) ds =
     answer ResExtend (demo_extend exec (he_delivery e) (xt_key q) (xt_token q) (xt_ttl_ms q) ds)"
| "demo_serve exec lib e (ReqForceUnlock q) ds =
     answer (\<lambda>b. ResForceUnlock \<lparr>fu_released = b\<rparr>) (demo_force_unlock exec (he_delivery e) (fu_key q) ds)"
| "demo_serve exec lib e (ReqDescribe key) ds =
     answer (\<lambda>(h, v, t). ResDescribe \<lparr>dr_held = h, dr_version = v, dr_ttl_ms = t\<rparr>)
       (demo_describe exec (he_delivery e) (he_mid1 e) (he_mid2 e) key ds)"
| "demo_serve exec lib e (ReqLocks q) ds =
     answer_wait (\<lambda>(p, ks). ResLocks \<lparr>lr_prefix = p, lr_locks = map (\<lambda>(k, t). \<lparr>ke_key = k, ke_ttl_ms = t\<rparr>) ks\<rparr>)
       (Inr (demo_list_locks exec (he_per_key e) (he_scan e) (lq_prefix q) ds))"
| "demo_serve exec lib e ReqPressure ds =
     answer (\<lambda>(x, t). ResPressure \<lparr>ps_spi = x, ps_tier = t\<rparr>) (always (demo_pressure (lib_ln lib) (he_now e) ds))"
| "demo_serve exec lib e (ReqReentrantAcquire q) ds =
     answer (\<lambda>(i, f). ResReentrant \<lparr>rar_owner_id = i, rar_fence = f\<rparr>)
       (reentrant_acquire (lib_uuid lib) exec (he_delivery e) (he_delivery2 e) (he_mid e) (he_fresh e) (ra_key q) (ra_ttl_ms q) (ra_owner_id q) ds)"
| "demo_serve exec lib e (ReqReentrantRelease q) ds =
     answer (\<lambda>b. ResReleased \<lparr>rel_released = b\<rparr>) (reentrant_release exec (he_delivery e) (rx_key q) (rx_owner_id q) (rx_all q) ds)"
| "demo_serve exec lib e (ReqRwRead q) ds =
     answer ResRw (rw_read exec (he_delivery e) (he_delivery2 e) (he_mid e) (he_fresh e) (rwq_key q) (rwq_ttl_ms q) ds)"
| "demo_serve exec lib e (ReqRwWrite q) ds =
     answer ResRw (rw_write exec (he_delivery e) (he_delivery2 e) (he_mid e) (he_fresh e) (rwq_key q) (rwq_ttl_ms q) ds)"
| "demo_serve exec lib e (ReqRwRelease q) ds =
     answer (\<lambda>b. ResReleased \<lparr>rel_released = b\<rparr>) (rw_release exec (he_delivery e) (rwx_key q) (rwx_fence q) (rwx_mode q) ds)"
| "demo_serve exec lib e (ReqSemaphoreAcquire q) ds =
     answer ResSemaphore (semaphore_acquire exec (he_delivery e) (he_delivery2 e) (he_mid e) (he_fresh e) (sq_key q) (sq_max_permits q) (sq_ttl_ms q) ds)"
| "demo_serve exec lib e (ReqSemaphoreRelease q) ds =
     answer (\<lambda>b. ResReleased \<lparr>rel_released = b\<rparr>) (semaphore_release exec (he_delivery e) (fx_key q) (fx_fence q) ds)"
| "demo_serve exec lib e (ReqFairLock q) ds =
     answer (\<lambda>(i, f). ResFair \<lparr>far_owner = i, far_fence = f\<rparr>)
       (demo_fair_lock (he_fuel e) exec (he_delivery e) (he_delivery2 e) (he_mid e) (he_fresh e) (rwq_key q) (rwq_ttl_ms q) ds)"
| "demo_serve exec lib e (ReqFairRelease q) ds =
     answer (\<lambda>b. ResReleased \<lparr>rel_released = b\<rparr>) (demo_fair_release exec (he_delivery e) (fx_key q) (fx_fence q) ds)"
| "demo_serve exec lib e (ReqMultiLock q) ds =
     answer_wait ResMulti (multi_lock exec (he_now e) (he_rounds e) (he_round e) (he_fresh e) (mq_keys q) (mq_ttl_ms q) (mq_wait_ms q) ds)"
| "demo_serve exec lib e (ReqMultiRelease q) ds =
     answer (\<lambda>b. ResReleased \<lparr>rel_released = b\<rparr>) (multi_release exec (he_round e) (mx_multi_id q) ds)"
| "demo_serve exec lib e (ReqLatchCreate q) ds =
     answer (\<lambda>n. ResLatchCount \<lparr>lcr_count = n\<rparr>) (demo_latch_create exec (he_delivery e) (he_delivery2 e) (he_mid e) (lc_key q) (lc_count q) ds)"
| "demo_serve exec lib e (ReqLatchCountDown q) ds =
     answer (\<lambda>n. ResLatchCount \<lparr>lcr_count = n\<rparr>) (demo_latch_count_down exec (he_delivery e) (he_delivery2 e) (he_mid e) (lk_key q) ds)"
| "demo_serve exec lib e (ReqLatchCount key) ds =
     answer (\<lambda>n. ResLatchCount \<lparr>lcr_count = n\<rparr>) (demo_latch_count exec (he_delivery e) (he_delivery2 e) (he_mid e) key ds)"
| "demo_serve exec lib e (ReqLatchWait q) ds =
     answer_wait (\<lambda>z. ResLatchWait \<lparr>lwr_zero = z\<rparr>) (demo_latch_wait exec (he_delivery e) (he_now e) (he_attempts e) (lw_key q) (lw_timeout_ms q) ds)"
| "demo_serve exec lib e (ReqSemanticAcquire q) ds =
     answer ResSemantic (demo_semantic_acquire (lib_f64 lib) (lib_tonumber lib) exec (he_delivery e) (he_delivery2 e) (he_mid e) (he_mid1 e) (he_mid2 e)
       (he_elapsed e) (he_fresh e) (smq_key q) (smq_ttl_ms q) (smq_predicates q) ds)"
| "demo_serve exec lib e (ReqSemanticSetData q) ds =
     answer (\<lambda>_. ResOk) (on_data (semantic_set_data exec (he_dialed e) (he_delivery e) (sd_key q) (sd_field q) (sd_value q)) ds)"
| "demo_serve exec lib e (ReqSemanticGetData key) ds =
     answer (\<lambda>fs. ResData \<lparr>sdr_fields = fs\<rparr>) (on_data (semantic_get_data exec (he_dialed e) (he_delivery e) key) ds)"
| "demo_serve exec lib e (ReqTestamentSet q) ds =
     answer (\<lambda>_. ResTestamentSet \<lparr>tsr_stored = True\<rparr>) (testament_set exec (he_delivery e) (tq_key q) (tq_token q) (tq_ttl_ms q) (tq_payload q) ds)"
| "demo_serve exec lib e (ReqTestamentRead key) ds =
     answer (\<lambda>p. ResTestamentRead \<lparr>trr_payload = p\<rparr>) (testament_read (lib_lossy lib) exec (he_delivery e) key ds)"
| "demo_serve exec lib e (ReqSessionRegister q) ds =
     answer (\<lambda>(t, n). ResSession \<lparr>srr_session_token = t, srr_ttl_ms = n\<rparr>)
       (always (demo_session_register (he_fresh e) (he_now e) (he_now2 e) (sgq_client_id q) (sgq_ttl_ms q) ds))"
| "demo_serve exec lib e (ReqSessionHeartbeat q) ds =
     answer ResHeartbeat (always (demo_session_heartbeat (he_now e) (lk_key q) ds))"
| "demo_serve exec lib e (ReqSessionClose q) ds =
     answer (\<lambda>n. ResClosed \<lparr>scr_released_locks = n\<rparr>) (always (demo_session_close exec (he_per_lock e) (lk_key q) ds))"

section \<open>Requests that are refused\<close>

text \<open>A refusal (status 400) that leaves the console as it was.\<close>

definition inert :: "'a api \<times> 's DemoState \<Rightarrow> 's DemoState \<Rightarrow> bool" where
  "inert r ds \<longleftrightarrow> (case fst r of Inl (ApiError c m) \<Rightarrow> c = 400 \<longrightarrow> snd r = ds | Inr _ \<Rightarrow> True)"

lemma inert_simps [simp]:
  "inert (Inr x, ds') ds"
  "inert (Inl e, ds) ds"
  by (simp_all add: inert_def split: ApiError.split)

lemma inert_api_error [simp]: "inert (Inl (api_error e), ds') ds \<longleftrightarrow> ((\<exists>x. e = InvalidConfig x) \<longrightarrow> ds' = ds)"
  by (auto simp: inert_def api_error_def split: error.splits)

lemma inert_map [simp]: "inert (map_sum api_error f r, ds') ds \<longleftrightarrow> ((\<exists>x. r = Inl (InvalidConfig x)) \<longrightarrow> ds' = ds)"
  by (cases r) auto

lemma store_same [simp]: "ds\<lparr>ds_store := ds_store ds\<rparr> = ds"
  by simp

lemma invoke_error: "invoke d msg P s = (Inl e, t) \<Longrightarrow> e = Backend msg"
  using invoke_Inl [of d msg P s] by simp

lemmas no_config_defs =
  try_lock_with_def unlock_with_token_def extend_with_token_def force_unlock_def query_def try_lock_reentrant_def
  try_read_def try_write_def try_acquire_def try_lock_fair_def try_lock_fair_as_def set_testament_def read_testament_def

text \<open>With a lease the console clamps, the only configuration errors come before the store is asked.\<close>

lemma no_config_error:
  "validate o' = Inr () \<Longrightarrow> try_lock_with exec d mgr tok key o' s \<noteq> (Inl (InvalidConfig x), t)"
  "unlock_with_token exec d key tok s \<noteq> (Inl (InvalidConfig x), t)"
  "force_unlock exec d key s \<noteq> (Inl (InvalidConfig x), t)"
  "extend_with_token exec d key tok (clamp_ttl q) s \<noteq> (Inl (InvalidConfig x), t)"
  "try_lock_reentrant exec d key owner (demo_options q) s \<noteq> (Inl (InvalidConfig x), t)"
  "try_read exec d tok key (demo_options q) s \<noteq> (Inl (InvalidConfig x), t)"
  "try_write exec d tok key (demo_options q) s \<noteq> (Inl (InvalidConfig x), t)"
  "try_acquire exec d sem tok (demo_options q) s \<noteq> (Inl (InvalidConfig x), t)"
  "try_lock_fair fuel exec d key tok (demo_options q) s \<noteq> (Inl (InvalidConfig x), t)"
  "set_testament exec d key tok ttl payload s \<noteq> (Inl (InvalidConfig x), t)"
  "read_testament exec d key s \<noteq> (Inl (InvalidConfig x), t)"
  using clamp_ttl_range(1) [of q]
  by (auto simp: no_config_defs dest: invoke_error split: sum.splits prod.splits if_splits reply.splits)

lemma no_config_release:
  "release_one exec d h s \<noteq> (Inl (InvalidConfig x), h', t)"
  "Reentrant.release_all exec d h s \<noteq> (Inl (InvalidConfig x), h', t)"
  "rw_read_release exec d w s \<noteq> (Inl (InvalidConfig x), w', t)"
  "rw_write_release exec d w s \<noteq> (Inl (InvalidConfig x), w', t)"
  "permit_release exec d p s \<noteq> (Inl (InvalidConfig x), p', t)"
  "fair_release exec d f s \<noteq> (Inl (InvalidConfig x), f', t)"
  "handle_release exec d g s \<noteq> (Inl (InvalidConfig x), g', t)"
  by (auto simp: release_one_def release_all_def rw_read_release_def rw_write_release_def permit_release_def fair_release_def
      handle_release_def run_release_def re_lost_def rw_lost_def pm_lost_def fa_lost_def handle_lost_def
      dest: invoke_error split: sum.splits prod.splits if_splits bool.splits)

lemma release_each_config: "release_each exec r hs s \<noteq> (Some (InvalidConfig x), hs', t)"
  by (induction hs arbitrary: s hs' t) (auto simp: no_config_release split: prod.splits sum.splits option.splits)

lemma try_lock_all_config:
  "try_lock_all exec mgr now keys (demo_options q) wait rs s = Inr (Some (Inl (InvalidConfig x), t)) \<Longrightarrow> t = s"
proof -
  have aborted: "lock_round exec mgr o' r ks hs u \<noteq> (Aborted (InvalidConfig x), v)" if "validate o' = Inr ()" for r o' ks hs u v
    using that by (induction ks arbitrary: hs u) (auto simp: no_config_error split: prod.splits sum.splits error.splits)
  have rolled: "lock_round exec mgr o' r ks hs u \<noteq> (RolledBack (InvalidConfig x), v)" for r o' ks hs u v
    by (induction ks arbitrary: hs u) (auto split: prod.splits sum.splits error.splits)
  have "try_lock_all_loop exec mgr (demo_options q) ks dl rs u \<noteq> Some (Inl (InvalidConfig x), v)" for ks dl u v
    by (induction rs arbitrary: u) (auto simp: aborted rolled split: prod.splits round_result.splits error.splits if_splits)
  then show "try_lock_all exec mgr now keys (demo_options q) wait rs s = Inr (Some (Inl (InvalidConfig x), t)) \<Longrightarrow> t = s"
    by (auto simp: try_lock_all_def Let_def map_sum_eq_Inr split: if_splits)
qed

lemma latch_create_config: "latch_create exec d key n s = (Inl (InvalidConfig x), t) \<Longrightarrow> t = s"
  by (auto simp: latch_create_def dest: invoke_error split: sum.splits prod.splits)

lemma no_config_read:
  "latch_count exec d key s \<noteq> (Inl (InvalidConfig x), t)"
  "count_down exec d key s \<noteq> (Inl (InvalidConfig x), t)"
  "describe_key exec d mid mid' key s \<noteq> (Inl (InvalidConfig x), t)"
  by (auto simp: latch_count_def count_down_def eval_remaining_def describe_key_def dest: invoke_error split: sum.splits prod.splits)

lemma scan_held_config: "scan_held exec d as out s \<noteq> Some (Inl (InvalidConfig x), t)"
  by (induction as arbitrary: out s) (auto split: option.splits prod.splits if_splits)

lemma build_guard_preds: "build_guard pf ps g = Inr g' \<Longrightarrow> ps \<noteq> [] \<or> sg_preds g \<noteq> [] \<Longrightarrow> sg_preds g' \<noteq> []"
  by (induction ps arbitrary: g)
    (auto simp: field_equals_def field_gt_def field_absent_def split: if_splits option.splits)

lemma semantic_config: "sg_preds g \<noteq> [] \<Longrightarrow> semantic_acquire tn exec d tok g s \<noteq> (Inl (InvalidConfig x), t)"
  by (auto simp: semantic_acquire_def dest: invoke_error split: sum.splits prod.splits if_splits)

lemma acquire_options_valid [simp]: "validate (with_safety_policy p (with_watchdog w (demo_options t))) = Inr ()"
  using demo_options_valid [of t] by (simp add: validate_def with_safety_policy_def with_watchdog_def)

lemma session_lost_status: "inert (Inl (ApiError 404 m), ds') ds"
  by (simp add: inert_def)

lemmas inert_splits = sum.split prod.split option.split error.split bool.split if_split

lemma mutex_inert:
  "inert (demo_acquire exec d d' mid now el tok req ds) ds"
  "inert (demo_release exec d el key tok ds) ds"
  "inert (demo_describe exec d mid mid' key ds) ds"
  "inert (demo_extend exec d key tok ms ds) ds"
  "inert (demo_force_unlock exec d key ds) ds"
  by (auto simp: demo_acquire_def demo_release_def demo_describe_def demo_extend_def demo_force_unlock_def Let_def no_config_error
      no_config_read session_lost_status split: inert_splits)

lemma stored_inert:
  "inert (reentrant_acquire uuid exec d d' mid fresh key ttl owner ds) ds"
  "inert (reentrant_release exec d key owner' all' ds) ds"
  "inert (rw_read exec d d' mid tok key ttl ds) ds"
  "inert (rw_write exec d d' mid tok key ttl ds) ds"
  "inert (rw_release exec d key f mode ds) ds"
  "inert (semaphore_acquire exec d d' mid tok key n ttl ds) ds"
  "inert (semaphore_release exec d key f ds) ds"
  "inert (demo_fair_lock fuel exec d d' mid fresh key ttl ds) ds"
  "inert (demo_fair_release exec d key f ds) ds"
  "inert (multi_release exec r mid' ds) ds"
  by (auto simp: reentrant_acquire_def reentrant_release_def rw_read_def rw_write_def rw_release_def semaphore_acquire_def
      semaphore_release_def demo_fair_lock_def demo_fair_release_def multi_release_def multi_release_all_def Let_def no_config_error
      no_config_release release_each_config split: inert_splits)

lemma other_inert:
  "inert (demo_latch_create exec d d' mid key n ds) ds"
  "inert (demo_latch_count_down exec d d' mid key ds) ds"
  "inert (demo_latch_count exec d d' mid key ds) ds"
  "inert (demo_semantic_acquire pf tn exec d d' mid mid1 mid2 el tok key ttl preds ds) ds"
  "inert (testament_set exec d key tok ttl payload ds) ds"
  "inert (testament_read lossy exec d key ds) ds"
  by (auto simp: demo_latch_create_def demo_latch_count_down_def demo_latch_count_def with_latch_def demo_semantic_acquire_def
      testament_set_def testament_read_def Let_def no_config_error no_config_read semantic_config
      dest!: latch_create_config dest: build_guard_preds split: inert_splits)

lemma data_inert:
  "inert (on_data (semantic_set_data exec dialed d key field val) ds) ds"
  "inert (on_data (semantic_get_data exec dialed d key) ds) ds"
  by (auto simp: on_data_def semantic_set_data_def semantic_get_data_def query_def dest: invoke_error
      split: sum.split prod.split option.split reply.split if_split)

lemma multi_inert: "multi_lock exec now rs r' mid' keys ttl wait ds = Inr (Some r) \<Longrightarrow> inert r ds"
  by (auto simp: multi_lock_def Let_def dest: try_lock_all_config split: if_splits sum.splits option.splits prod.splits error.splits)

lemma latch_wait_inert: "demo_latch_wait exec d now as key timeout ds = Inr (Some r) \<Longrightarrow> inert r ds"
  by (auto simp: demo_latch_wait_def Let_def map_sum_eq_Inr dest!: latch_create_config split: sum.splits prod.splits option.splits)

lemma listing_inert: "demo_list_locks exec dk scans pre ds = Some r \<Longrightarrow> inert r ds"
  by (auto simp: demo_list_locks_def scan_held_config)

lemma answer_refused: "answer f r = Inr (Some (Inl (ApiError 400 m), ds')) \<Longrightarrow> inert r ds \<Longrightarrow> ds' = ds"
  by (cases r) (auto simp: answer_def inert_def split: sum.splits)

lemma always_inert: "inert (always r) ds"
  by (simp add: always_def)

lemma answer_wait_refused:
  "answer_wait f w = Inr (Some (Inl (ApiError 400 m), ds')) \<Longrightarrow> (\<And>r. w = Inr (Some r) \<Longrightarrow> inert r ds) \<Longrightarrow> ds' = ds"
  by (cases w) (auto simp: answer_wait_def inert_def map_sum_eq_Inr split: sum.splits)

text \<open>Property C29. Refused requests do nothing. Whatever the request, the state of the console, the store and the network, and whatever others
  do meanwhile: when the console answers with status 400, neither its books (sessions, stored handles, pressure index) nor
  the store nor the protected data have changed.\<close>

theorem bad_requests_inert:
  assumes "demo_serve exec lib e req ds = Inr (Some (Inl (ApiError 400 m), ds'))"
  shows "ds' = ds"
  using assms
proof (cases req)
  case (ReqLocks q)
  then show ?thesis using assms listing_inert by (auto elim!: answer_wait_refused)
next
  case (ReqMultiLock q)
  then show ?thesis using assms multi_inert by (auto elim!: answer_wait_refused)
next
  case (ReqLatchWait q)
  then show ?thesis using assms latch_wait_inert by (auto elim!: answer_wait_refused)
qed (auto elim!: answer_refused intro: mutex_inert stored_inert other_inert data_inert always_inert)

definition ex_http :: "mem http_env" where
  "ex_http = \<lparr>he_delivery = Delivered, he_delivery2 = Delivered, he_mid = id, he_mid1 = id, he_mid2 = id, he_now = 0, he_now2 = 0,
     he_elapsed = 0, he_fresh = ''t'', he_fuel = 9, he_dialed = True, he_attempts = [], he_rounds = [], he_round = ex_round,
     he_scan = [], he_per_key = (\<lambda>_. Delivered), he_per_lock = (\<lambda>_. Delivered)\<rparr>"

definition ex_libs :: libs where
  "ex_libs = \<lparr>lib_ln = id, lib_uuid = Some, lib_f64 = (\<lambda>_. None), lib_tonumber = (\<lambda>_. None), lib_lossy = id\<rparr>"

theorem bad_requests_inert_witness:
  "\<exists>m ds'. demo_serve mem_exec ex_libs ex_http (ReqSemaphoreAcquire \<lparr>sq_key = ''s'', sq_max_permits = 0, sq_ttl_ms = None\<rparr>) ex_console =
     Inr (Some (Inl (ApiError 400 m), ds')) \<and> ds' = ex_console"
proof -
  obtain m ds' where r: "demo_serve mem_exec ex_libs ex_http
      (ReqSemaphoreAcquire \<lparr>sq_key = ''s'', sq_max_permits = 0, sq_ttl_ms = None\<rparr>) ex_console = Inr (Some (Inl (ApiError 400 m), ds'))"
    by (simp add: answer_def semaphore_acquire_def semaphore_def api_error_def)
  from bad_requests_inert [OF this] r show ?thesis by blast
qed

section \<open>The protected data\<close>

lemma field_pairs_concat: "field_pairs (concat (map (\<lambda>(f, v). [f, v]) h)) = h"
  by (induction h) auto

text \<open>What is written to the protected data is what is read back, and the other fields stay.\<close>

lemma data_roundtrip:
  assumes "redis_server exec ks clock pass" "ks s key = None \<or> (\<exists>h e. ks s key = Some (VHash h, e))"
  shows "\<exists>fs t. semantic_get_data exec True Delivered key (snd (semantic_set_data exec True Delivered key field val s)) = (Inr fs, t) \<and>
    map_of fs field = Some val \<and>
    (\<forall>f. f \<noteq> field \<longrightarrow> map_of fs f = (case ks s key of Some (VHash h, _) \<Rightarrow> map_of h f | _ \<Rightarrow> None))"
proof -
  let ?t = "snd (semantic_set_data exec True Delivered key field val s)"
  let ?h = "case ks s key of Some (VHash h, _) \<Rightarrow> h | _ \<Rightarrow> []"
  note exec_simps = query_def invoke_def split_beta redis_server.lcall_simps [OF assms(1)] redis_simps with_hash_def
  have t: "\<exists>e. ks ?t key = Some (VHash (AList.update field val ?h), e)"
    using assms(2) by (auto simp: semantic_set_data_def exec_simps put_hash_def)
  then have "\<exists>u. semantic_get_data exec True Delivered key ?t = (Inr (AList.update field val ?h), u)"
    by (auto simp: semantic_get_data_def exec_simps field_pairs_concat)
  then show ?thesis using assms(2) by (auto simp: update_conv)
qed

section \<open>The process\<close>

record DemoArgs =
  da_redis_url :: string
  da_listen :: string

definition demo_args_default :: DemoArgs where
  "demo_args_default = \<lparr>da_redis_url = ''redis://127.0.0.1:6379'', da_listen = ''0.0.0.0:8080''\<rparr>"

text \<open>The address of the protected data comes from the environment, not from the command line; an address that does not parse
  ends the process. \<open>data\<close> is the server found there, \<open>None\<close> for the lock server itself.\<close>

definition data_url :: "string option \<Rightarrow> string" where
  "data_url var = (case var of None \<Rightarrow> ''redis://127.0.0.1:6379'' | Some u \<Rightarrow> u)"

definition demo_run ::
  "(string \<Rightarrow> duration \<Rightarrow> connection) \<Rightarrow> (string \<Rightarrow> bool) \<Rightarrow> (string \<Rightarrow> bool) \<Rightarrow> (string \<Rightarrow> 's option) \<Rightarrow> string option \<Rightarrow> nat \<Rightarrow> DemoArgs \<Rightarrow> 's \<Rightarrow>
   panic + 's DemoState result" where
  "demo_run dial valid_url bind data var now args s =
     (case redis_connect dial (redis_config_new (da_redis_url args)) of
        Inl e \<Rightarrow> Inr (Inl e)
      | Inr mgr \<Rightarrow>
          if \<not> valid_url (data_url var) then Inl (Panic ''valid redis url for data simulator'')
          else if \<not> bind (da_listen args) then Inr (Inl (Backend (''bind '' @ da_listen args)))
          else Inr (Inr (demo_new mgr now s (data (data_url var)))))"

text \<open>Requests are steps of the console, so what holds in its reachable states holds of the running process.\<close>

lemma run_starts: "demo_run dial valid_url bind data var now args s = Inr (Inr ds) \<Longrightarrow> console_reach exec ds"
  by (auto simp: demo_run_def intro: console_reach.start split: sum.splits if_splits)

lemma answer_state: "answer f r = Inr (Some (x, ds')) \<Longrightarrow> ds' = snd r"
  by (simp add: answer_def)

lemma answer_wait_state: "answer_wait f w = Inr (Some (x, ds')) \<Longrightarrow> \<exists>y. w = Inr (Some (y, ds'))"
  by (auto simp: answer_wait_def map_sum_eq_Inr)

lemma console_step_refl: "console_step exec ds ds"
  using console_step.environment [where exec = exec and ds = ds and s = "ds_store ds" and h = "ds_hub ds" and data = "ds_data ds"] by simp

lemma serve_is_step:
  assumes "demo_serve exec lib e req ds = Inr (Some (r, ds'))"
  shows "console_step exec ds ds'"
  using assms
proof (cases req)
  case (ReqLocks q)
  then show ?thesis using assms by (auto dest!: answer_wait_state intro: console_step.listing)
next
  case (ReqMultiLock q)
  then show ?thesis using assms by (auto dest!: answer_wait_state intro: console_step.multi)
next
  case (ReqLatchWait q)
  then show ?thesis using assms by (auto dest!: answer_wait_state intro: console_step.latch_wait)
qed (auto simp: always_def dest!: answer_state intro: console_step.intros console_step_refl)

lemma served_console_reach:
  "console_reach exec ds \<Longrightarrow> demo_serve exec lib e req ds = Inr (Some (r, ds')) \<Longrightarrow> console_reach exec ds'"
  by (blast intro: console_reach.step serve_is_step)

end
