(* ===== verification/Server.thy ===== *)
theory Server
  imports Service Config
begin

text \<open>
  The server process (\<^verbatim>\<open>src/crates/server/src/main.rs\<close>): from the command line to a running service, and from
  the termination signal to the end. The outside world at start-up (the store, files, the ACL parser, TLS, the listening
  socket, the metrics recorder) is one record of functions; the process is a step relation over the steps of the service,
  the signal and the passing of the grace period.
\<close>

section \<open>Command line\<close>

record Args =
  ar_redis_url :: string
  ar_listen :: string
  ar_max_ttl_secs :: u64
  ar_tls_cert :: "string option"
  ar_tls_key :: "string option"
  ar_client_ca :: "string option"
  ar_drain_grace_secs :: u64
  ar_metrics_addr :: "string option"
  ar_acl_file :: "string option"
  ar_auth_mode :: "string option"

definition args_default :: Args where
  "args_default = \<lparr>ar_redis_url = ''redis://127.0.0.1:6379'', ar_listen = ''0.0.0.0:50051'', ar_max_ttl_secs = 600,
     ar_tls_cert = None, ar_tls_key = None, ar_client_ca = None, ar_drain_grace_secs = 10, ar_metrics_addr = None,
     ar_acl_file = None, ar_auth_mode = None\<rparr>"

text \<open>The \<^verbatim>\<open>requires\<close> attributes: an option that is given asks for another.\<close>

definition args_accepted :: "Args \<Rightarrow> bool" where
  "args_accepted a \<longleftrightarrow>
     (ar_tls_cert a \<noteq> None \<longrightarrow> ar_tls_key a \<noteq> None) \<and>
     (ar_tls_key a \<noteq> None \<longrightarrow> ar_tls_cert a \<noteq> None) \<and>
     (ar_client_ca a \<noteq> None \<longrightarrow> ar_tls_cert a \<noteq> None) \<and>
     (ar_auth_mode a \<noteq> None \<longrightarrow> ar_acl_file a \<noteq> None)"

definition auth_mode :: "Args \<Rightarrow> string" where
  "auth_mode a = (case ar_auth_mode a of None \<Rightarrow> ''file'' | Some m \<Rightarrow> m)"

section \<open>Start-up\<close>

record TlsSetup =
  tls_cert_pem :: string
  tls_key_pem :: string
  tls_client_ca :: "string option"

record StartEnv =
  se_open :: "string \<Rightarrow> duration \<Rightarrow> connection"
  se_read :: "string \<Rightarrow> string option"
  se_parse_acl :: "string \<Rightarrow> PrincipalConfig list option"
  se_tls_accepts :: "TlsSetup \<Rightarrow> bool"
  se_bind :: "string \<Rightarrow> bool"
  se_recorder :: bool

type_synonym 'a startup = "string + 'a"

definition read_pem :: "StartEnv \<Rightarrow> string \<Rightarrow> string startup" where
  "read_pem env path = (case se_read env path of None \<Rightarrow> Inl (''cannot read '' @ path) | Some c \<Rightarrow> Inr c)"

definition startup_service :: "StartEnv \<Rightarrow> Args \<Rightarrow> 's \<Rightarrow> 's PalisadeService startup" where
  "startup_service env args store =
     (case redis_connect (se_open env) (redis_config_new (ar_redis_url args)) of
        Inl e \<Rightarrow> Inl (''redis connect failed: '' @ error_display e)
      | Inr mgr \<Rightarrow>
          let service = service_new mgr (service_config_default\<lparr>sc_max_ttl := from_secs (unat (ar_max_ttl_secs args))\<rparr>) store in
          (case ar_acl_file args of
             None \<Rightarrow> Inr service
           | Some path \<Rightarrow>
               (case acl_load_file (se_read env) (se_parse_acl env) path of
                  Inl e \<Rightarrow> Inl (error_display e)
                | Inr acl \<Rightarrow>
                    Inr (with_acl (if auth_mode args = ''trusted-header'' then with_mode TrustedHeader acl else acl) service))))"

definition startup_tls :: "StartEnv \<Rightarrow> Args \<Rightarrow> TlsSetup option startup" where
  "startup_tls env args =
     (case (ar_tls_cert args, ar_tls_key args) of
        (Some cert, Some key) \<Rightarrow>
          rbind (read_pem env cert) (\<lambda>c.
          rbind (read_pem env key) (\<lambda>k.
          rbind (case ar_client_ca args of None \<Rightarrow> Inr None | Some ca \<Rightarrow> rbind (read_pem env ca) (\<lambda>p. Inr (Some p))) (\<lambda>ca.
            let tls = \<lparr>tls_cert_pem = c, tls_key_pem = k, tls_client_ca = ca\<rparr> in
            if se_tls_accepts env tls then Inr (Some tls) else Inl ''invalid tls configuration'')))
      | _ \<Rightarrow> Inr None)"

datatype phase = Running | Draining nat | Stopped

record 's ServerProcess =
  sp_service :: "'s PalisadeService"
  sp_tls :: "TlsSetup option"
  sp_serving :: bool
  sp_metrics :: "string option"
  sp_grace :: duration
  sp_phase :: phase

definition server_start :: "StartEnv \<Rightarrow> Args \<Rightarrow> 's \<Rightarrow> 's ServerProcess startup" where
  "server_start env args store =
     rbind (startup_service env args store) (\<lambda>service.
     rbind (startup_tls env args) (\<lambda>tls.
     if \<not> se_bind env (ar_listen args) then Inl ''cannot bind''
     else if ar_metrics_addr args \<noteq> None \<and> \<not> se_recorder env then Inl ''cannot install recorder''
     else Inr \<lparr>sp_service = service, sp_tls = tls, sp_serving = True, sp_metrics = ar_metrics_addr args,
       sp_grace = from_secs (unat (ar_drain_grace_secs args)), sp_phase = Running\<rparr>))"

section \<open>Serving and draining\<close>

text \<open>The shutdown task: on the signal readiness is withdrawn, first in the service, then in the health reports, and
  the listener goes on until the grace period has passed.\<close>

definition drain_signal :: "nat \<Rightarrow> 's ServerProcess \<Rightarrow> 's ServerProcess" where
  "drain_signal now p =
     p\<lparr>sp_service := set_ready False (sp_service p), sp_serving := False, sp_phase := Draining (now + sp_grace p)\<rparr>"

inductive server_step :: "'s server \<Rightarrow> 's ServerProcess \<Rightarrow> 's ServerProcess \<Rightarrow> bool" for exec where
  serve: "sp_phase p \<noteq> Stopped \<Longrightarrow> svc_step exec (sp_service p) sv \<Longrightarrow> sv_ready sv = sv_ready (sp_service p) \<Longrightarrow>
    server_step exec p (p\<lparr>sp_service := sv\<rparr>)"
| signalled: "sp_phase p = Running \<Longrightarrow> server_step exec p (drain_signal now p)"
| shut_down: "sp_phase p = Draining t \<Longrightarrow> t \<le> now \<Longrightarrow> server_step exec p (p\<lparr>sp_phase := Stopped\<rparr>)"

inductive server_reach :: "'s server \<Rightarrow> StartEnv \<Rightarrow> Args \<Rightarrow> 's ServerProcess \<Rightarrow> bool" for exec env args where
  started: "server_start env args store = Inr p \<Longrightarrow> server_reach exec env args p"
| step: "server_reach exec env args p \<Longrightarrow> server_step exec p q \<Longrightarrow> server_reach exec env args q"

text \<open>The answer of the metrics endpoint, whatever was asked.\<close>

definition metrics_response :: "string \<Rightarrow> string" where
  "metrics_response body = (let crlf = [CHR 0x0D, CHR 0x0A] in
     ''HTTP/1.1 200 OK'' @ crlf @ ''content-type: text/plain; version=0.0.4'' @ crlf @
     ''content-length: '' @ show_nat (length body) @ crlf @ ''connection: close'' @ crlf @ crlf @ body)"

section \<open>What the steps of the service keep\<close>

lemma hand_over_fixed:
  "sv_acl (snd (hand_over exec d mid now p opts req h sv)) = sv_acl sv"
  "sv_config (snd (hand_over exec d mid now p opts req h sv)) = sv_config sv"
  by (auto simp: hand_over_def Let_def split: bool.splits prod.splits)

lemma svc_step_fixed: "svc_step exec sv sv' \<Longrightarrow> sv_acl sv' = sv_acl sv \<and> sv_config sv' = sv_config sv"
proof (induction rule: svc_step.induct)
  case (lock sv d d' mid now tok b req)
  then show ?case
    by (auto simp: svc_try_lock_def hand_over_fixed split: sum.splits prod.splits error.splits)
next
  case (lock_for as d' mid now now' b req wait sv res sv')
  have "sv_acl sv' = sv_acl sv \<and> sv_config sv' = sv_config sv" if "hand_over exec d' mid now' p opts req h (sv\<lparr>sv_store := s\<rparr>) = (res, sv')" for p opts h s
    using hand_over_fixed [of exec d' mid now' p opts req h "sv\<lparr>sv_store := s\<rparr>"] that by simp
  with lock_for show ?case
    by (auto simp: svc_try_lock_for_def split: sum.splits prod.splits error.splits option.splits)
qed (auto simp: svc_unlock_def svc_extend_def svc_watch_def watch_ended_def svc_register_session_def svc_heartbeat_def
    svc_close_session_def svc_describe_key_def svc_unlock_force_def svc_list_locks_def svc_sweep_def set_ready_def Let_def
    split: sum.splits prod.splits option.splits)

text \<open>A grant is handed over whether or not the server has begun to drain: readiness is only checked when a
  request is admitted, so one that is waiting at that moment may still be granted.\<close>

lemma hand_over_ignores_drain:
  "hand_over exec d mid now p opts req h (set_ready False sv) =
     (let (r, sv') = hand_over exec d mid now p opts req h sv in (r, set_ready False sv'))"
  by (auto simp: hand_over_def set_ready_def Let_def split: bool.splits prod.splits)

section \<open>The life of the process\<close>

definition acl_as_configured :: "Args \<Rightarrow> Acl \<Rightarrow> bool" where
  "acl_as_configured args acl \<longleftrightarrow>
     (if ar_acl_file args = None then acl = acl_open_mode
      else \<not> acl_open acl \<and> acl_mode acl = (if auth_mode args = ''trusted-header'' then TrustedHeader else File))"

definition process_ok :: "Args \<Rightarrow> 's ServerProcess \<Rightarrow> bool" where
  "process_ok args p \<longleftrightarrow>
     (sv_ready (sp_service p) \<longleftrightarrow> sp_phase p = Running) \<and> (sp_serving p \<longleftrightarrow> sp_phase p = Running) \<and>
     acl_as_configured args (sv_acl (sp_service p)) \<and>
     sc_max_ttl (sv_config (sp_service p)) = from_secs (unat (ar_max_ttl_secs args)) \<and>
     (sp_tls p \<noteq> None \<longleftrightarrow> ar_tls_cert args \<noteq> None) \<and>
     ((\<exists>tls. sp_tls p = Some tls \<and> tls_client_ca tls \<noteq> None) \<longleftrightarrow> ar_client_ca args \<noteq> None)"

lemma startup_service_ok:
  assumes "startup_service env args store = Inr sv"
  shows "sv_ready sv \<and> acl_as_configured args (sv_acl sv) \<and> sc_max_ttl (sv_config sv) = from_secs (unat (ar_max_ttl_secs args))"
  using assms
  by (auto simp: startup_service_def acl_as_configured_def Let_def service_new_def with_acl_def with_mode_def acl_load_file_def
      elim: acl_from_json_loaded split: sum.splits option.splits)

lemma startup_tls_ok:
  assumes "startup_tls env args = Inr tls" "args_accepted args"
  shows "(tls \<noteq> None \<longleftrightarrow> ar_tls_cert args \<noteq> None) \<and> ((\<exists>t. tls = Some t \<and> tls_client_ca t \<noteq> None) \<longleftrightarrow> ar_client_ca args \<noteq> None)"
  using assms
  by (auto simp: startup_tls_def args_accepted_def rbind_def Let_def split: option.splits sum.splits if_splits)

lemma server_start_ok:
  assumes "server_start env args store = Inr p" "args_accepted args"
  shows "process_ok args p"
proof -
  obtain sv tls where "startup_service env args store = Inr sv" "startup_tls env args = Inr tls"
    "sp_service p = sv" "sp_tls p = tls" "sp_serving p" "sp_phase p = Running"
    using assms(1) by (auto simp: server_start_def rbind_def split: sum.splits if_splits)
  then show ?thesis using startup_service_ok startup_tls_ok [OF _ assms(2)] unfolding process_ok_def by metis
qed

lemma server_step_ok: "server_step exec p q \<Longrightarrow> process_ok args p \<Longrightarrow> process_ok args q"
proof (induction rule: server_step.induct)
  case (serve p sv)
  then show ?case using svc_step_fixed [OF serve(2)] by (simp add: process_ok_def)
qed (auto simp: process_ok_def drain_signal_def set_ready_def)

lemma server_reach_ok: "server_reach exec env args p \<Longrightarrow> args_accepted args \<Longrightarrow> process_ok args p"
  by (induction rule: server_reach.induct) (auto intro: server_start_ok server_step_ok)


definition ex_args :: Args where
  "ex_args = args_default\<lparr>ar_acl_file := Some ''acl.json'', ar_drain_grace_secs := 0\<rparr>"

definition ex_start_env :: StartEnv where
  "ex_start_env = \<lparr>se_open = (\<lambda>_ _. Connected), se_read = Some, se_parse_acl = (\<lambda>_. Some []), se_tls_accepts = (\<lambda>_. True),
     se_bind = (\<lambda>_. True), se_recorder = True\<rparr>"


end
