(* ===== verification/Exclusion.thy ===== *)
theory Exclusion
  imports Server
begin

text \<open>
  Mutual exclusion through the server: what the clients of \<^verbatim>\<open>service.rs\<close> may conclude from the answers they get.
  The mutex theory follows what each client may believe about one key; here the beliefs are drawn from the answers of the
  handlers, and every run of the service is shown to be a run of the mutex.

  The store of the service is paired with the beliefs of the clients, which no command reads or changes; so what others do
  while a handler waits (the arguments \<open>mid\<close> and \<open>at_env\<close>) can change beliefs too.
\<close>

type_synonym beliefs = "string \<Rightarrow> nat option"

definition with_beliefs :: "'s server \<Rightarrow> ('s \<times> beliefs) server" where
  "with_beliefs exec c x = (case exec c (fst x) of (r, s) \<Rightarrow> (r, (s, snd x)))"

definition pass_beliefs :: "(nat \<Rightarrow> 's \<Rightarrow> 's) \<Rightarrow> nat \<Rightarrow> 's \<times> beliefs \<Rightarrow> 's \<times> beliefs" where
  "pass_beliefs pass dt x = (pass dt (fst x), snd x)"

lemma believing_server:
  "redis_server exec ks clock pass \<Longrightarrow> redis_server (with_beliefs exec) (ks \<circ> fst) (clock \<circ> fst) (pass_beliefs pass)"
  by (auto simp: redis_server_def with_beliefs_def pass_beliefs_def split: prod.split) (metis fst_conv snd_conv)+

section \<open>Scripts keep beliefs\<close>

definition keeps :: "('s \<times> beliefs, 'a) lua \<Rightarrow> bool" where
  "keeps P \<longleftrightarrow> (\<forall>x. snd (snd (P x)) = snd x)"

named_theorems keeping

lemma keeps_prims [keeping]:
  "keeps (lret a)" "keeps (lraise e)" "keeps (lcall (with_beliefs exec) c)"
  by (auto simp: keeps_def lret_def lraise_def lcall_def with_beliefs_def split: prod.splits)

lemma keepsD: "keeps P \<Longrightarrow> P x = (r, y) \<Longrightarrow> snd y = snd x"
  unfolding keeps_def by (metis snd_conv)

lemma keeps_bind [keeping]:
  assumes "keeps m" "\<And>a. keeps (f a)"
  shows "keeps (lbind m f)"
  unfolding keeps_def
proof
  fix x
  obtain r y where y: "m x = (r, y)" by (rule prod.exhaust)
  with assms(1) have "snd y = snd x" by (rule keepsD)
  then show "snd (snd (lbind m f x)) = snd x"
    using assms(2) y by (cases r) (simp_all add: lbind_def keeps_def del: split_paired_All)
qed

lemma keeps_need [keeping]: "(\<And>x. keeps (f x)) \<Longrightarrow> keeps (need a f)"
  by (cases a) (auto simp: need_def intro: keeping)

lemma keeps_if [keeping]: "keeps P \<Longrightarrow> keeps Q \<Longrightarrow> keeps (if b then P else Q)"
  by simp

lemma keeps_calls [keeping]:
  "keeps (call1 (with_beliefs exec) f1 a)" "keeps (call2 (with_beliefs exec) f2 a b)" "keeps (call3 (with_beliefs exec) f3 a b c)"
  by (auto simp: call1_def call2_def call3_def intro!: keeping)

lemma scripts_keep:
  "keeps (acquire_lua (with_beliefs exec) KEYS ARGV)" "keeps (release_lua (with_beliefs exec) KEYS ARGV)"
  "keeps (extend_lua (with_beliefs exec) KEYS ARGV)"
  unfolding acquire_lua_def release_lua_def extend_lua_def by (intro keeping)+

lemma invoke_keeps: "keeps P \<Longrightarrow> snd (snd (invoke d msg P x)) = snd x"
  using invoke_state [of d msg P x] by (auto simp: keeps_def simp del: split_paired_All)

section \<open>Moves\<close>

text \<open>A store and the beliefs about one key move as clients of the mutex make them move: by operations on the key, by time and by
  anything that leaves the key and its counter alone.\<close>

definition moves ::
  "'s server \<Rightarrow> ('s \<Rightarrow> keyspace) \<Rightarrow> ('s \<Rightarrow> nat) \<Rightarrow> (nat \<Rightarrow> 's \<Rightarrow> 's) \<Rightarrow> string \<Rightarrow> 's \<times> beliefs \<Rightarrow> 's \<times> beliefs \<Rightarrow> bool" where
  "moves exec ks clock pass k x y \<longleftrightarrow>
     (\<forall>c. srv c = x \<and> belief c = snd x \<longrightarrow>
        (\<exists>c'. (mutex_step (with_beliefs exec) (ks \<circ> fst) (clock \<circ> fst) (pass_beliefs pass) k)\<^sup>*\<^sup>* c c' \<and>
           srv c' = y \<and> belief c' = snd y))"

text \<open>The keys whose operations leave \<open>k\<close> and its counter alone.\<close>

definition apart :: "string \<Rightarrow> string \<Rightarrow> bool" where
  "apart k j \<longleftrightarrow> j \<noteq> k \<and> j \<noteq> fence_key_for k \<and> fence_key_for j \<noteq> k"

lemma moves_refl [simp, intro]: "moves exec ks clock pass k x x"
  by (auto simp: moves_def)

lemma moves_trans [trans]:
  fixes exec :: "'s server"
  assumes "moves exec ks clock pass k x y" "moves exec ks clock pass k y z"
  shows "moves exec ks clock pass k x z"
  unfolding moves_def
proof (intro allI impI)
  fix c :: "('s \<times> beliefs) mutex_cfg" assume "srv c = x \<and> belief c = snd x"
  then obtain c' where c': "(mutex_step (with_beliefs exec) (ks \<circ> fst) (clock \<circ> fst) (pass_beliefs pass) k)\<^sup>*\<^sup>* c c'"
    "srv c' = y \<and> belief c' = snd y" using assms(1) unfolding moves_def by blast
  from c'(2) obtain c'' where "(mutex_step (with_beliefs exec) (ks \<circ> fst) (clock \<circ> fst) (pass_beliefs pass) k)\<^sup>*\<^sup>* c' c''"
    "srv c'' = z \<and> belief c'' = snd z" using assms(2) unfolding moves_def by blast
  with c'(1) show "\<exists>c'. (mutex_step (with_beliefs exec) (ks \<circ> fst) (clock \<circ> fst) (pass_beliefs pass) k)\<^sup>*\<^sup>* c c' \<and>
      srv c' = z \<and> belief c' = snd z" by (intro exI [of _ c'']) (simp add: rtranclp_trans [of _ c c' c''])
qed

text \<open>One step of the mutex, with the beliefs it leaves written beside the store.\<close>

lemma moves_step:
  fixes exec :: "'s server"
  assumes "\<And>c. srv c = x \<Longrightarrow> belief c = snd x \<Longrightarrow>
    \<exists>c'. mutex_step (with_beliefs exec) (ks \<circ> fst) (clock \<circ> fst) (pass_beliefs pass) k c c' \<and> fst (srv c') = s \<and> belief c' = g"
  shows "moves exec ks clock pass k x (s, g)"
  unfolding moves_def
proof (intro allI impI, elim conjE)
  fix c :: "('s \<times> beliefs) mutex_cfg" assume "srv c = x" "belief c = snd x"
  then obtain c' where c': "mutex_step (with_beliefs exec) (ks \<circ> fst) (clock \<circ> fst) (pass_beliefs pass) k c c'"
    "fst (srv c') = s" "belief c' = g" using assms by blast
  have "mutex_step (with_beliefs exec) (ks \<circ> fst) (clock \<circ> fst) (pass_beliefs pass) k c' (c'\<lparr>srv := (s, g)\<rparr>)"
    by (rule mutex_step.other_keys) (simp_all add: c'(2))
  with c' show "\<exists>c'. (mutex_step (with_beliefs exec) (ks \<circ> fst) (clock \<circ> fst) (pass_beliefs pass) k)\<^sup>*\<^sup>* c c' \<and>
      srv c' = (s, g) \<and> belief c' = snd (s, g)"
    by (intro exI [of _ "c'\<lparr>srv := (s, g)\<rparr>"]) (auto intro: rtranclp.rtrancl_into_rtrancl)
qed

lemma moves_time: "moves exec ks clock pass k x (pass dt (fst x), snd x)"
  by (rule moves_step, rule exI, rule conjI, rule mutex_step.time) (simp add: pass_beliefs_def)

lemma moves_apart:
  fixes exec :: "'s server"
  assumes "clock s = clock (fst x)" "ks s k = ks (fst x) k" "ks s (fence_key_for k) = ks (fst x) (fence_key_for k)"
  shows "moves exec ks clock pass k x (s, snd x)"
proof (rule moves_step)
  fix c :: "('s \<times> beliefs) mutex_cfg" assume "srv c = x" "belief c = snd x"
  then show "\<exists>c'. mutex_step (with_beliefs exec) (ks \<circ> fst) (clock \<circ> fst) (pass_beliefs pass) k c c' \<and> fst (srv c') = s \<and> belief c' = snd x"
    using mutex_step.other_keys [of "clock \<circ> fst" "(s, snd x)" c "ks \<circ> fst" k] assms
    by (intro exI [of _ "c\<lparr>srv := (s, snd x)\<rparr>"]) simp
qed

text \<open>The operations on the key.\<close>

lemma moves_unlock:
  assumes "unlock_with_token (with_beliefs exec) d k tok x = (r, x')"
  shows "moves exec ks clock pass k x (fst x', (snd x)(tok := None))"
  by (rule moves_step, rule exI, rule conjI, rule mutex_step.unlocked) (use assms in simp_all)

lemma moves_forget: "moves exec ks clock pass k x (fst x, (snd x)(tok := None))"
  using moves_unlock [of exec NotSent k tok x "Inl (Backend ''unlock failed'')" x ks clock pass]
  by (simp add: unlock_with_token_def invoke_def)

lemma moves_release:
  assumes "handle_release (with_beliefs exec) d h x = (r, h', x')" "hs_key h = k" "hs_fence_key h = fence_key_for k"
  shows "moves exec ks clock pass k x (fst x', (snd x)(hs_token h := None))"
  by (rule moves_step, rule exI, rule conjI, rule mutex_step.release) (use assms in simp_all)

lemma moves_grant:
  assumes "try_lock_with (with_beliefs exec) d mgr tok k opts x = (Inr h, x')" "snd x tok = None" "as_millis (lo_ttl opts) < 2 ^ 64"
  shows "moves exec ks clock pass k x (fst x', (snd x)(tok \<mapsto> clock (fst x) + as_millis (lo_ttl opts)))"
  by (rule moves_step, rule exI, rule conjI, rule mutex_step.grant) (use assms in \<open>simp_all add: lease_end_def\<close>)

lemma moves_refused:
  assumes "try_lock_with (with_beliefs exec) d mgr tok k opts x = (Inl e, x')" "snd x tok = None"
  shows "moves exec ks clock pass k x (fst x', snd x)"
  by (rule moves_step, rule exI, rule conjI, rule mutex_step.no_grant) (use assms in simp_all)

text \<open>An extension under a token is the one a handle with that token makes.\<close>

lemma extend_as_handle:
  assumes "MIN_TTL \<le> ttl"
  shows "snd (extend_with_token exec d k tok ttl s) = snd (fire_extend exec d (build_handle_from_parts k tok f ttl) ttl s)"
    and "fst (extend_with_token exec d k tok ttl s) = Inr b \<longleftrightarrow>
      fst (fire_extend exec d (build_handle_from_parts k tok f ttl) ttl s) = Inr b"
  using assms
  by (auto simp: extend_with_token_def fire_extend_def build_handle_from_parts_def invoke_def
      split: delivery.splits prod.splits sum.splits)

definition extended_beliefs :: "bool result \<Rightarrow> string \<Rightarrow> nat \<Rightarrow> beliefs \<Rightarrow> beliefs" where
  "extended_beliefs r tok until g = (if r = Inr True then g(tok \<mapsto> until) else g(tok := map_option (min until) (g tok)))"

lemma moves_extend:
  assumes "extend_with_token (with_beliefs exec) d k tok ttl x = (r, x')" "MIN_TTL \<le> ttl" "as_millis ttl < 2 ^ 64"
  shows "moves exec ks clock pass k x (fst x', extended_beliefs r tok (clock (fst x) + as_millis ttl) (snd x))"
proof -
  let ?h = "build_handle_from_parts k tok 0 ttl"
  obtain q where q: "fire_extend (with_beliefs exec) d ?h ttl x = (q, x')" and r: "r = Inr True \<longleftrightarrow> q = Inr True"
    using extend_as_handle [OF assms(2), of "with_beliefs exec" d k tok x] assms(1) by (metis prod.collapse prod.inject)
  show ?thesis
  proof (cases "q = Inr True")
    case True
    show ?thesis
      by (rule moves_step, rule exI, rule conjI, rule mutex_step.extended [where h = ?h and d = d and ttl = ttl and s' = x'])
        (use q r True assms(3) in \<open>simp_all add: build_handle_from_parts_def extended_beliefs_def lease_end_def\<close>)
  next
    case False
    show ?thesis
      by (rule moves_step, rule exI, rule conjI, rule mutex_step.not_extended [where h = ?h and d = d and ttl = ttl and s' = x' and r = q])
        (use q r False assms(3) in \<open>simp_all add: build_handle_from_parts_def extended_beliefs_def lease_end_def\<close>)
  qed
qed

text \<open>The operations keep the beliefs written beside the store.\<close>

lemma invoke_keepsD: "invoke d msg P x = (r, y) \<Longrightarrow> keeps P \<Longrightarrow> snd y = snd x"
  using invoke_keeps [of P d msg x] by simp

lemmas script_keepsD = invoke_keepsD [OF _ scripts_keep(1)] invoke_keepsD [OF _ scripts_keep(2)] invoke_keepsD [OF _ scripts_keep(3)]

lemma operations_keep:
  "try_lock_with (with_beliefs exec) d mgr tok j opts x = (r, y) \<Longrightarrow> snd y = snd x"
  "unlock_with_token (with_beliefs exec) d j tok x = (b, y) \<Longrightarrow> snd y = snd x"
  "extend_with_token (with_beliefs exec) d j tok ttl x = (b, y) \<Longrightarrow> snd y = snd x"
  "handle_release (with_beliefs exec) d h x = (u, h', y) \<Longrightarrow> snd y = snd x"
  by (auto simp: try_lock_with_def unlock_with_token_def extend_with_token_def handle_release_def mark_released_def run_release_def
      dest: script_keepsD split: sum.splits prod.splits if_splits bool.splits)

section \<open>Operations on other keys\<close>

context redis_server
begin

lemma extend_frame:
  assumes "x \<noteq> j" "x \<noteq> fj"
  shows "ks (snd (extend_lua exec [j, fj] [tok, a, b] s)) x = ks s x"
  using assms unfolding extend_lua_def
  by (auto simp: lua_simps ks_lcall pexpire_other doc_plain split: sum.splits option.splits rval.splits)

lemma scripts_elsewhere:
  assumes "x \<noteq> j" "x \<noteq> fence_key_for j" "s' \<in> {s, acq_state j tok ttl s, rel_state j tok s, ext_state j tok ttl s}"
  shows "ks s' x = ks s x \<and> clock s' = clock s"
  using assms acquire_frame [OF assms(1,2)] extend_frame [OF assms(1,2)]
  by (auto simp: rel_state_ks script_clock)

lemma operation_states:
  "try_lock_with exec d mgr tok j opts s = (r, t) \<Longrightarrow> t \<in> {s, acq_state j tok (lo_ttl opts) s}"
  "unlock_with_token exec d j tok s = (b, t) \<Longrightarrow> t \<in> {s, rel_state j tok s}"
  "extend_with_token exec d j tok ttl s = (b, t) \<Longrightarrow> t \<in> {s, ext_state j tok ttl s}"
  "handle_release exec d h s = (u, h', t) \<Longrightarrow> hs_fence_key h = fence_key_for (hs_key h) \<Longrightarrow> t \<in> {s, rel_state (hs_key h) (hs_token h) s}"
  using try_lock_with_state unlock_with_token_state handle_release_state
    invoke_state [of d "''extend failed''" "extend_lua exec [j, fence_key_for j] [tok, ttl_arg ttl, fence_ttl_arg ttl]" s]
  by (fastforce simp: extend_with_token_def split: sum.splits prod.splits if_splits)+

end

lemma moves_elsewhere:
  assumes "redis_server exec ks clock pass" "apart k j"
  shows "try_lock_with (with_beliefs exec) d mgr tok j opts x = (r, y) \<Longrightarrow> moves exec ks clock pass k x y"
    and "unlock_with_token (with_beliefs exec) d j tok x = (b, y) \<Longrightarrow> moves exec ks clock pass k x y"
    and "extend_with_token (with_beliefs exec) d j tok ttl x = (b, y) \<Longrightarrow> moves exec ks clock pass k x y"
    and "handle_release (with_beliefs exec) d h x = (u, h', y) \<Longrightarrow> hs_key h = j \<Longrightarrow> hs_fence_key h = fence_key_for j \<Longrightarrow>
      moves exec ks clock pass k x y"
proof -
  note B = believing_server [OF assms(1)]
  have ne: "k \<noteq> j" "k \<noteq> fence_key_for j" "fence_key_for k \<noteq> j" "fence_key_for k \<noteq> fence_key_for j"
    using assms(2) by (auto simp: apart_def)
  have go: "moves exec ks clock pass k x y" if "snd y = snd x"
    "y \<in> {x, snd (acquire_lua (with_beliefs exec) [j, fence_key_for j] [tok, ttl_arg t, fence_ttl_arg t] x),
       snd (release_lua (with_beliefs exec) [j, fence_key_for j] [tok] x),
       snd (extend_lua (with_beliefs exec) [j, fence_key_for j] [tok, ttl_arg t, fence_ttl_arg t] x)}" for t tok
    using redis_server.scripts_elsewhere [OF B ne(1,2) that(2)] redis_server.scripts_elsewhere [OF B ne(3,4) that(2)]
      moves_apart [of clock "fst y" x ks k exec pass] that(1) by (metis comp_apply prod.collapse)
  show "try_lock_with (with_beliefs exec) d mgr tok j opts x = (r, y) \<Longrightarrow> moves exec ks clock pass k x y"
    using go [of tok "lo_ttl opts"] operations_keep(1) redis_server.operation_states(1) [OF B] by blast
  show "unlock_with_token (with_beliefs exec) d j tok x = (b, y) \<Longrightarrow> moves exec ks clock pass k x y"
    using go [of tok 0] operations_keep(2) redis_server.operation_states(2) [OF B] by blast
  show "extend_with_token (with_beliefs exec) d j tok ttl x = (b, y) \<Longrightarrow> moves exec ks clock pass k x y"
    using go [of tok ttl] operations_keep(3) redis_server.operation_states(3) [OF B] by blast
  show "handle_release (with_beliefs exec) d h x = (u, h', y) \<Longrightarrow> hs_key h = j \<Longrightarrow> hs_fence_key h = fence_key_for j \<Longrightarrow>
      moves exec ks clock pass k x y"
    using go [of "hs_token h" 0] operations_keep(4) redis_server.operation_states(4) [OF B] by blast
qed

section \<open>Locking through the service\<close>

definition named :: "string \<Rightarrow> string \<Rightarrow> bool" where
  "named k j \<longleftrightarrow> j = k \<or> apart k j"

text \<open>What others may do while a handler waits: anything but use the tokens the handler drew.\<close>

definition friendly ::
  "'s server \<Rightarrow> ('s \<Rightarrow> keyspace) \<Rightarrow> ('s \<Rightarrow> nat) \<Rightarrow> (nat \<Rightarrow> 's \<Rightarrow> 's) \<Rightarrow> string \<Rightarrow> string set \<Rightarrow> ('s \<times> beliefs \<Rightarrow> 's \<times> beliefs) \<Rightarrow> bool" where
  "friendly exec ks clock pass k toks e \<longleftrightarrow> (\<forall>x. moves exec ks clock pass k x (e x)) \<and>
     (\<forall>x. (\<forall>t \<in> toks. snd x t = None) \<longrightarrow> (\<forall>t \<in> toks. snd (e x) t = None))"

text \<open>What a client concludes from the answer to a locking request.\<close>

definition learn :: "('s \<Rightarrow> nat) \<Rightarrow> string \<Rightarrow> string \<Rightarrow> LockOutcome response \<Rightarrow> 's \<times> beliefs \<Rightarrow> 's \<times> beliefs" where
  "learn clock k j res x = (case res of
      Inr (Granted t f ms) \<Rightarrow> if j = k then (fst x, (snd x)(t \<mapsto> clock (fst x) + unat ms)) else x
    | _ \<Rightarrow> x)"

lemma moves_attempt:
  assumes "redis_server exec ks clock pass" "try_lock_with (with_beliefs exec) d mgr tok j opts x = (r, y)" "named k j"
    "snd x tok = None" "as_millis (lo_ttl opts) < 2 ^ 64"
  shows "moves exec ks clock pass k x y"
proof (cases "j = k")
  case True
  note y = operations_keep(1) [OF assms(2)]
  show ?thesis
  proof (cases r)
    case (Inl e)
    from moves_refused [OF assms(2) [unfolded True Inl] assms(4)] y show ?thesis by (metis prod.collapse)
  next
    case (Inr h)
    note moves_grant [OF assms(2) [unfolded True Inr] assms(4,5), of ks clock pass]
    also note moves_forget [where tok = tok]
    finally show ?thesis using y assms(4) by (simp add: fun_upd_idem prod_eq_iff) (metis fun_upd_triv prod.collapse)
  qed
next
  case False
  with assms(3) have "apart k j" by (simp add: named_def)
  then show ?thesis using moves_elsewhere(1) [OF assms(1)] assms(2) by blast
qed

lemma hand_over_result:
  assumes "hand_over exec d mid now p opts req h sv = (res, sv')"
  shows "(\<exists>m. res = Inl m) \<and> sv_store sv' = snd (snd (handle_release exec d h (mid (sv_store sv)))) \<or>
    (\<exists>f. res = Inr (Granted (hs_token h) f (as_millis_u64 (lo_ttl opts)))) \<and> sv_store sv' = sv_store sv"
  using assms
  by (auto simp: hand_over_def Let_def granted_outcome_def disarm_def mark_released_def split: if_splits prod.splits bool.splits)

lemma moves_hand_over:
  assumes "redis_server exec ks clock pass"
    and grant: "try_lock_with (with_beliefs exec) d mgr tok j opts x = (Inr h, y)"
    and over: "hand_over (with_beliefs exec) d' mid now p opts req h (sv\<lparr>sv_store := y\<rparr>) = (res, sv')"
    and j: "named k j" and fresh: "\<forall>t \<in> toks. snd x t = None" "tok \<in> toks" and mid: "friendly exec ks clock pass k toks mid"
    and ttl: "as_millis (lo_ttl opts) < 2 ^ 64"
  shows "moves exec ks clock pass k x (learn clock k j res (sv_store sv'))"
proof -
  have h: "hs_key h = j" "hs_fence_key h = fence_key_for j" "hs_token h = tok"
    using grant by (auto simp: try_lock_with_def split: sum.splits prod.splits if_splits)
  have y: "snd y = snd x" using operations_keep(1) [OF grant] .
  note taken = moves_attempt [OF assms(1) grant j _ ttl]
  from hand_over_result [OF over] show ?thesis
  proof (elim disjE conjE exE)
    fix m assume m: "res = Inl m" and s: "sv_store sv' = snd (snd (handle_release (with_beliefs exec) d' h (mid (sv_store (sv\<lparr>sv_store := y\<rparr>)))))"
    obtain u h' z where z: "handle_release (with_beliefs exec) d' h (mid y) = (u, h', z)" by (metis prod.collapse)
    have keep: "snd z = snd (mid y)" and none: "snd (mid y) tok = None"
      using operations_keep(4) [OF z] mid fresh y unfolding friendly_def by (metis, metis)
    have "moves exec ks clock pass k (mid y) z"
    proof (cases "j = k")
      case True
      from moves_release [OF z] h True keep none show ?thesis by (metis fun_upd_triv prod.collapse)
    next
      case False
      with j have "apart k j" by (simp add: named_def)
      then show ?thesis using moves_elsewhere(4) [OF assms(1) _ z] h by blast
    qed
    moreover have "moves exec ks clock pass k x y" by (rule taken) (use fresh in blast)
    moreover have "moves exec ks clock pass k y (mid y)" using mid unfolding friendly_def by blast
    ultimately show ?thesis using m s z by (simp add: learn_def) (meson moves_trans)
  next
    fix f assume r: "res = Inr (Granted (hs_token h) f (as_millis_u64 (lo_ttl opts)))" and s: "sv_store sv' = sv_store (sv\<lparr>sv_store := y\<rparr>)"
    show ?thesis
    proof (cases "j = k")
      case True
      have "clock (fst y) = clock (fst x)"
        using redis_server.operation_states(1) [OF believing_server [OF assms(1)] grant]
          redis_server.script_clock(1) [OF believing_server [OF assms(1)]] by (metis comp_apply insertE singletonD)
      moreover have "unat (as_millis_u64 (lo_ttl opts)) = as_millis (lo_ttl opts)"
        using ttl by (simp add: as_millis_u64_def unsigned_of_nat take_bit_nat_eq_self)
      ultimately show ?thesis
        using moves_grant [OF grant [unfolded True] _ ttl, of ks clock pass] fresh y r s h(3) True by (simp add: learn_def)
    next
      case False
      then show ?thesis using taken fresh r s by (simp add: learn_def)
    qed
  qed
qed

lemma admitted_ttl:
  assumes "admit sv b req = Inr (p, opts)" "as_millis (sc_max_ttl (sv_config sv)) < 2 ^ 64"
  shows "as_millis (lo_ttl opts) < 2 ^ 64"
proof -
  have "lo_ttl opts \<le> sc_max_ttl (sv_config sv)"
    using assms(1)
    by (auto simp: admit_def options_from_pb_def rbind_def Let_def with_ttl_opt_def with_watchdog_def
        split: sum.splits if_splits option.splits)
  from as_millis_mono [OF this] assms(2) show ?thesis by simp
qed

lemma moves_lock:
  assumes "redis_server exec ks clock pass" "svc_try_lock (with_beliefs exec) d d' mid now tok b req sv = (res, sv')"
    "named k (tl_key req)" "friendly exec ks clock pass k {tok} mid" "snd (sv_store sv) tok = None"
    "as_millis (sc_max_ttl (sv_config sv)) < 2 ^ 64"
  shows "moves exec ks clock pass k (sv_store sv) (learn clock k (tl_key req) res (sv_store sv'))"
proof (cases "admit sv b req")
  case (Inl e)
  with assms(2) show ?thesis by (auto simp: svc_try_lock_def learn_def)
next
  case (Inr a)
  obtain p opts where a: "a = (p, opts)" by fastforce
  obtain r y where r: "try_lock_with (with_beliefs exec) d (sv_manager sv) tok (tl_key req) opts (sv_store sv) = (r, y)" by (rule prod.exhaust)
  note ttl = admitted_ttl [OF Inr [unfolded a] assms(6)]
  show ?thesis
  proof (cases r)
    case (Inl e)
    then have "learn clock k (tl_key req) res (sv_store sv') = y"
      using assms(2) Inr a r by (auto simp: svc_try_lock_def learn_def held_outcome_def split: error.splits)
    then show ?thesis using moves_attempt [OF assms(1) r assms(3,5) ttl] by simp
  next
    case r': (Inr h)
    have "hand_over (with_beliefs exec) d' mid now p opts req h (sv\<lparr>sv_store := y\<rparr>) = (res, sv')"
      using assms(2) Inr a r r' by (simp add: svc_try_lock_def)
    from moves_hand_over [OF assms(1) r [unfolded r'] this assms(3) _ _ assms(4) ttl] assms(5) show ?thesis by simp
  qed
qed

text \<open>Polling: the attempts that found the lock held, and one that came too late, leave no belief; the last one may grant.\<close>

lemma moves_poll:
  assumes "redis_server exec ks clock pass" "try_lock_for_loop (with_beliefs exec) mgr j opts dl as x = Some (r, y)" "named k j"
    "\<forall>a \<in> set as. friendly exec ks clock pass k toks (at_env a) \<and> at_token a \<in> toks" "\<forall>t \<in> toks. snd x t = None"
    "as_millis (lo_ttl opts) < 2 ^ 64"
  shows "moves exec ks clock pass k x y"
    and "r = Inr h \<Longrightarrow> \<exists>a \<in> set as. \<exists>u. moves exec ks clock pass k x u \<and> (\<forall>t \<in> toks. snd u t = None) \<and>
      try_lock_with (with_beliefs exec) (at_delivery a) mgr (at_token a) j opts u = (Inr h, y)"
  using assms(2,4,5)
proof (atomize (full), induction as arbitrary: x)
  case (Cons a as)
  let ?u = "at_env a x"
  obtain q z where q: "try_lock_with (with_beliefs exec) (at_delivery a) mgr (at_token a) j opts ?u = (q, z)" by (rule prod.exhaust)
  have none: "\<forall>t \<in> toks. snd ?u t = None" and u: "moves exec ks clock pass k x ?u"
    using Cons.prems unfolding friendly_def by (simp_all del: split_paired_All)
  have z: "moves exec ks clock pass k ?u z" "\<forall>t \<in> toks. snd z t = None"
    using moves_attempt [OF assms(1) q assms(3) _ assms(6)] none Cons.prems operations_keep(1) [OF q] by (simp_all del: split_paired_All)
  note xz = moves_trans [OF u z(1)]
  consider (got) h' where "y = z" "r = Inr h'" "q = Inr h'" | (late) "y = z" "\<nexists>h. r = Inr h"
    | (again) "try_lock_for_loop (with_beliefs exec) mgr j opts dl as z = Some (r, y)"
    using Cons.prems(1) q by (auto simp: Let_def split: if_splits sum.splits error.splits option.splits)
  then show ?case
  proof cases
    case got
    have "\<exists>a' \<in> set (a # as). \<exists>v. moves exec ks clock pass k x v \<and> (\<forall>t \<in> toks. snd v t = None) \<and>
        try_lock_with (with_beliefs exec) (at_delivery a') mgr (at_token a') j opts v = (Inr h, y)" if "r = Inr h"
      by (intro bexI [of _ a] exI [of _ ?u]) (use got that u none q in simp_all)
    with got xz show ?thesis by blast
  next
    case again
    have "\<exists>a' \<in> set as. \<exists>v. moves exec ks clock pass k x v \<and> (\<forall>t \<in> toks. snd v t = None) \<and>
        try_lock_with (with_beliefs exec) (at_delivery a') mgr (at_token a') j opts v = (Inr h, y)" if "r = Inr h"
      using Cons.IH [of z] again Cons.prems z(2) that moves_trans [OF xz] by (metis list.set_intros(2))
    moreover have "moves exec ks clock pass k x y"
      using Cons.IH [of z] again Cons.prems z(2) moves_trans [OF xz] by (metis list.set_intros(2))
    ultimately show ?thesis by (metis list.set_intros(2))
  qed (use xz in blast)
qed simp

lemma moves_lock_for:
  assumes "redis_server exec ks clock pass"
    "svc_try_lock_for (with_beliefs exec) as d' mid now now' b req wait sv = Some (res, sv')" "named k (tl_key req)"
    "\<forall>a \<in> set as. friendly exec ks clock pass k (at_token ` set as) (at_env a)" "friendly exec ks clock pass k (at_token ` set as) mid"
    "\<forall>t \<in> at_token ` set as. snd (sv_store sv) t = None" "as_millis (sc_max_ttl (sv_config sv)) < 2 ^ 64"
  shows "moves exec ks clock pass k (sv_store sv) (learn clock k (tl_key req) res (sv_store sv'))"
proof (cases "admit sv b req")
  case (Inl e)
  with assms(2) show ?thesis by (auto simp: svc_try_lock_for_def learn_def)
next
  case (Inr a)
  obtain p opts where a: "a = (p, opts)" by fastforce
  obtain r y where r: "try_lock_for_loop (with_beliefs exec) (sv_manager sv) (tl_key req) opts
      (instant_checked_add now (from_millis (unat wait))) as (sv_store sv) = Some (r, y)"
    using assms(2) Inr a by (auto simp: svc_try_lock_for_def try_lock_for_def split: option.splits)
  note ttl = admitted_ttl [OF Inr [unfolded a] assms(7)]
  have env: "\<forall>a \<in> set as. friendly exec ks clock pass k (at_token ` set as) (at_env a) \<and> at_token a \<in> at_token ` set as"
    using assms(4) by blast
  note poll = moves_poll [OF assms(1) r assms(3) env assms(6) ttl]
  show ?thesis
  proof (cases r)
    case (Inl e)
    then have "learn clock k (tl_key req) res (sv_store sv') = y"
      using assms(2) Inr a r by (auto simp: svc_try_lock_for_def try_lock_for_def learn_def held_outcome_def split: error.splits)
    then show ?thesis using poll(1) by simp
  next
    case r': (Inr h)
    then obtain a' u where u: "a' \<in> set as" "moves exec ks clock pass k (sv_store sv) u" "\<forall>t \<in> at_token ` set as. snd u t = None"
      "try_lock_with (with_beliefs exec) (at_delivery a') (sv_manager sv) (at_token a') (tl_key req) opts u = (Inr h, y)"
      using poll(2) by blast
    have "hand_over (with_beliefs exec) d' mid now' p opts req h (sv\<lparr>sv_store := y\<rparr>) = (res, sv')"
      using assms(2) Inr a r r' by (simp add: svc_try_lock_for_def try_lock_for_def)
    from moves_hand_over [OF assms(1) u(4) this assms(3) u(3) _ assms(5) ttl] u(1,2) show ?thesis
      by (meson image_eqI moves_trans)
  qed
qed

section \<open>Unlocking, extending and sessions\<close>

lemma moves_svc_unlock:
  assumes "redis_server exec ks clock pass" "svc_unlock (with_beliefs exec) d b j tok sv = (res, sv')" "named k j"
  shows "moves exec ks clock pass k (sv_store sv)
    (fst (sv_store sv'), if j = k then (snd (sv_store sv'))(tok := None) else snd (sv_store sv'))"
proof -
  obtain r y where y: "unlock_with_token (with_beliefs exec) d j tok (sv_store sv) = (r, y)" by (rule prod.exhaust)
  have "sv_store sv' = sv_store sv \<or> sv_store sv' = y"
    using assms(2) y by (auto simp: svc_unlock_def Let_def split: sum.splits if_splits)
  then show ?thesis
    using moves_forget [of exec ks clock pass k "sv_store sv" tok] moves_unlock [of exec d k tok "sv_store sv" r y ks clock pass]
      moves_elsewhere(2) [OF assms(1) _ y, of k] operations_keep(2) [OF y] y assms(3)
    by (auto simp: named_def)
qed

text \<open>What a client concludes from the answer to an extension: only a confirmed one lengthens its lease, any other may have
  shortened it.\<close>

definition learn_extend :: "ExtendResponse response \<Rightarrow> string \<Rightarrow> nat \<Rightarrow> beliefs \<Rightarrow> beliefs" where
  "learn_extend res tok until g = (case res of
      Inr Extended \<Rightarrow> g(tok \<mapsto> until)
    | _ \<Rightarrow> g(tok := map_option (min until) (g tok)))"

lemma moves_shorten:
  assumes "as_millis ttl < 2 ^ 64"
  shows "moves exec ks clock pass k x (fst x, (snd x)(tok := map_option (min (clock (fst x) + as_millis ttl)) (snd x tok)))"
  by (rule moves_step, rule exI, rule conjI,
      rule mutex_step.not_extended [where h = "build_handle_from_parts k tok 0 ttl" and d = NotSent and ttl = ttl
        and s' = x and r = "Inl (Backend ''extend script failed'')"])
    (use assms in \<open>simp_all add: fire_extend_def invoke_def build_handle_from_parts_def lease_end_def\<close>)

lemma moves_svc_extend:
  assumes "redis_server exec ks clock pass" "svc_extend (with_beliefs exec) d b j tok ms sv = (res, sv')" "named k j"
  shows "moves exec ks clock pass k (sv_store sv)
    (fst (sv_store sv'), if j = k then learn_extend res tok (clock (fst (sv_store sv)) + unat ms) (snd (sv_store sv')) else snd (sv_store sv'))"
proof -
  let ?x = "sv_store sv" and ?ttl = "from_millis (unat ms)"
  have ttl: "as_millis ?ttl < 2 ^ 64" using unsigned_less [of ms] by simp
  obtain r y where y: "extend_with_token (with_beliefs exec) d j tok ?ttl ?x = (r, y)" by (rule prod.exhaust)
  note keep = operations_keep(3) [OF y]
  consider (no) "sv_store sv' = ?x" "res \<noteq> Inr Extended" | (called) "sv_store sv' = y" "res = Inr Extended \<longleftrightarrow> r = Inr True" "MIN_TTL \<le> ?ttl"
    using assms(2) y
    by (auto simp: svc_extend_def Let_def extend_with_token_def split: sum.splits if_splits)
  then show ?thesis
  proof cases
    case no
    then have "learn_extend res tok n g = g(tok := map_option (min n) (g tok))" for n g
      by (auto simp: learn_extend_def split: sum.splits ExtendResponse.splits)
    with no show ?thesis using moves_shorten [OF ttl, of exec ks clock pass k ?x tok] by simp
  next
    case called
    have learn: "learn_extend res tok n g = extended_beliefs r tok n g" for n g
      using called(2) by (auto simp: learn_extend_def extended_beliefs_def split: sum.splits ExtendResponse.splits)
    show ?thesis
    proof (cases "j = k")
      case True
      with called keep show ?thesis
        using moves_extend [OF y [unfolded True] called(3) ttl, of ks clock pass] by (simp add: learn)
    next
      case False
      with assms(3) have "apart k j" by (simp add: named_def)
      from moves_elsewhere(3) [OF assms(1) this y] False called show ?thesis by simp
    qed
  qed
qed

text \<open>The store is blind to beliefs: a release does the same to it whatever they are.\<close>

lemma blind_scripts:
  "release_lua (with_beliefs exec) KEYS ARGV (s, g) = (case release_lua exec KEYS ARGV s of (r, t) \<Rightarrow> (r, (t, g)))"
  by (auto simp: release_lua_def lua_simps call1_def need_def lcall_def with_beliefs_def split: option.splits prod.splits sum.splits)

lemma blind_unlock:
  "unlock_with_token (with_beliefs exec) d j tok (s, g) = (case unlock_with_token exec d j tok s of (r, t) \<Rightarrow> (r, (t, g)))"
  by (auto simp: unlock_with_token_def invoke_def blind_scripts split: delivery.splits prod.splits sum.splits)

lemma blind_release_all:
  "session_release_all (with_beliefs exec) d locks n (s, g) = (case session_release_all exec d locks n s of (m, t) \<Rightarrow> (m, (t, g)))"
  by (induction locks arbitrary: n s) (auto simp: blind_unlock split: prod.splits)

lemma blind_close:
  "session_close (with_beliefs exec) d t (book, (s, g)) = (case session_close exec d t (book, s) of (n, book', s') \<Rightarrow> (n, book', (s', g)))"
  by (auto simp: session_close_def blind_release_all split: prod.splits)

lemma blind_sweep:
  assumes "sw_before v = (\<lambda>_. id)" "sw_before v' = (\<lambda>_. id)" "sw_unlock v' = sw_unlock v"
  shows "sweep_each (with_beliefs exec) v ts (book, (s, g)) = (case sweep_each exec v' ts (book, s) of (book', s') \<Rightarrow> (book', (s', g)))"
  by (induction ts arbitrary: book s) (auto simp: assms Let_def blind_close split: prod.splits)

text \<open>The end of a session takes the right to its locks away.\<close>

definition drop_tokens :: "string set \<Rightarrow> beliefs \<Rightarrow> beliefs" where
  "drop_tokens T g = (\<lambda>t. if t \<in> T then None else g t)"

definition locks_named :: "string \<Rightarrow> SessionBook \<Rightarrow> bool" where
  "locks_named k book \<longleftrightarrow> (\<forall>t e j l. map_of book t = Some e \<longrightarrow> (j, l) \<in> set (se_locks e) \<longrightarrow> named k j)"

definition ended :: "string \<Rightarrow> SessionBook \<Rightarrow> SessionBook \<Rightarrow> string set" where
  "ended k book book' = {l. \<exists>t e. map_of book t = Some e \<and> map_of book' t = None \<and> (k, l) \<in> set (se_locks e)}"

lemma moves_release_all:
  assumes "redis_server exec ks clock pass" "session_release_all exec d locks n s = (m, s')" "\<forall>(j, l) \<in> set locks. named k j"
  shows "moves exec ks clock pass k (s, g) (s', drop_tokens {l. (k, l) \<in> set locks} g)"
  using assms(2,3)
proof (induction locks arbitrary: n s g)
  case Nil
  then show ?case by (simp add: drop_tokens_def)
next
  case (Cons p locks)
  obtain j l where p: "p = (j, l)" by fastforce
  obtain r t where t: "unlock_with_token exec (d (j, l)) j l s = (r, t)" by fastforce
  then have u: "unlock_with_token (with_beliefs exec) (d (j, l)) j l (s, g) = (r, (t, g))" by (simp add: blind_unlock)
  have step: "moves exec ks clock pass k (s, g) (t, if j = k then g(l := None) else g)"
    using moves_unlock [of exec "d (j, l)" k l "(s, g)" r "(t, g)" ks clock pass] moves_elsewhere(2) [OF assms(1) _ u, of k]
      u Cons.prems(2) by (auto simp: p named_def)
  have "drop_tokens {l. (k, l) \<in> set locks} (if j = k then g(l := None) else g) = drop_tokens {l. (k, l) \<in> set (p # locks)} g"
    by (auto simp: drop_tokens_def p fun_eq_iff)
  with moves_trans [OF step Cons.IH] Cons.prems t show ?case by (auto simp: p)
qed

lemma moves_close:
  assumes "redis_server exec ks clock pass" "session_close exec d t (book, s) = (n, book', s')" "locks_named k book"
  shows "moves exec ks clock pass k (s, g) (s', drop_tokens (ended k book book') g)" "map_of book' = (map_of book)(t := None)"
proof -
  show b: "map_of book' = (map_of book)(t := None)"
    using assms(2) by (auto simp: session_close_def session_remove_def split: prod.splits)
  let ?locks = "case map_of book t of None \<Rightarrow> [] | Some e \<Rightarrow> se_locks e"
  have r: "\<exists>m. session_release_all exec d ?locks 0 s = (m, s')"
    using assms(2) by (auto simp: session_close_def session_remove_def split: prod.splits)
  have "\<forall>(j, l) \<in> set ?locks. named k j"
    using assms(3) by (cases "map_of book t") (fastforce simp: locks_named_def)+
  moreover have "ended k book book' = {l. \<exists>e. map_of book t = Some e \<and> (k, l) \<in> set (se_locks e)}"
    unfolding ended_def b by (rule Collect_cong) (metis (no_types, lifting) fun_upd_apply option.distinct(1))
  then have "ended k book book' = {l. (k, l) \<in> set ?locks}" by (cases "map_of book t") simp_all
  ultimately show "moves exec ks clock pass k (s, g) (s', drop_tokens (ended k book book') g)"
    using r moves_release_all [OF assms(1)] by metis
qed

lemma ended_trans:
  assumes "map_of c \<subseteq>\<^sub>m map_of b" "map_of b \<subseteq>\<^sub>m map_of a"
  shows "ended k a c = ended k b c \<union> ended k a b"
proof -
  have "map_of a t = Some e \<and> map_of c t = None \<longleftrightarrow>
      map_of b t = Some e \<and> map_of c t = None \<or> map_of a t = Some e \<and> map_of b t = None" for t e
  proof -
    have "map_of c t \<noteq> None \<Longrightarrow> map_of c t = map_of b t" "map_of b t \<noteq> None \<Longrightarrow> map_of b t = map_of a t"
      using assms by (auto simp: map_le_def dom_def)
    then show ?thesis by (cases "map_of b t"; cases "map_of c t") auto
  qed
  then show ?thesis unfolding ended_def by blast
qed

lemma moves_sweep:
  assumes "redis_server exec ks clock pass" "sweep_each exec v ts (book, s) = (book', s')" "locks_named k book" "sw_before v = (\<lambda>_. id)"
  shows "moves exec ks clock pass k (s, g) (s', drop_tokens (ended k book book') g) \<and> map_of book' \<subseteq>\<^sub>m map_of book"
  using assms(2,3)
proof (induction ts arbitrary: book s g)
  case Nil
  have "ended k book' book' = {}" by (auto simp: ended_def)
  with Nil show ?case by (auto simp: drop_tokens_def)
next
  case (Cons t ts)
  show ?case
  proof (cases "map_of book t")
    case None
    with Cons show ?thesis by (simp add: assms(4) Let_def)
  next
    case (Some e)
    obtain n b1 s1 where c: "session_close exec (sw_unlock v) t (book, s) = (n, b1, s1)" by (metis prod.collapse)
    note close = moves_close [OF assms(1) c Cons.prems(2)]
    have named1: "locks_named k b1" using Cons.prems(2) close(2) by (auto simp: locks_named_def split: if_splits)
    have rest: "sweep_each exec v ts (b1, s1) = (book', s')" using Cons.prems(1) Some c by (simp add: assms(4) Let_def)
    from Cons.IH [OF rest named1, of "drop_tokens (ended k book b1) g"]
    have IH: "moves exec ks clock pass k (s1, drop_tokens (ended k book b1) g) (s', drop_tokens (ended k b1 book') (drop_tokens (ended k book b1) g))"
      "map_of book' \<subseteq>\<^sub>m map_of b1" by simp_all
    have sub: "map_of b1 \<subseteq>\<^sub>m map_of book" by (simp add: close(2) map_le_def)
    have "ended k book book' = ended k b1 book' \<union> ended k book b1"
      using ended_trans [OF IH(2) sub] .
    then have "drop_tokens (ended k b1 book') (drop_tokens (ended k book b1) g) = drop_tokens (ended k book book') g"
      by (auto simp: drop_tokens_def fun_eq_iff)
    with moves_trans [OF close(1) [of g] IH(1)] map_le_trans [OF IH(2) sub] show ?thesis by simp
  qed
qed

section \<open>Reading\<close>

lemma moves_command:
  assumes "redis_server exec ks clock pass" "\<And>now m. snd (doc_step c now m) k = m k"
    "\<And>now m. snd (doc_step c now m) (fence_key_for k) = m (fence_key_for k)"
  shows "moves exec ks clock pass k x (snd (with_beliefs exec c x))"
  using moves_apart [of clock "snd (exec c (fst x))" x ks k exec pass] assms
    redis_server.exec_ks [OF assms(1)] redis_server.exec_clock [OF assms(1)]
  by (simp add: with_beliefs_def split_beta)

lemma moves_read:
  assumes "redis_server exec ks clock pass"
  shows "moves exec ks clock pass k x (snd (with_beliefs exec (EXISTS j) x))"
    "moves exec ks clock pass k x (snd (with_beliefs exec (GET j) x))"
    "moves exec ks clock pass k x (snd (with_beliefs exec (PTTL j) x))"
  by (rule moves_command [OF assms]; simp add: redis_simps split: option.splits rval.splits)+

lemma moves_describe:
  assumes "redis_server exec ks clock pass" "describe_key (with_beliefs exec) d mid mid' j x = (r, y)"
    "friendly exec ks clock pass k {} mid" "friendly exec ks clock pass k {} mid'"
  shows "moves exec ks clock pass k x y"
proof -
  let ?P = "lbind (lcall (with_beliefs exec) (EXISTS j)) (\<lambda>held s.
        lbind (lcall (with_beliefs exec) (GET (fence_key_for j))) (\<lambda>v s.
        lbind (lcall (with_beliefs exec) (PTTL j)) (\<lambda>t.
        lret (rint held > 0, version_of v, if rint t > 0 then of_int (rint t) else (0 :: u64))) (mid' s)) (mid s))"
  let ?a = "snd (with_beliefs exec (EXISTS j) x)"
  let ?b = "snd (with_beliefs exec (GET (fence_key_for j)) (mid ?a))"
  let ?c = "snd (with_beliefs exec (PTTL j) (mid' ?b))"
  have "snd (?P x) \<in> {?a, ?b, ?c}"
    by (auto simp: lbind_def lcall_def lret_def split: prod.splits sum.splits reply.splits)
  moreover have "y = x \<or> y = snd (?P x)"
    using invoke_state [of d "''describe failed''" ?P x] assms(2) by (auto simp: describe_key_def)
  moreover have a: "moves exec ks clock pass k x ?a" by (rule moves_read [OF assms(1)])
  moreover have b: "moves exec ks clock pass k x ?b"
    using a moves_read(2) [OF assms(1)] assms(3) unfolding friendly_def by (meson moves_trans)
  moreover have "moves exec ks clock pass k x ?c"
    using b moves_read(3) [OF assms(1)] assms(4) unfolding friendly_def by (meson moves_trans)
  ultimately show ?thesis by fastforce
qed

lemma moves_query:
  assumes "query (with_beliefs exec) d msg c x = (r, y)" "moves exec ks clock pass k x (snd (with_beliefs exec c x))"
  shows "moves exec ks clock pass k x y"
  using assms by (auto simp: query_def invoke_def lcall_def split: delivery.splits prod.splits sum.splits)

lemma moves_scan_batch:
  assumes "redis_server exec ks clock pass"
  shows "scan_batch (with_beliefs exec) d keys out x = (out', y) \<Longrightarrow> moves exec ks clock pass k x y"
proof (induction keys arbitrary: out x)
  case (Cons j keys)
  obtain r t where t: "query (with_beliefs exec) (d j) ''pttl'' (PTTL j) x = (r, t)" by (rule prod.exhaust)
  obtain out2 where "scan_batch (with_beliefs exec) d keys out2 t = (out', y)" using Cons.prems t by (auto simp: Let_def split: if_splits)
  from moves_trans [OF moves_query [OF t moves_read(3) [OF assms]] Cons.IH [OF this]] show ?case .
qed simp

lemma moves_scan:
  assumes "redis_server exec ks clock pass"
  shows "scan_held (with_beliefs exec) d as out x = Some (r, y) \<Longrightarrow> moves exec ks clock pass k x y"
proof (induction as arbitrary: out x)
  case (Cons a as)
  then show ?case
    by (auto split: option.splits prod.splits if_splits dest: moves_scan_batch [OF assms] intro: moves_trans)
qed simp

lemma moves_force:
  assumes "redis_server exec ks clock pass" "force_unlock (with_beliefs exec) d j x = (r, y)" "apart k j"
  shows "moves exec ks clock pass k x y"
proof -
  obtain q z where q: "query (with_beliefs exec) d ''force unlock failed'' (DEL j) x = (q, z)" by (rule prod.exhaust)
  have "moves exec ks clock pass k x (snd (with_beliefs exec (DEL j) x))"
    by (rule moves_command [OF assms(1)]) (use assms(3) in \<open>auto simp: redis_simps apart_def\<close>)
  from moves_query [OF q this] assms(2) q show ?thesis by (auto simp: force_unlock_def split: sum.splits)
qed

section \<open>Runs of the service\<close>

text \<open>Requests to the service, with what their clients conclude about the key; the sweeper; and everything that happens
  to the store beside the service. Requests name the key itself or keys that have nothing to do with it; tokens drawn for a request are fresh.
  Forcing the key open, which is meant to break exclusion, is left out.\<close>

inductive svc_act ::
  "'s server \<Rightarrow> ('s \<Rightarrow> keyspace) \<Rightarrow> ('s \<Rightarrow> nat) \<Rightarrow> (nat \<Rightarrow> 's \<Rightarrow> 's) \<Rightarrow> string \<Rightarrow>
   ('s \<times> beliefs) PalisadeService \<Rightarrow> ('s \<times> beliefs) PalisadeService \<Rightarrow> bool"
  for exec ks clock pass k where
  lock: "svc_try_lock (with_beliefs exec) d d' mid now tok b req sv = (res, sv') \<Longrightarrow> named k (tl_key req) \<Longrightarrow>
    friendly exec ks clock pass k {tok} mid \<Longrightarrow> snd (sv_store sv) tok = None \<Longrightarrow>
    svc_act exec ks clock pass k sv (sv'\<lparr>sv_store := learn clock k (tl_key req) res (sv_store sv')\<rparr>)"
| lock_for: "svc_try_lock_for (with_beliefs exec) as d' mid now now' b req wait sv = Some (res, sv') \<Longrightarrow> named k (tl_key req) \<Longrightarrow>
    \<forall>a \<in> set as. friendly exec ks clock pass k (at_token ` set as) (at_env a) \<Longrightarrow> friendly exec ks clock pass k (at_token ` set as) mid \<Longrightarrow>
    \<forall>t \<in> at_token ` set as. snd (sv_store sv) t = None \<Longrightarrow>
    svc_act exec ks clock pass k sv (sv'\<lparr>sv_store := learn clock k (tl_key req) res (sv_store sv')\<rparr>)"
| unlock: "svc_unlock (with_beliefs exec) d b j tok sv = (res', sv') \<Longrightarrow> named k j \<Longrightarrow>
    svc_act exec ks clock pass k sv (sv'\<lparr>sv_store :=
      (fst (sv_store sv'), if j = k then (snd (sv_store sv'))(tok := None) else snd (sv_store sv'))\<rparr>)"
| extend: "svc_extend (with_beliefs exec) d b j tok ms sv = (rx, sv') \<Longrightarrow> named k j \<Longrightarrow>
    svc_act exec ks clock pass k sv (sv'\<lparr>sv_store := (fst (sv_store sv'),
      if j = k then learn_extend rx tok (clock (fst (sv_store sv)) + unat ms) (snd (sv_store sv')) else snd (sv_store sv'))\<rparr>)"
| close: "svc_close_session (with_beliefs exec) ds t sv = (n, sv') \<Longrightarrow>
    svc_act exec ks clock pass k sv (sv'\<lparr>sv_store :=
      (fst (sv_store sv'), drop_tokens (ended k (sv_sessions sv) (sv_sessions sv')) (snd (sv_store sv')))\<rparr>)"
| sweep: "svc_sweep (with_beliefs exec) v now sv = sv' \<Longrightarrow> sw_before v = (\<lambda>_. id) \<Longrightarrow>
    svc_act exec ks clock pass k sv (sv'\<lparr>sv_store :=
      (fst (sv_store sv'), drop_tokens (ended k (sv_sessions sv) (sv_sessions sv')) (snd (sv_store sv')))\<rparr>)"
| register: "svc_act exec ks clock pass k sv (snd (svc_register_session t now now' client ms sv))"
| heartbeat: "svc_act exec ks clock pass k sv (snd (svc_heartbeat now t sv))"
| watch: "svc_act exec ks clock pass k sv (snd (svc_watch b j sv))"
| watch_end: "svc_act exec ks clock pass k sv (watch_ended cl sub sv)"
| describe: "friendly exec ks clock pass k {} mid \<Longrightarrow> friendly exec ks clock pass k {} mid' \<Longrightarrow>
    svc_act exec ks clock pass k sv (snd (svc_describe_key (with_beliefs exec) d mid mid' b j sv))"
| listing: "svc_list_locks (with_beliefs exec) dk scans b j sv = Some (rl, sv') \<Longrightarrow> svc_act exec ks clock pass k sv sv'"
| force: "apart k j \<Longrightarrow> svc_act exec ks clock pass k sv (snd (svc_unlock_force (with_beliefs exec) d b j sv))"
| drain: "svc_act exec ks clock pass k sv (set_ready r sv)"
| beside: "moves exec ks clock pass k (sv_store sv) x \<Longrightarrow> svc_act exec ks clock pass k sv (sv\<lparr>sv_store := x\<rparr>)"

inductive svc_run ::
  "'s server \<Rightarrow> ('s \<Rightarrow> keyspace) \<Rightarrow> ('s \<Rightarrow> nat) \<Rightarrow> (nat \<Rightarrow> 's \<Rightarrow> 's) \<Rightarrow> string \<Rightarrow> ('s \<times> beliefs) PalisadeService \<Rightarrow> bool"
  for exec ks clock pass k where
  start: "0 \<le> n \<Longrightarrow> counter (ks s) (fence_key_for k) = Some n \<Longrightarrow> as_millis (sc_max_ttl config) < 2 ^ 64 \<Longrightarrow>
    svc_run exec ks clock pass k (with_acl acl (service_new mgr config (s, Map.empty)))"
| act: "svc_run exec ks clock pass k sv \<Longrightarrow> svc_act exec ks clock pass k sv sv' \<Longrightarrow> svc_run exec ks clock pass k sv'"

lemma bind_named:
  "locks_named k book \<Longrightarrow> named k j \<Longrightarrow> locks_named k (snd (session_bind t j l now book))"
  by (auto simp: session_bind_def locks_named_def split: option.splits if_splits)

lemma hand_over_named:
  assumes "hand_over exec d mid now p opts req h sv = (res, sv')" "locks_named k (sv_sessions sv)" "named k (tl_key req)"
  shows "locks_named k (sv_sessions sv')"
  using assms bind_named [OF assms(2,3), of "tl_session req" "hs_token h" now]
  by (auto simp: hand_over_def Let_def split: if_splits prod.splits bool.splits)

lemma locking_named:
  assumes "locks_named k (sv_sessions sv)" "named k (tl_key req)"
  shows "svc_try_lock exec d d' mid now tok b req sv = (res, sv') \<Longrightarrow> locks_named k (sv_sessions sv')"
    and "svc_try_lock_for exec as d' mid now now' b req wait sv = Some (res, sv') \<Longrightarrow> locks_named k (sv_sessions sv')"
  using assms
  by (auto simp: svc_try_lock_def svc_try_lock_for_def split: sum.splits prod.splits error.splits option.splits
      elim!: hand_over_named)

lemma named_subset: "locks_named k book \<Longrightarrow> map_of book' \<subseteq>\<^sub>m map_of book \<Longrightarrow> locks_named k book'"
  unfolding locks_named_def map_le_def by (metis domIff option.distinct(1))

definition run_ok :: "string \<Rightarrow> 's PalisadeService \<Rightarrow> bool" where
  "run_ok k sv \<longleftrightarrow> locks_named k (sv_sessions sv) \<and> as_millis (sc_max_ttl (sv_config sv)) < 2 ^ 64"

text \<open>The handlers that only read or only change the books.\<close>

lemma plain_sessions:
  "sv_sessions (snd (svc_unlock exec d b j tok sv)) = sv_sessions sv"
  "sv_sessions (snd (svc_extend exec d b j tok ms sv)) = sv_sessions sv"
  "sv_sessions (snd (svc_watch b j sv)) = sv_sessions sv" "sv_store (snd (svc_watch b j sv)) = sv_store sv"
  "sv_sessions (snd (svc_describe_key exec d mid mid' b j sv)) = sv_sessions sv"
  "sv_sessions (snd (svc_unlock_force exec d b j sv)) = sv_sessions sv"
  by (auto simp: svc_unlock_def svc_extend_def svc_watch_def svc_describe_key_def svc_unlock_force_def Let_def
      split: sum.splits prod.splits if_splits)

lemma session_stores:
  "sv_store (snd (svc_register_session t now now' client ms sv)) = sv_store sv" "sv_store (snd (svc_heartbeat now t sv)) = sv_store sv"
  by (simp_all add: svc_register_session_def svc_heartbeat_def Let_def split_beta)

lemma session_books_named:
  assumes "locks_named k (sv_sessions sv)"
  shows "locks_named k (sv_sessions (snd (svc_register_session t now now' client ms sv)))"
    and "locks_named k (sv_sessions (snd (svc_heartbeat now t sv)))"
  using assms
  by (auto simp: svc_register_session_def svc_heartbeat_def session_register_def session_heartbeat_def Let_def locks_named_def
      split: option.splits if_splits)

lemma moves_close_session:
  assumes "redis_server exec ks clock pass" "svc_close_session (with_beliefs exec) ds t sv = (n, sv')" "locks_named k (sv_sessions sv)"
  shows "moves exec ks clock pass k (sv_store sv)
      (fst (sv_store sv'), drop_tokens (ended k (sv_sessions sv) (sv_sessions sv')) (snd (sv_store sv')))"
    and "locks_named k (sv_sessions sv')"
proof -
  obtain s g where x: "sv_store sv = (s, g)" by (rule prod.exhaust)
  obtain m book' s' where c: "session_close exec ds t (sv_sessions sv, s) = (m, book', s')" by (metis prod.collapse)
  have sv': "sv_sessions sv' = book'" "sv_store sv' = (s', g)"
    using assms(2) by (auto simp: svc_close_session_def x blind_close c)
  note close = moves_close [OF assms(1) c assms(3)]
  from close(1) [of g] show "moves exec ks clock pass k (sv_store sv)
      (fst (sv_store sv'), drop_tokens (ended k (sv_sessions sv) (sv_sessions sv')) (snd (sv_store sv')))" by (simp add: x sv')
  have "map_of book' \<subseteq>\<^sub>m map_of (sv_sessions sv)" by (simp add: close(2) map_le_def)
  from named_subset [OF assms(3) this] show "locks_named k (sv_sessions sv')" by (simp add: sv')
qed

lemma moves_svc_sweep:
  assumes "redis_server exec ks clock pass" "svc_sweep (with_beliefs exec) v now sv = sv'" "sw_before v = (\<lambda>_. id)" "locks_named k (sv_sessions sv)"
  shows "moves exec ks clock pass k (sv_store sv)
      (fst (sv_store sv'), drop_tokens (ended k (sv_sessions sv) (sv_sessions sv')) (snd (sv_store sv')))"
    and "locks_named k (sv_sessions sv')"
proof -
  obtain s g where x: "sv_store sv = (s, g)" by (rule prod.exhaust)
  let ?v = "\<lparr>sw_before = \<lambda>_. id, sw_unlock = sw_unlock v\<rparr>" and ?ts = "map fst (filter (\<lambda>(_, e). expired now e) (sv_sessions sv))"
  obtain book' s' where c: "sweep_each exec ?v ?ts (sv_sessions sv, s) = (book', s')" by (rule prod.exhaust)
  have sv': "sv_sessions sv' = book'" "sv_store sv' = (s', g)"
    using assms(2) blind_sweep [OF assms(3), of ?v exec ?ts "sv_sessions sv" s g] by (auto simp: svc_sweep_def sweep_once_def x c)
  from moves_sweep [OF assms(1) c assms(4), of g] show "moves exec ks clock pass k (sv_store sv)
      (fst (sv_store sv'), drop_tokens (ended k (sv_sessions sv) (sv_sessions sv')) (snd (sv_store sv')))" by (simp add: x sv')
  have "map_of book' \<subseteq>\<^sub>m map_of (sv_sessions sv)" using moves_sweep [OF assms(1) c assms(4)] by simp
  from named_subset [OF assms(4) this] show "locks_named k (sv_sessions sv')" by (simp add: sv')
qed

lemma moves_svc_reads:
  assumes "redis_server exec ks clock pass"
  shows "friendly exec ks clock pass k {} mid \<Longrightarrow> friendly exec ks clock pass k {} mid' \<Longrightarrow>
      moves exec ks clock pass k (sv_store sv) (sv_store (snd (svc_describe_key (with_beliefs exec) d mid mid' b j sv)))"
    and "svc_list_locks (with_beliefs exec) dk scans b j sv = Some (rl, sv') \<Longrightarrow>
      moves exec ks clock pass k (sv_store sv) (sv_store sv') \<and> sv_sessions sv' = sv_sessions sv"
    and "apart k j \<Longrightarrow> moves exec ks clock pass k (sv_store sv) (sv_store (snd (svc_unlock_force (with_beliefs exec) d b j sv)))"
  by (auto simp: svc_describe_key_def svc_list_locks_def svc_unlock_force_def Let_def
      dest: moves_describe [OF assms] moves_scan [OF assms] moves_force [OF assms] split: sum.splits prod.splits option.splits)

text \<open>Every act of the service moves the store and the beliefs as the mutex does, and keeps the books in order.\<close>

lemma handlers_config:
  "svc_try_lock exec d d' mid now tok b req sv = (res, sv') \<Longrightarrow> sv_config sv' = sv_config sv"
  "svc_try_lock_for exec as d' mid now now' b req wait sv = Some (res, sv') \<Longrightarrow> sv_config sv' = sv_config sv"
  "svc_unlock exec d b j tok sv = (ru, sv') \<Longrightarrow> sv_config sv' = sv_config sv"
  "svc_extend exec d b j tok ms sv = (rx, sv') \<Longrightarrow> sv_config sv' = sv_config sv"
  "svc_close_session exec ds t sv = (n, sv') \<Longrightarrow> sv_config sv' = sv_config sv"
  "svc_list_locks exec dk scans b j sv = Some (rl, sv') \<Longrightarrow> sv_config sv' = sv_config sv"
  subgoal by (metis svc_step_fixed svc_step.lock snd_conv)
  subgoal by (metis svc_step_fixed svc_step.lock_for)
  subgoal by (metis svc_step_fixed svc_step.unlock snd_conv)
  subgoal by (metis svc_step_fixed svc_step.extend snd_conv)
  subgoal by (metis svc_step_fixed svc_step.close snd_conv)
  subgoal by (metis svc_step_fixed svc_step.listing)
  done

lemmas books_config =
  svc_step_fixed [OF svc_step.register] svc_step_fixed [OF svc_step.heartbeat] svc_step_fixed [OF svc_step.watch]
  svc_step_fixed [OF svc_step.watch_end] svc_step_fixed [OF svc_step.describe] svc_step_fixed [OF svc_step.force] svc_step_fixed [OF svc_step.drain]

lemma sweep_config: "sv_config (svc_sweep exec v now sv) = sv_config sv"
  by (auto simp: svc_sweep_def split: prod.splits)

lemma act_config: "svc_act exec ks clock pass k sv sv' \<Longrightarrow> sv_config sv' = sv_config sv"
  by (erule svc_act.cases) (auto simp: books_config sweep_config dest: handlers_config)

lemma act_moves:
  assumes "redis_server exec ks clock pass" "svc_act exec ks clock pass k sv sv'" "run_ok k sv"
  shows "moves exec ks clock pass k (sv_store sv) (sv_store sv') \<and> locks_named k (sv_sessions sv')"
proof -
  have ok: "locks_named k (sv_sessions sv)" "as_millis (sc_max_ttl (sv_config sv)) < 2 ^ 64"
    using assms(3) by (simp_all add: run_ok_def)
  from assms(2) show ?thesis
  proof cases
    case (lock d d' mid now tok b req res sv1)
    then show ?thesis using moves_lock [OF assms(1) lock(2-5) ok(2)] locking_named(1) [OF ok(1) lock(3,2)] by simp
  next
    case (lock_for as d' mid now now' b req wait res sv1)
    then show ?thesis using moves_lock_for [OF assms(1) lock_for(2-6) ok(2)] locking_named(2) [OF ok(1) lock_for(3,2)] by simp
  next
    case (unlock d b j tok res' sv1)
    then show ?thesis using moves_svc_unlock [OF assms(1) unlock(2,3)] plain_sessions(1) [of "with_beliefs exec" d b j tok sv] ok(1) by simp
  next
    case (extend d b j tok ms rx sv1)
    then show ?thesis using moves_svc_extend [OF assms(1) extend(2,3)] plain_sessions(2) [of "with_beliefs exec" d b j tok ms sv] ok(1) by simp
  next
    case (close ds t n sv1)
    then show ?thesis using moves_close_session [OF assms(1) close(2) ok(1)] by simp
  next
    case (sweep v now sv1)
    then show ?thesis using moves_svc_sweep [OF assms(1) sweep(2,3) ok(1)] by simp
  next
    case (listing dk scans b j rl)
    then show ?thesis using moves_svc_reads(2) [OF assms(1) listing] ok(1) by simp
  qed (use ok(1) in \<open>simp_all add: plain_sessions session_stores session_books_named watch_ended_def set_ready_def
      moves_svc_reads [OF assms(1)]\<close>)
qed

text \<open>Hence every run of the service is a run of the mutex.\<close>

definition coupled ::
  "'s server \<Rightarrow> ('s \<Rightarrow> keyspace) \<Rightarrow> ('s \<Rightarrow> nat) \<Rightarrow> (nat \<Rightarrow> 's \<Rightarrow> 's) \<Rightarrow> string \<Rightarrow> 's \<times> beliefs \<Rightarrow> bool" where
  "coupled exec ks clock pass k x \<longleftrightarrow>
     (\<exists>c. mutex_reach (with_beliefs exec) (ks \<circ> fst) (clock \<circ> fst) (pass_beliefs pass) k c \<and> srv c = x \<and> belief c = snd x)"

lemma mutex_reach_steps:
  "(mutex_step exec ks clock pass k)\<^sup>*\<^sup>* c c' \<Longrightarrow> mutex_reach exec ks clock pass k c \<Longrightarrow> mutex_reach exec ks clock pass k c'"
  by (induction rule: rtranclp_induct) (auto intro: mutex_reach.step)

lemma coupled_moves:
  assumes "coupled exec ks clock pass k x" and m: "moves exec ks clock pass k x y"
  shows "coupled exec ks clock pass k y"
proof -
  from assms(1) obtain c where c: "mutex_reach (with_beliefs exec) (ks \<circ> fst) (clock \<circ> fst) (pass_beliefs pass) k c" "srv c = x \<and> belief c = snd x"
    by (auto simp: coupled_def)
  with m obtain c' where "(mutex_step (with_beliefs exec) (ks \<circ> fst) (clock \<circ> fst) (pass_beliefs pass) k)\<^sup>*\<^sup>* c c'"
    "srv c' = y \<and> belief c' = snd y" unfolding moves_def by blast
  with mutex_reach_steps [OF this(1) c(1)] show ?thesis unfolding coupled_def by blast
qed

lemma svc_run_coupled:
  assumes "redis_server exec ks clock pass"
  shows "svc_run exec ks clock pass k sv \<Longrightarrow> coupled exec ks clock pass k (sv_store sv) \<and> run_ok k sv"
proof (induction rule: svc_run.induct)
  case (start n s config acl mgr)
  let ?c = "\<lparr>srv = (s, Map.empty :: beliefs), belief = Map.empty, issued = [], lapsed = False\<rparr>"
  have "mutex_init (ks \<circ> fst) k ?c" using start(1,2) by (auto simp: mutex_init_def counter_def)
  then have "coupled exec ks clock pass k (s, Map.empty)"
    unfolding coupled_def by (intro exI [of _ ?c]) (simp add: mutex_reach.start)
  with start(3) show ?case by (simp add: with_acl_def service_new_def run_ok_def locks_named_def)
next
  case (act sv sv')
  then show ?case using act_moves [OF assms act(2)] act_config [OF act(2)] coupled_moves by (metis run_ok_def)
qed

lemma coupled_backed:
  assumes "redis_server exec ks clock pass" "coupled exec ks clock pass k x" "snd x t = Some b" "clock (fst x) < b"
  shows "\<exists>e. ks (fst x) k = Some (VStr t, Some e) \<and> b \<le> e"
proof -
  obtain c where c: "mutex_reach (with_beliefs exec) (ks \<circ> fst) (clock \<circ> fst) (pass_beliefs pass) k c" "srv c = x" "belief c = snd x"
    using assms(2) by (auto simp: coupled_def)
  note B = believing_server [OF assms(1)]
  have "backed (ks \<circ> fst) (clock \<circ> fst) k c" using redis_server.mutex_reach_backed [OF B c(1)] .
  from redis_server.backedD [OF B this, of t b] c(2,3) assms(3,4) show ?thesis by simp
qed

text \<open>A run for the witnesses: in open mode, one grant of key \<open>k\<close>.\<close>

definition ex_open :: "(mem \<times> beliefs) PalisadeService" where
  "ex_open = with_acl acl_open_mode (service_new ex_mgr service_config_default (mem_init, Map.empty))"

definition ex_req :: TryLockRequest where
  "ex_req = \<lparr>tl_key = ''k'', tl_options = None, tl_session = []\<rparr>"

definition ex_locked :: "(mem \<times> beliefs) PalisadeService" where
  "ex_locked = snd (svc_try_lock (with_beliefs mem_exec) Delivered Delivered id 0 ''t1'' None ex_req ex_open)"

definition ex_learned :: "(mem \<times> beliefs) PalisadeService" where
  "ex_learned = ex_locked\<lparr>sv_store := learn fst ''k'' ''k'' (Inr (Granted ''t1'' 1 30000)) (sv_store ex_locked)\<rparr>"

lemma ex_open_grant:
  "svc_try_lock (with_beliefs mem_exec) Delivered Delivered id 0 ''t1'' None ex_req ex_open = (Inr (Granted ''t1'' 1 30000), ex_locked)"
  "fst (fst (sv_store ex_locked)) = 0" "snd (sv_store ex_locked) = Map.empty"
proof -
  have m: "as_millis_u64 (lo_ttl default_options) = 30000"
    by (simp add: as_millis_u64_def as_millis_def default_options_def from_secs_def)
  let ?r = "try_lock_with (with_beliefs mem_exec) Delivered ex_mgr ''t1'' ''k'' default_options (mem_init, Map.empty)"
  note free = redis_server.try_lock_with_free [OF believing_server [OF mem.redis_server_axioms], of default_options "(mem_init, Map.empty)" "''k''" 0 ex_mgr "''t1''"]
  have r: "fst ?r = Inr (new_handle ex_mgr ''t1'' ''k'' default_options 1)" "fst (fst (snd ?r)) = 0"
    using free ex_init by (simp_all add: counter_def mem_init_def)
  have keep: "snd (snd ?r) = Map.empty"
    using operations_keep(1) [of mem_exec Delivered ex_mgr "''t1''" "''k''" default_options "(mem_init, Map.empty)" "fst ?r" "snd ?r"]
    by (metis prod.collapse snd_conv)
  have admit: "admit ex_open None ex_req = Inr (make_principal Own anonymous, default_options)"
    by (simp add: admit_def ex_open_def ex_req_def with_acl_def service_new_def check_ready_def svc_principal_def acl_resolve_def
        resolve_with_header_def acl_open_mode_def options_from_pb_def service_config_default_def from_secs_def
        check_lock_def may_def make_principal_def anonymous_def with_ttl_opt_def default_options_def Let_def)
  have s: "sv_store ex_open = (mem_init, Map.empty)" "sv_manager ex_open = ex_mgr" "reg_holders (sv_registry ex_open) j = None"
    "tl_key ex_req = ''k''" "tl_session ex_req = []" for j
    by (simp_all add: ex_open_def with_acl_def service_new_def registry_new_def ex_req_def)
  obtain y where y: "?r = (Inr (new_handle ex_mgr ''t1'' ''k'' default_options 1), y)" using r(1) by (metis prod.collapse)
  let ?g = "svc_try_lock (with_beliefs mem_exec) Delivered Delivered id 0 ''t1'' None ex_req ex_open"
  have "fst ?g = Inr (Granted ''t1'' 1 30000)" "sv_store (snd ?g) = y"
    using y by (simp_all add: svc_try_lock_def admit s hand_over_def registry_try_acquire_def max_keys_def
        make_principal_def anonymous_def granted_outcome_def disarm_def mark_released_def m)
  then show "?g = (Inr (Granted ''t1'' 1 30000), ex_locked)" "fst (fst (sv_store ex_locked)) = 0" "snd (sv_store ex_locked) = Map.empty"
    using r keep y by (simp_all add: ex_locked_def prod_eq_iff)
qed

lemma ex_learned_run: "svc_run mem_exec mem_ks fst mem_pass ''k'' ex_learned"
proof -
  have start: "svc_run mem_exec mem_ks fst mem_pass ''k'' ex_open"
    unfolding ex_open_def
    by (rule svc_run.start [of 0]) (simp_all add: ex_init service_config_default_def from_secs_def as_millis_def)
  have "svc_act mem_exec mem_ks fst mem_pass ''k'' ex_open ex_learned"
    unfolding ex_learned_def
    using svc_act.lock [OF ex_open_grant(1), of "''k''" mem_ks fst mem_pass]
    by (simp add: ex_req_def named_def friendly_def ex_open_def with_acl_def service_new_def)
  with start show ?thesis by (rule svc_run.act)
qed

lemma ex_learned_simps: "snd (sv_store ex_learned) = [''t1'' \<mapsto> 30000]" "fst (fst (sv_store ex_learned)) = 0"
  by (simp_all add: ex_learned_def learn_def ex_open_grant)

end
