(* ===== verification/Fencing.thy ===== *)
theory Fencing
  imports Mutex Etcd "HOL-Library.Sublist"
begin

text \<open>
  What fencing tokens are for: a resource that remembers the last token it accepted and takes a write only
  under a newer one (\<^verbatim>\<open>core/src/fencing.rs\<close>, and as SQL \<^verbatim>\<open>core/src/fence_pg.rs\<close>), used by the
  holders of a lock, the former ones included. The locale \<open>fence_source\<close> is what the resource needs of a lock
  manager; the Redis mutex and the etcd backend provide it.
\<close>

section \<open>The protected resource\<close>

text \<open>The writes a resource has accepted, the latest first; before the first one its fence is zero.\<close>

definition last_accepted :: "FencingToken list \<Rightarrow> FencingToken" where
  "last_accepted ws = (case ws of [] \<Rightarrow> ZERO | w # _ \<Rightarrow> w)"

definition resource_write :: "FencingToken \<Rightarrow> FencingToken list \<Rightarrow> FencingToken list" where
  "resource_write f ws = (if supersedes f (last_accepted ws) then f # ws else ws)"

text \<open>A lock manager and a resource side by side. Whoever was ever granted the lock may write at any moment, with
  or without a lease, as often as it likes.\<close>

inductive fenced_run ::
  "('c \<Rightarrow> bool) \<Rightarrow> ('c \<Rightarrow> 'c \<Rightarrow> bool) \<Rightarrow> ('c \<Rightarrow> FencingToken list) \<Rightarrow> 'c \<Rightarrow> FencingToken list \<Rightarrow> bool"
  for start step fences where
  begins: "start c \<Longrightarrow> fenced_run start step fences c []"
| manager: "fenced_run start step fences c ws \<Longrightarrow> step c c' \<Longrightarrow> fenced_run start step fences c' ws"
| wrote: "fenced_run start step fences c ws \<Longrightarrow> f \<in> set (fences c) \<Longrightarrow> fenced_run start step fences c (resource_write f ws)"

text \<open>How grants and accepted writes (both the latest first) should be related: writes are accepted in the order of
  the grants, at most one for each; the newest grant is never shut out by another one; and once a grant has written, no older
  one can.\<close>

definition orderly :: "FencingToken list \<Rightarrow> FencingToken list \<Rightarrow> bool" where
  "orderly fs ws \<longleftrightarrow> subseq ws fs \<and>
     (\<forall>f older. fs = f # older \<longrightarrow> resource_write f ws = (if f \<in> set ws then ws else f # ws)) \<and>
     (\<forall>xs new ys old. fs = xs @ new # ys \<and> new \<in> set ws \<and> old \<in> set ys \<longrightarrow> resource_write old ws = ws)"

text \<open>A list in strictly falling order is a subsequence of every such list with the same elements.\<close>

lemma supersedes_iff: "supersedes a b \<longleftrightarrow> b < a"
  by (simp add: supersedes_def less_FencingToken_def)

lemma falling_subseq:
  fixes xs ys :: "'a :: linorder list"
  assumes "sorted_wrt (>) xs" "sorted_wrt (>) ys" "set xs \<subseteq> set ys"
  shows "subseq xs ys"
  using assms
proof (induction ys arbitrary: xs)
  case (Cons y ys)
  show ?case
  proof (cases xs)
    case (Cons x xs')
    show ?thesis
    proof (cases "x = y")
      case True
      have "set xs' \<subseteq> set ys" using Cons.prems Cons True by auto
      with Cons.IH [of xs'] Cons.prems Cons True show ?thesis by simp
    next
      case False
      then have "x < y" using Cons.prems Cons by auto
      then have "set xs \<subseteq> set ys" using Cons.prems Cons by (auto dest: order.strict_trans)
      with Cons.IH [of xs] Cons.prems show ?thesis by (simp add: list_emb_Cons)
    qed
  qed simp
qed simp

locale fence_source =
  fixes start :: "'c \<Rightarrow> bool" and step :: "'c \<Rightarrow> 'c \<Rightarrow> bool" and fences :: "'c \<Rightarrow> FencingToken list" and kept :: "'c \<Rightarrow> bool"
  assumes nothing_issued: "start c \<Longrightarrow> fences c = []"
    and one_grant: "step c c' \<Longrightarrow> fences c' = fences c \<or> (\<exists>f. fences c' = f # fences c)"
    and kept_before: "step c c' \<Longrightarrow> kept c' \<Longrightarrow> kept c"
    and increasing: "start c \<Longrightarrow> step\<^sup>*\<^sup>* c c' \<Longrightarrow> kept c' \<Longrightarrow> sorted_wrt supersedes (fences c') \<and> (\<forall>f \<in> set (fences c'). supersedes f ZERO)"
begin

lemma run_reaches: "fenced_run start step fences c ws \<Longrightarrow> \<exists>c0. start c0 \<and> step\<^sup>*\<^sup>* c0 c"
  by (induction rule: fenced_run.induct) (auto intro: rtranclp.rtrancl_into_rtrancl)

lemma run_increasing:
  assumes "fenced_run start step fences c ws" "kept c"
  shows "sorted_wrt (>) (fences c)" "\<forall>f \<in> set (fences c). ZERO < f"
proof -
  have gt: "supersedes = (>)" by (intro ext) (simp add: supersedes_iff)
  show "sorted_wrt (>) (fences c)" "\<forall>f \<in> set (fences c). ZERO < f"
    using run_reaches [OF assms(1)] increasing assms(2) unfolding gt by blast+
qed

text \<open>The accepted writes are strictly ordered and come from grants.\<close>

lemma run_accepted: "fenced_run start step fences c ws \<Longrightarrow> sorted_wrt (>) ws \<and> set ws \<subseteq> set (fences c)"
proof (induction rule: fenced_run.induct)
  case (manager c ws c')
  then show ?case using one_grant [OF manager(2)] by auto
next
  case (wrote c ws f)
  then show ?case
    by (cases ws) (auto simp: resource_write_def last_accepted_def supersedes_iff)
qed simp

lemma writes_in_grant_order:
  assumes "fenced_run start step fences c ws" "kept c"
  shows "subseq ws (fences c)"
  using falling_subseq [of ws "fences c"] run_accepted [OF assms(1)] run_increasing(1) [OF assms] by blast

lemma newest_may_write:
  assumes "fenced_run start step fences c ws" "kept c" "fences c = f # fs"
  shows "resource_write f ws = (if f \<in> set ws then ws else f # ws)"
  using run_accepted [OF assms(1)] run_increasing [OF assms(1,2)] assms(3)
  by (cases ws) (force simp: resource_write_def last_accepted_def supersedes_iff)+

text \<open>Once a newer grant has written, an older one is rejected.\<close>

lemma older_rejected:
  assumes "fenced_run start step fences c ws" "kept c" "fences c = xs @ new # ys" "old \<in> set ys" "new \<in> set ws"
  shows "resource_write old ws = ws"
proof -
  have "old < new" using run_increasing(1) [OF assms(1,2)] assms(3,4) by (auto simp: sorted_wrt_append)
  moreover have "new \<le> last_accepted ws"
    using run_accepted [OF assms(1)] assms(5) by (cases ws) (auto simp: last_accepted_def)
  ultimately show ?thesis by (simp add: resource_write_def supersedes_iff)
qed

lemma run_orderly: "fenced_run start step fences c ws \<Longrightarrow> kept c \<Longrightarrow> orderly (fences c) ws"
  unfolding orderly_def using writes_in_grant_order newest_may_write older_rejected by (metis (no_types))

end

section \<open>The Redis mutex\<close>

text \<open>The fences of one key, as long as its counter is not lost.\<close>

definition mutex_fences :: "'s mutex_cfg \<Rightarrow> FencingToken list" where
  "mutex_fences c = map FencingToken (issued c)"

lemma mutex_steps_reach:
  "(mutex_step exec ks clock pass k)\<^sup>*\<^sup>* c c' \<Longrightarrow> mutex_init ks k c \<Longrightarrow> mutex_reach exec ks clock pass k c'"
  by (induction rule: rtranclp_induct) (auto intro: mutex_reach.intros)

lemma supersedes_map: "sorted_wrt supersedes (map FencingToken fs) \<longleftrightarrow> sorted_wrt (>) fs"
  by (simp add: sorted_wrt_map supersedes_def)

lemma counted_positive:
  assumes "fences_counted ks k c" "\<not> lapsed c"
  shows "sorted_wrt supersedes (mutex_fences c) \<and> (\<forall>f \<in> set (mutex_fences c). supersedes f ZERO)"
proof -
  have "0 < f" if "1 \<le> uint f" for f :: u64
    using that by (auto simp: word_less_def)
  with assms show ?thesis
    by (auto simp: fences_counted_def mutex_fences_def supersedes_map supersedes_def ZERO_def)
qed

sublocale redis_server < mutex_source: fence_source "mutex_init ks k" "mutex_step exec ks clock pass k" mutex_fences "\<lambda>c. \<not> lapsed c" for k
proof
  show "mutex_fences c = []" if "mutex_init ks k c" for c
    using that by (simp add: mutex_init_def mutex_fences_def)
next
  fix c c' assume "mutex_step exec ks clock pass k c c'"
  then show "mutex_fences c' = mutex_fences c \<or> (\<exists>f. mutex_fences c' = f # mutex_fences c)"
    and "\<not> lapsed c' \<Longrightarrow> \<not> lapsed c"
    by (auto elim!: mutex_step.cases simp: mutex_fences_def note_lapse_def)
next
  fix c c' assume "mutex_init ks k c" "(mutex_step exec ks clock pass k)\<^sup>*\<^sup>* c c'" "\<not> lapsed c'"
  then show "sorted_wrt supersedes (mutex_fences c') \<and> (\<forall>f \<in> set (mutex_fences c'). supersedes f ZERO)"
    using mutex_reach_counted counted_positive mutex_steps_reach by blast
qed

section \<open>The etcd backend\<close>

text \<open>The cluster and the fences of all grants on all keys; everything that is not a grant, failed attempts
  included, is requests and time.\<close>

inductive etcd_step ::
  "'s etcd \<Rightarrow> (nat \<Rightarrow> 's \<Rightarrow> 's) \<Rightarrow> 's \<times> FencingToken list \<Rightarrow> 's \<times> FencingToken list \<Rightarrow> bool" for exec pass where
  granted: "etcd_try_lock_with exec k opts a s = (Inr h, s') \<Longrightarrow>
    \<forall>x. world exec pass (\<lambda>_. True) x (ea_before a x) \<Longrightarrow> \<forall>x. world exec pass (\<lambda>_. True) x (ea_mid a x) \<Longrightarrow>
    etcd_step exec pass (s, fs) (s', eh_fence h # fs)"
| elsewhere: "world exec pass (\<lambda>_. True) s s' \<Longrightarrow> etcd_step exec pass (s, fs) (s', fs)"

definition etcd_fits :: "('s \<Rightarrow> eview) \<Rightarrow> 's \<times> FencingToken list \<Rightarrow> bool" where
  "etcd_fits view c \<longleftrightarrow> ev_rev (view (fst c)) < 2 ^ 64"

definition etcd_counted :: "('s \<Rightarrow> eview) \<Rightarrow> 's \<times> FencingToken list \<Rightarrow> bool" where
  "etcd_counted view c \<longleftrightarrow> sorted_wrt supersedes (snd c) \<and>
     (\<forall>f \<in> set (snd c). 0 < unat (fence_value f) \<and> unat (fence_value f) \<le> ev_rev (view (fst c)))"

context etcd_server
begin

lemma etcd_step_rev: "etcd_step exec pass c c' \<Longrightarrow> ev_rev (view (fst c)) \<le> ev_rev (view (fst c'))"
  by (erule etcd_step.cases) (auto dest: world_rev grant_revs intro: less_imp_le)

lemma etcd_step_counted:
  assumes "etcd_step exec pass c c'" "etcd_counted view c" "etcd_fits view c'"
  shows "etcd_counted view c'"
  using assms(1)
proof cases
  case (granted k opts a s h s' fs)
  have less: "ev_rev (view s) < ev_rev (view s')" using grant_revs [OF granted(3-5)] by simp
  have val: "unat (fence_value (eh_fence h)) = ev_rev (view s')"
    using try_lock_granted(6) [OF granted(3)] assms(3) granted(2)
    by (simp add: etcd_fits_def take_bit_nat_eq_self unsigned_of_nat)
  from assms(2) less val show ?thesis
    by (fastforce simp: granted etcd_counted_def supersedes_def word_less_nat_alt)
next
  case (elsewhere s s' fs)
  then show ?thesis using assms(2) world_rev [OF elsewhere(3)] by (fastforce simp: etcd_counted_def)
qed

lemma etcd_steps_counted:
  "(etcd_step exec pass)\<^sup>*\<^sup>* c c' \<Longrightarrow> snd c = [] \<Longrightarrow> etcd_fits view c' \<Longrightarrow> etcd_counted view c'"
proof (induction rule: rtranclp_induct)
  case base
  then show ?case by (simp add: etcd_counted_def)
next
  case (step d e)
  from etcd_step_rev [OF step(2)] step(5) have "etcd_fits view d" by (simp add: etcd_fits_def)
  with step show ?case using etcd_step_counted by blast
qed

end

sublocale etcd_server < etcd_source: fence_source "\<lambda>c. snd c = []" "etcd_step exec pass" snd "etcd_fits view"
proof
  fix c c' assume *: "etcd_step exec pass c c'"
  then show "snd c' = snd c \<or> (\<exists>f. snd c' = f # snd c)" by (auto elim!: etcd_step.cases)
  show "etcd_fits view c' \<Longrightarrow> etcd_fits view c" using etcd_step_rev [OF *] by (simp add: etcd_fits_def)
next
  fix c c' assume "snd c = []" "(etcd_step exec pass)\<^sup>*\<^sup>* c c'" "etcd_fits view c'"
  from etcd_steps_counted [OF this(2,1,3)]
  show "sorted_wrt supersedes (snd c') \<and> (\<forall>f \<in> set (snd c'). supersedes f ZERO)"
    by (auto simp: etcd_counted_def supersedes_def ZERO_def word_gt_0 unat_gt_0)
qed simp

section \<open>Both backends guard a resource\<close>

context redis_server
begin

lemmas mutex_orderly = mutex_source.run_orderly

end

context etcd_server
begin

lemmas etcd_orderly = etcd_source.run_orderly

end

text \<open>A run of each for the witnesses: a grant whose holder writes, and two grants on two keys of which the second writes first.\<close>

lemma ex_mutex_run:
  "fenced_run (mutex_init mem_ks ''k'') (mutex_step mem_exec mem_ks fst mem_pass ''k'') mutex_fences ex_cfg1 [FencingToken 1]"
proof -
  have run: "fenced_run (mutex_init mem_ks ''k'') (mutex_step mem_exec mem_ks fst mem_pass ''k'') mutex_fences ex_cfg1 []"
    using ex_cfg0_init ex_cfg1_step by (metis fenced_run.begins fenced_run.manager)
  from fenced_run.wrote [OF run, of "FencingToken 1"] show ?thesis
    by (simp add: mutex_fences_def ex_cfg1_simps resource_write_def last_accepted_def supersedes_def ZERO_def)
qed

lemma ex_etcd_run:
  "fenced_run (\<lambda>d. snd d = []) (etcd_step emem_exec emem_pass) snd (snd second_grant, [FencingToken 2, FencingToken 1]) [FencingToken 2]"
proof -
  have g: "etcd_try_lock_with emem_exec ''k'' default_options (quiet ''a'' Delivered) emem_init = (Inr first_handle, snd first_grant)"
    "etcd_try_lock_with emem_exec ''j'' default_options (quiet ''b'' Delivered) (snd first_grant) =
      (Inr (etcd_make_handle ''j'' ''b'' (FencingToken 2) 1 False), snd second_grant)"
    using first_grant_result second_grant_result by (simp_all add: first_grant_def second_grant_def prod_eq_iff)
  have s: "etcd_step emem_exec emem_pass (emem_init, []) (snd first_grant, [FencingToken 1])"
    "etcd_step emem_exec emem_pass (snd first_grant, [FencingToken 1]) (snd second_grant, [FencingToken 2, FencingToken 1])"
    using etcd_step.granted [OF g(1)] etcd_step.granted [OF g(2)] by (simp_all add: first_handle_def etcd_make_handle_def)
  have run: "fenced_run (\<lambda>d. snd d = []) (etcd_step emem_exec emem_pass) snd (snd second_grant, [FencingToken 2, FencingToken 1]) []"
    using s by (metis (mono_tags) fenced_run.begins fenced_run.manager snd_conv)
  from fenced_run.wrote [OF run, of "FencingToken 2"] show ?thesis
    by (simp add: resource_write_def last_accepted_def supersedes_def ZERO_def)
qed

end
