(* ===== verification/SimCheck.thy ===== *)
theory SimCheck
  imports Checker
begin

text \<open>
  The simulator meets the checker. Three invariants of the event loop: every frozen or holding
  worker's lease in the store is the one it remembers (\<open>workers_ok\<close>), the checker's state
  on the events so far mirrors the store (\<open>tracked\<close>), and all times stay below a bound that
  grows by a fixed amount per step (\<open>timely\<close>).
\<close>

section \<open>The checker mirrors the store\<close>

definition live_holds :: "SimStore \<Rightarrow> (nat \<times> u64) list" where
  "live_holds s = (case entry s of
      Some e \<Rightarrow> if now_ms s < expires_ms e then [(holder e, expires_ms e)] else []
    | None \<Rightarrow> [])"

definition tracked :: "u64 \<Rightarrow> Event list \<Rightarrow> SimStore \<Rightarrow> bool" where
  "tracked ttl evs s \<longleftrightarrow> sorted (map t_ms evs) \<and> (\<forall>e \<in> set evs. t_ms e \<le> now_ms s) \<and>
     (\<exists>c. check_from ttl evs check_init = Some (Inr c) \<and> ck_last_accepted c = last_accepted_fence s \<and>
        active (retain_live (now_ms s) c) = live_holds s)"

lemma tracked_advance:
  assumes "tracked ttl evs s" "now_ms s \<le> t"
  shows "tracked ttl evs (s\<lparr>now_ms := t\<rparr>)"
proof -
  obtain c where c: "check_from ttl evs check_init = Some (Inr c)" "ck_last_accepted c = last_accepted_fence s"
    "filter (\<lambda>(w, ex). now_ms s < ex) (active c) = live_holds s"
    using assms(1) by (auto simp: tracked_def active_retain)
  have "filter (\<lambda>(w, ex). t < ex) (active c) = filter (\<lambda>(w, ex). t < ex) (filter (\<lambda>(w, ex). now_ms s < ex) (active c))"
    using assms(2) by (auto intro!: filter_cong)
  also have "\<dots> = live_holds (s\<lparr>now_ms := t\<rparr>)"
    unfolding c(3) using assms(2) by (auto simp: live_holds_def split: option.splits)
  finally show ?thesis
    using assms c(1,2) by (auto simp: tracked_def active_retain)
qed

text \<open>Appending one event: enough to follow one checker step.\<close>

lemma tracked_snoc:
  assumes "tracked ttl evs s" "t_ms e = now_ms s" "now_ms s' = now_ms s"
    and "\<And>c. ck_last_accepted c = last_accepted_fence s \<Longrightarrow>
      active (retain_live (now_ms s) c) = live_holds s \<Longrightarrow>
      \<exists>c'. check_event ttl e c = Some (Inr c') \<and> ck_last_accepted c' = last_accepted_fence s' \<and>
        active (retain_live (now_ms s) c') = live_holds s'"
  shows "tracked ttl (evs @ [e]) s'"
proof -
  obtain c where c: "check_from ttl evs check_init = Some (Inr c)" "ck_last_accepted c = last_accepted_fence s"
    "active (retain_live (now_ms s) c) = live_holds s"
    using assms(1) by (auto simp: tracked_def)
  with assms show ?thesis
    by (fastforce simp: tracked_def sorted_append check_from_append)
qed

lemma retain_retain: "active (retain_live t (retain_live t c)) = active (retain_live t c)"
  by (simp add: active_retain)

lemma live_holds_live: "(w, ex) \<in> set (live_holds s) \<Longrightarrow> now_ms s < ex"
  by (auto simp: live_holds_def split: option.splits if_splits)

lemma tracked_skip:
  assumes "tracked ttl evs s" "t_ms e = now_ms s" "kind e = Deny \<or> kind e = WriteRejected"
  shows "tracked ttl (evs @ [e]) s"
  by (rule tracked_snoc [OF assms(1,2)]) (use assms(2,3) in \<open>auto simp: check_event_def Let_def retain_retain\<close>)

lemma tracked_grant:
  assumes "tracked ttl evs s" "cas_grant w ttl s = Some (Some f, s')" "\<not> broken_cas s"
  shows "tracked ttl (evs @ [\<lparr>t_ms = now_ms s, worker = w, kind = Grant, fence = f\<rparr>]) s'"
proof -
  obtain ex where s': "add_checked (fence_counter s) 1 = Some f" "add_checked (now_ms s) ttl = Some ex"
    "s' = s\<lparr>fence_counter := f, entry := Some \<lparr>holder = w, expires_ms = ex, en_fence = f\<rparr>\<rparr>"
    and free: "live_holds s = []"
    using assms(2,3) by (auto simp: cas_grant_def bind_Some_conv live_holds_def split: option.splits if_splits)
  have "f \<noteq> 0" using add_checked_Some [OF s'(1)] by auto
  then show ?thesis
    by (intro tracked_snoc [OF assms(1)])
      (use s' free in \<open>auto simp: check_event_def Let_def active_retain live_holds_def\<close>)
qed

lemma tracked_write:
  assumes "tracked ttl evs s" "fenced_write w f s = (ok, s')" "\<not> broken_fencing s"
  shows "tracked ttl (evs @ [\<lparr>t_ms = now_ms s, worker = w,
    kind = (if ok then WriteAccepted else WriteRejected), fence = f\<rparr>]) s'"
proof (cases ok)
  case True
  then have s': "s' = s\<lparr>last_accepted_fence := f\<rparr>" "last_accepted_fence s < f"
    and "holds_validly w f s"
    using assms(2,3) by (auto simp: fenced_write_def supersedes_def split: if_splits)
  then have "list_ex (\<lambda>(v, _). v = w) (live_holds s)"
    by (auto simp: holds_validly_def live_holds_def split: option.splits)
  with s' True show ?thesis
    by (intro tracked_snoc [OF assms(1)])
      (auto simp: check_event_def Let_def not_le active_retain live_holds_def split: option.splits)
next
  case False
  then have "s' = s" using assms(2) by (auto simp: fenced_write_def split: if_splits)
  with False assms(1) show ?thesis by (simp add: tracked_skip)
qed

lemma tracked_release:
  assumes "tracked ttl evs s" "sim_release w f s = (ok, s')"
    and "\<And>e. entry s = Some e \<Longrightarrow> holder e = w \<Longrightarrow> en_fence e = f"
  shows "tracked ttl (evs @ [\<lparr>t_ms = now_ms s, worker = w,
    kind = (if ok then ReleaseOk else ReleaseLost), fence = f\<rparr>]) s'"
proof (cases ok)
  case True
  then obtain e where e: "entry s = Some e" "holder e = w" "now_ms s < expires_ms e" "s' = s\<lparr>entry := None\<rparr>"
    using assms(2) by (auto simp: sim_release_def split: option.splits if_splits)
  then have "live_holds s = [(w, expires_ms e)]" by (simp add: live_holds_def)
  with e True show ?thesis
    by (intro tracked_snoc [OF assms(1)])
      (auto simp: check_event_def Let_def active_retain live_holds_def remove_nth_def)
next
  case False
  then have "s' = s" "\<And>ex. (w, ex) \<notin> set (live_holds s)"
    using assms(2,3) by (auto simp: sim_release_def live_holds_def split: option.splits if_splits)
  then have "find (\<lambda>(v, _). v = w) (live_holds s) = None" by (auto simp: find_None_iff)
  with False \<open>s' = s\<close> show ?thesis
    by (intro tracked_snoc [OF assms(1)]) (auto simp: check_event_def Let_def retain_retain)
qed

section \<open>What the workers remember\<close>

definition worker_ok :: "u64 \<Rightarrow> Entry option \<Rightarrow> nat \<Rightarrow> u64 \<Rightarrow> State \<Rightarrow> bool" where
  "worker_ok ttl en w wake x \<longleftrightarrow> (\<forall>e. en = Some e \<longrightarrow> holder e = w \<longrightarrow> (case x of
      Holding f release_at _ _ \<Rightarrow> en_fence e = f \<and> unat (expires_ms e) \<le> unat release_at + unat ttl
    | Paused f _ \<Rightarrow> en_fence e = f \<and> expires_ms e \<le> wake
    | _ \<Rightarrow> True))"

definition workers_ok :: "Scenario \<Rightarrow> Sim \<Rightarrow> bool" where
  "workers_ok sc st \<longleftrightarrow> length (states st) = workers sc \<and> length (wake_at st) = workers sc \<and>
     broken_cas (store st) = sc_broken_cas sc \<and> broken_fencing (store st) = sc_broken_fencing sc \<and>
     (\<forall>w < workers sc. worker_ok (sc_ttl_ms sc) (entry (store st)) w (wake_at st ! w) (states st ! w))"

lemma workers_ok_set:
  assumes "workers_ok sc st0" "states st = states st0" "wake_at st = wake_at st0"
    and "broken_cas (store st) = broken_cas (store st0)" "broken_fencing (store st) = broken_fencing (store st0)"
    and "\<And>e. entry (store st) = Some e \<Longrightarrow> holder e \<noteq> w \<Longrightarrow> entry (store st0) = Some e"
    and "worker_ok (sc_ttl_ms sc) (entry (store st)) w wake x"
  shows "workers_ok sc (set_worker w wake x st)"
proof -
  have "worker_ok (sc_ttl_ms sc) (entry (store st)) v ((wake_at st0)[w := wake] ! v) ((states st0)[w := x] ! v)"
    if "v < workers sc" for v
  proof (cases "v = w")
    case True
    with that assms(1,7) show ?thesis by (simp add: workers_ok_def)
  next
    case False
    have "worker_ok (sc_ttl_ms sc) (entry (store st0)) v (wake_at st0 ! v) (states st0 ! v)"
      using assms(1) that by (simp add: workers_ok_def)
    with False assms(6) show ?thesis by (simp add: worker_ok_def)
  qed
  with assms(1-5) show ?thesis by (simp add: workers_ok_def)
qed

lemma worker_ok_triv [simp]: "worker_ok ttl en w wake (Idle n)" "worker_ok ttl en w wake Done"
  by (simp_all add: worker_ok_def)

lemma store_step_write [simp]:
  "now_ms (store (step_write w f st)) = now_ms (store st)"
  "entry (store (step_write w f st)) = entry (store st)"
  "broken_cas (store (step_write w f st)) = broken_cas (store st)"
  "broken_fencing (store (step_write w f st)) = broken_fencing (store st)"
  "fence_counter (store (step_write w f st)) = fence_counter (store st)"
  by (simp_all add: step_write_def fenced_write_def)

lemma sim_release_store:
  "sim_release w f s = (ok, s') \<Longrightarrow> now_ms s' = now_ms s \<and> broken_cas s' = broken_cas s \<and>
     broken_fencing s' = broken_fencing s \<and> (entry s' = entry s \<or> entry s' = None) \<and>
     fence_counter s' = fence_counter s"
  by (auto simp: sim_release_def split: option.splits if_splits)

lemma advance_store [simp]:
  "entry (store (advance w st)) = entry (store st)"
  "broken_cas (store (advance w st)) = broken_cas (store st)"
  "broken_fencing (store (advance w st)) = broken_fencing (store st)"
  "fence_counter (store (advance w st)) = fence_counter (store st)"
  "last_accepted_fence (store (advance w st)) = last_accepted_fence (store st)"
  by (simp_all add: advance_def)

lemma workers_ok_advance: "workers_ok sc st \<Longrightarrow> workers_ok sc (advance w st)"
  by (simp add: workers_ok_def)

lemma cas_grant_SomeD:
  assumes "cas_grant w ttl s = Some (g, s')"
  shows "now_ms s' = now_ms s" "broken_cas s' = broken_cas s" "broken_fencing s' = broken_fencing s"
    "g = None \<Longrightarrow> s' = s"
    "g = Some f \<Longrightarrow> \<exists>ex. add_checked (now_ms s) ttl = Some ex \<and>
       entry s' = Some \<lparr>holder = w, expires_ms = ex, en_fence = f\<rparr>"
  using assms by (auto simp: cas_grant_def bind_Some_conv split: if_splits)

text \<open>The shapes a scheduling step can have.\<close>

lemma step_idle_cases:
  assumes "step_idle sc w n st = Some st'"
  obtains (stop) "st' = set_worker w (- 1) Done st"
    | (grant) s1 f r1 r2 ra wp wake where "cas_grant w (sc_ttl_ms sc) (store st) = Some (Some f, s1)"
      "st' = set_worker w wake (Holding f ra wp (n - 1)) (emit w Grant f (st\<lparr>rng := r1, store := s1\<rparr>)\<lparr>rng := r2\<rparr>)"
      "unat (now_ms (store st)) \<le> unat ra"
    | (deny) wake r1 r2 where "st' = set_worker w wake (Idle (n - 1)) (emit w Deny 0 (st\<lparr>rng := r1\<rparr>)\<lparr>rng := r2\<rparr>)"
    | (skip) wake r1 where "st' = set_worker w wake (Idle (n - 1)) (st\<lparr>rng := r1\<rparr>)"
proof -
  obtain x r1 where r1: "below (rng st) 100 = (x, r1)" by fastforce
  consider (zero) "n = 0" | (draw) "n \<noteq> 0" "x < 70" | (rest) "n \<noteq> 0" "\<not> x < 70" by blast
  then show ?thesis
  proof cases
    case zero
    with assms show ?thesis by (intro stop) (simp add: step_idle_def)
  next
    case rest
    with assms r1 show ?thesis by (auto simp: step_idle_def bind_Some_conv intro: skip)
  next
    case draw
    with assms r1 obtain g s1 where g: "cas_grant w (sc_ttl_ms sc) (store st) = Some (g, s1)"
      by (auto simp: step_idle_def bind_Some_conv)
    show ?thesis
    proof (cases g)
      case None
      then have "s1 = store st" using cas_grant_SomeD(4) [OF g] by simp
      with None assms r1 draw g show ?thesis
        by (auto simp: step_idle_def bind_Some_conv Let_def split_beta intro: deny)
    next
      case (Some f)
      with assms r1 draw g cas_grant_SomeD(1) [OF g] show ?thesis
        by (auto simp: step_idle_def bind_Some_conv Let_def split_beta dest!: add_checked_Some
            intro!: grant [of f s1] split: if_splits)
    qed
  qed
qed

lemma step_idle_workers:
  assumes "step_idle sc w n st = Some st'" "workers_ok sc st"
  shows "workers_ok sc st'"
  using assms(1)
proof (cases rule: step_idle_cases)
  case (grant s1 f r1 r2 ra wp wake)
  note g = cas_grant_SomeD [OF grant(1)]
  obtain ex where ex: "add_checked (now_ms (store st)) (sc_ttl_ms sc) = Some ex"
    "entry s1 = Some \<lparr>holder = w, expires_ms = ex, en_fence = f\<rparr>"
    using g(5) by blast
  then show ?thesis
    unfolding grant(2) using g(2,3) grant(3) add_checked_Some [OF ex(1)]
    by (intro workers_ok_set [OF assms(2)]) (auto simp: worker_ok_def)
qed (auto intro!: workers_ok_set [OF assms(2)])

lemma step_holding_cases:
  assumes "step_holding sc w f ra wp b st = Some st'"
  obtains (freeze) wake where "st' = set_worker w wake (Paused f b) st"
      "unat ra + unat (sc_ttl_ms sc) \<le> unat wake"
    | (finish) ok s2 wake r where "sim_release w f (store (step_write w f st)) = (ok, s2)"
      "st' = set_worker w wake (Idle b) (emit w (if ok then ReleaseOk else ReleaseLost) f
         ((step_write w f st)\<lparr>store := s2\<rparr>)\<lparr>rng := r\<rparr>)"
    | (wait) "st' = set_worker w ra (Holding f ra wp b) st"
proof -
  obtain ok s2 where s2: "sim_release w f (store (step_write w f st)) = (ok, s2)" by fastforce
  show ?thesis
    using assms s2
    by (auto simp: step_holding_def bind_Some_conv Let_def split_beta dest!: add_checked_Some
        intro: freeze finish wait split: if_splits)
qed

lemma step_holding_workers:
  assumes "step_holding sc w f ra wp b st = Some st'" "workers_ok sc st" "w < workers sc"
    and "states st ! w = Holding f ra wp b"
  shows "workers_ok sc st'"
proof -
  have ok: "worker_ok (sc_ttl_ms sc) (entry (store st)) w (wake_at st ! w) (Holding f ra wp b)"
    using assms(2-4) by (auto simp: workers_ok_def)
  from assms(1) show ?thesis
  proof (cases rule: step_holding_cases)
    case (freeze wake)
    with ok show ?thesis
      by (auto intro!: workers_ok_set [OF assms(2)] simp: worker_ok_def word_le_nat_alt)
  next
    case (finish r s2 wake rng')
    with sim_release_store [OF finish(1)] show ?thesis
      by (auto intro!: workers_ok_set [OF assms(2)])
  next
    case wait
    with ok show ?thesis by (auto intro!: workers_ok_set [OF assms(2)] simp: worker_ok_def)
  qed
qed

lemma step_paused_cases:
  assumes "step_paused w f b st = Some st'"
  obtains wake where "sim_release w f (store (step_write w f st)) = (False, store (step_write w f st))"
    "st' = set_worker w wake (Idle b) (emit w ReleaseLost f (step_write w f st))"
proof -
  obtain ok s2 where s2: "sim_release w f (store (step_write w f st)) = (ok, s2)" by fastforce
  then have "ok \<or> s2 = store (step_write w f st)"
    by (auto simp: sim_release_def split: option.splits if_splits)
  with s2 assms show ?thesis
    by (auto simp: step_paused_def bind_Some_conv Let_def split: if_splits intro!: that)
qed

lemma step_paused_workers:
  assumes "step_paused w f b st = Some st'" "workers_ok sc st"
  shows "workers_ok sc st'"
  using assms(1) by (cases rule: step_paused_cases) (auto intro!: workers_ok_set [OF assms(2)])

lemma sim_step_workers:
  assumes "sim_step sc w st = Some st'" "workers_ok sc st"
  shows "workers_ok sc st'"
proof -
  have w: "w < workers sc" using sim_step_moves(2) [OF assms(1)] assms(2) by (simp add: workers_ok_def)
  note adv = workers_ok_advance [OF assms(2), of w]
  show ?thesis
    using assms(1) w adv
    by (auto simp: sim_step_def Let_def split: if_splits State.splits
        intro: step_idle_workers step_holding_workers step_paused_workers)
qed

section \<open>Clean runs are tracked\<close>

lemma events_emit: "events (emit w k f st) =
    events st @ [\<lparr>t_ms = now_ms (store st), worker = w, kind = k, fence = f\<rparr>]"
  by (simp add: emit_def)

lemma tracked_step_write:
  assumes "tracked ttl (events st) (store st)" "\<not> broken_fencing (store st)"
  shows "tracked ttl (events (step_write w f st)) (store (step_write w f st))"
proof -
  obtain ok s1 where s1: "fenced_write w f (store st) = (ok, s1)" by fastforce
  then have "now_ms s1 = now_ms (store st)" by (auto simp: fenced_write_def split: if_splits)
  with tracked_write [OF assms(1) s1 assms(2)] s1 show ?thesis
    by (simp add: step_write_def events_emit)
qed

lemma step_idle_tracked:
  assumes "step_idle sc w n st = Some st'" "tracked (sc_ttl_ms sc) (events st) (store st)"
    and "\<not> broken_cas (store st)"
  shows "tracked (sc_ttl_ms sc) (events st') (store st')"
  using assms(1)
proof (cases rule: step_idle_cases)
  case (grant s1 f r1 r2 ra wp wake)
  with tracked_grant [OF assms(2) grant(1) assms(3)] cas_grant_SomeD(1) [OF grant(1)]
  show ?thesis by (simp add: events_emit)
qed (use assms(2) in \<open>auto simp: events_emit intro!: tracked_skip\<close>)

lemma step_holding_tracked:
  assumes "step_holding sc w f ra wp b st = Some st'" "tracked (sc_ttl_ms sc) (events st) (store st)"
    and "\<not> broken_fencing (store st)" "worker_ok ttl (entry (store st)) w wake (Holding f ra wp b)"
  shows "tracked (sc_ttl_ms sc) (events st') (store st')"
  using assms(1)
proof (cases rule: step_holding_cases)
  case (finish ok s2 wake' r)
  have "en_fence e = f" if "entry (store (step_write w f st)) = Some e" "holder e = w" for e
    using that assms(4) by (simp add: worker_ok_def)
  with tracked_release [OF tracked_step_write [OF assms(2,3)] finish(1)] sim_release_store [OF finish(1)]
  show ?thesis by (simp add: finish(2) events_emit)
qed (use assms(2) in auto)

lemma step_paused_tracked:
  assumes "step_paused w f b st = Some st'" "tracked ttl (events st) (store st)"
    and "\<not> broken_fencing (store st)" "worker_ok ttl' (entry (store st)) w wake (Paused f b)"
  shows "tracked ttl (events st') (store st')"
  using assms(1)
proof (cases rule: step_paused_cases)
  case (1 wake')
  have "en_fence e = f" if "entry (store (step_write w f st)) = Some e" "holder e = w" for e
    using that assms(4) by (simp add: worker_ok_def)
  with tracked_release [OF tracked_step_write [OF assms(2,3)] 1(1)] show ?thesis
    by (simp add: 1(2) events_emit)
qed

lemma sim_step_tracked:
  assumes "sim_step sc w st = Some st'" "workers_ok sc st" "tracked (sc_ttl_ms sc) (events st) (store st)"
    and "\<not> sc_broken_cas sc" "\<not> sc_broken_fencing sc"
  shows "tracked (sc_ttl_ms sc) (events st') (store st')"
proof -
  let ?a = "advance w st"
  have w: "w < workers sc" using sim_step_moves(2) [OF assms(1)] assms(2) by (simp add: workers_ok_def)
  have t: "tracked (sc_ttl_ms sc) (events ?a) (store ?a)"
    using tracked_advance [OF assms(3)] by (simp add: advance_def)
  have b: "\<not> broken_cas (store ?a)" "\<not> broken_fencing (store ?a)"
    and ok: "worker_ok (sc_ttl_ms sc) (entry (store ?a)) w (wake_at st ! w) (states st ! w)"
    using assms(2,4,5) w by (auto simp: workers_ok_def)
  show ?thesis
    using assms(1) ok
    by (auto simp: sim_step_def Let_def split: if_splits State.splits
        intro: step_idle_tracked [OF _ t b(1)] step_holding_tracked [OF _ t b(2)] step_paused_tracked [OF _ t b(2)])
qed

section \<open>No overflow\<close>

text \<open>One step moves every time, and the fence counter, by at most \<open>pace\<close>.\<close>

definition pace :: "Scenario \<Rightarrow> nat" where
  "pace sc = 2 * unat (sc_ttl_ms sc) + 20"

definition worker_timely :: "nat \<Rightarrow> u64 \<Rightarrow> State \<Rightarrow> bool" where
  "worker_timely T wake x \<longleftrightarrow> (case x of
      Done \<Rightarrow> True
    | Holding f release_at _ _ \<Rightarrow> unat wake \<le> T \<and> unat release_at \<le> T
    | _ \<Rightarrow> unat wake \<le> T)"

definition timely :: "nat \<Rightarrow> Sim \<Rightarrow> bool" where
  "timely T st \<longleftrightarrow> unat (now_ms (store st)) \<le> T \<and> unat (fence_counter (store st)) \<le> T \<and>
     (\<forall>w < length (states st). worker_timely T (wake_at st ! w) (states st ! w))"

lemma worker_timely_mono: "worker_timely T wake x \<Longrightarrow> T \<le> T' \<Longrightarrow> worker_timely T' wake x"
  by (auto simp: worker_timely_def split: State.splits)

lemma timely_set:
  assumes "timely T st0" "T \<le> T'" "states st = states st0" "wake_at st = wake_at st0"
    and "length (wake_at st0) = length (states st0)"
    and "unat (now_ms (store st)) \<le> T'" "unat (fence_counter (store st)) \<le> T'" "worker_timely T' wake x"
  shows "timely T' (set_worker w wake x st)"
proof -
  have "worker_timely T' ((wake_at st0)[w := wake] ! v) ((states st0)[w := x] ! v)"
    if "v < length (states st0)" for v
    using that assms(1,5,8) worker_timely_mono [OF _ assms(2)] by (cases "v = w") (auto simp: timely_def)
  with assms show ?thesis by (simp add: timely_def)
qed

lemma timely_advance:
  assumes "timely T st" "w < length (states st)" "states st ! w \<noteq> Done"
  shows "timely T (advance w st)"
proof -
  have "unat (wake_at st ! w) \<le> T"
    using assms by (cases "states st ! w") (auto simp: timely_def worker_timely_def)
  with assms(1) show ?thesis by (simp add: timely_def advance_def max_def)
qed

lemma below_bound: "below r n = (x, r') \<Longrightarrow> unat x \<le> unat n"
  by (auto simp: below_def Let_def unat_mod unat_gt_0 less_imp_le split: if_splits)

lemma add_checked_ok: "unat a + unat b < 2 ^ 64 \<Longrightarrow> add_checked a b = Some (a + b)"
  by (simp add: add_checked_def)

lemma unat_add_ok: "unat (a::u64) + unat b < 2 ^ 64 \<Longrightarrow> unat (a + b) = unat a + unat b"
  by (simp add: unat_word_ariths)

lemma cas_grant_total:
  assumes "unat (now_ms s) \<le> T" "unat (fence_counter s) \<le> T" "T + unat ttl + 20 < 2 ^ 64"
  shows "\<exists>g s'. cas_grant w ttl s = Some (g, s') \<and> now_ms s' = now_ms s \<and> unat (fence_counter s') \<le> T + 1"
  using assms by (auto simp: cas_grant_def add_checked_ok unat_add_ok split: option.splits)

lemma step_idle_total:
  assumes t: "timely T st" "length (wake_at st) = length (states st)" "T + pace sc < 2 ^ 64"
    and wake: "unat (wake_at st ! w) \<le> T"
  shows "\<exists>st'. step_idle sc w n st = Some st' \<and> timely (T + pace sc) st'"
proof (cases "n = 0")
  case True
  with timely_set [OF t(1) _ refl refl t(2), of "T + pace sc" "- 1" Done w] t(1) show ?thesis
    by (auto simp: step_idle_def worker_timely_def [of _ _ Done] timely_def [of _ st])
next
  case False
  have T: "unat (now_ms (store st)) \<le> T" "unat (fence_counter (store st)) \<le> T"
    using t(1) by (auto simp: timely_def)
  obtain x r1 where r1: "below (rng st) 100 = (x, r1)" by fastforce
  obtain g s1 where g: "cas_grant w (sc_ttl_ms sc) (store st) = Some (g, s1)" "now_ms s1 = now_ms (store st)"
    "unat (fence_counter s1) \<le> T + 1"
    using cas_grant_total [OF T, of "sc_ttl_ms sc" w] t(3) by (auto simp: pace_def)
  obtain wp r2 where r2: "pct r1 (pause_probability_pct sc) = (wp, r2)" by fastforce
  obtain extra r3 where r3: "below r2 (sc_ttl_ms sc div 2) = (extra, r3)" by fastforce
  have extra: "unat extra \<le> unat (sc_ttl_ms sc)"
    using below_bound [OF r3] by (simp add: unat_div)
  define hold where "hold = 5 + extra"
  have h5: "unat (5::u64) + unat extra < 2 ^ 64"
    using extra t(3) by (simp add: pace_def)
  then have hold: "unat hold \<le> unat (sc_ttl_ms sc) + 5" "add_checked 5 extra = Some hold"
    using extra by (simp_all add: hold_def unat_add_ok add_checked_ok)
  have half: "unat (hold div 2) \<le> unat hold" by (simp add: unat_div)
  have sums: "unat (now_ms s1) + unat hold < 2 ^ 64" "unat (now_ms s1) + unat (hold div 2) < 2 ^ 64"
    using hold(1) half T(1) t(3) g(2) by (simp_all add: pace_def)
  obtain y r4 where r4: "below r1 3 = (y, r4)" by fastforce
  have y: "unat y \<le> 3" using below_bound [OF r4] by simp
  then have y1: "unat (1::u64) + unat y < 2 ^ 64" by simp
  have y2: "unat (wake_at st ! w) + unat (1 + y) < 2 ^ 64" "unat (wake_at st ! w) + unat (1::u64) < 2 ^ 64"
    using y wake t(3) unat_add_ok [OF y1] by (simp_all add: pace_def)
  have bounds: "worker_timely (T + pace sc) (now_ms s1 + (hold div 2)) (Holding f (now_ms s1 + hold) p b)"
    "worker_timely (T + pace sc) (now_ms s1 + hold) (Holding f (now_ms s1 + hold) p b)"
    "worker_timely (T + pace sc) (wake_at st ! w + (1 + y)) (Idle m)"
    "worker_timely (T + pace sc) (wake_at st ! w + 1) (Idle m)" for f p b m
    using unat_add_ok [OF sums(1)] unat_add_ok [OF sums(2)] unat_add_ok [OF y2(1)] unat_add_ok [OF y2(2)]
      unat_add_ok [OF y1] hold(1) half T(1) g(2) wake y
    by (simp_all add: worker_timely_def pace_def)
  have fin: "timely (T + pace sc) (set_worker w wk z st1)"
    if "states st1 = states st" "wake_at st1 = wake_at st" "store st1 = store st \<or> store st1 = s1"
      "worker_timely (T + pace sc) wk z" for wk z st1
    using that T g(2,3) t(2) by (intro timely_set [OF t(1)]) (auto simp: pace_def)
  show ?thesis
    using False g(1) hold(2) bounds
    by (cases g) (auto simp: step_idle_def r1 r2 r3 r4 add_checked_ok [OF sums(1)] add_checked_ok [OF sums(2)]
        add_checked_ok [OF y1] add_checked_ok [OF y2(1)] add_checked_ok [OF y2(2)] intro!: fin split: option.splits)
qed

lemma step_finish_total:
  assumes t: "timely T st" "length (wake_at st) = length (states st)" "T + pace sc < 2 ^ 64"
    and rel: "sim_release w f (store (step_write w f st)) = (ok, s2)" and y: "unat y \<le> 4"
    and st1: "states st1 = states st" "wake_at st1 = wake_at st" "store st1 = s2"
  shows "add_checked (now_ms s2) y = Some (now_ms s2 + y) \<and>
    timely (T + pace sc) (set_worker w (now_ms s2 + y) (Idle b) st1)"
proof -
  have s2: "now_ms s2 = now_ms (store st)" "fence_counter s2 = fence_counter (store st)"
    using sim_release_store [OF rel] by simp_all
  have T: "unat (now_ms s2) \<le> T" "unat (fence_counter s2) \<le> T" using t(1) s2 by (auto simp: timely_def)
  then have sum: "unat (now_ms s2) + unat y < 2 ^ 64" using t(3) y by (simp add: pace_def)
  then show ?thesis
    using T y st1 t(2) unat_add_ok [OF sum]
    by (auto simp: add_checked_ok worker_timely_def pace_def intro!: timely_set [OF t(1)])
qed

lemma step_holding_total:
  assumes t: "timely T st" "length (wake_at st) = length (states st)" "T + pace sc < 2 ^ 64"
    and ra: "unat ra \<le> T"
  shows "\<exists>st'. step_holding sc w f ra wp b st = Some st' \<and> timely (T + pace sc) st'"
proof -
  have T: "unat (now_ms (store st)) \<le> T" "unat (fence_counter (store st)) \<le> T"
    using t(1) by (auto simp: timely_def)
  have s1: "unat ra + unat (sc_ttl_ms sc) < 2 ^ 64" using ra t(3) by (simp add: pace_def)
  have s2: "unat (ra + sc_ttl_ms sc) + unat (10::u64) < 2 ^ 64"
    using ra t(3) unat_add_ok [OF s1] by (simp add: pace_def)
  have freeze: "timely (T + pace sc) (set_worker w (ra + sc_ttl_ms sc + 10) (Paused f b) st)"
    using T t(2) ra unat_add_ok [OF s1] unat_add_ok [OF s2]
    by (intro timely_set [OF t(1)]) (auto simp: worker_timely_def pace_def)
  have wait: "timely (T + pace sc) (set_worker w ra (Holding f ra wp b) st)"
    using T t(2) ra by (intro timely_set [OF t(1)]) (auto simp: worker_timely_def pace_def)
  obtain ok s3 where rel: "sim_release w f (store (step_write w f st)) = (ok, s3)" by fastforce
  obtain y r where r: "below (rng st) 4 = (y, r)" by fastforce
  have y: "unat y \<le> 4" using below_bound [OF r] by simp
  note fin = step_finish_total [OF t rel y]
  have sum: "add_checked (now_ms s3) y = Some (now_ms s3 + y)"
    using fin [of "(step_write w f st)\<lparr>store := s3\<rparr>"] by simp
  show ?thesis
    using freeze wait
    by (auto simp: step_holding_def add_checked_ok [OF s1] add_checked_ok [OF s2] rel r Let_def sum
        intro!: conjunct2 [OF fin])
qed

lemma step_paused_total:
  assumes t: "timely T st" "length (wake_at st) = length (states st)" "T + pace sc < 2 ^ 64"
    and dead: "\<And>e. entry (store st) = Some e \<Longrightarrow> holder e = w \<Longrightarrow> expires_ms e \<le> now_ms (store st)"
  shows "\<exists>st'. step_paused w f b st = Some st' \<and> timely (T + pace sc) st'"
proof -
  obtain ok s3 where rel: "sim_release w f (store (step_write w f st)) = (ok, s3)" by fastforce
  with dead have "\<not> ok" by (fastforce simp: sim_release_def split: option.splits if_splits)
  note fin = step_finish_total [OF t rel, of 1]
  have sum: "add_checked (now_ms s3) 1 = Some (now_ms s3 + 1)"
    using fin [of "(step_write w f st)\<lparr>store := s3\<rparr>"] by simp
  show ?thesis
    using \<open>\<not> ok\<close> rel by (auto simp: step_paused_def Let_def sum intro!: conjunct2 [OF fin])
qed

lemma sim_step_total:
  assumes t: "timely T st" "workers_ok sc st" "T + pace sc < 2 ^ 64"
    and w: "w < workers sc" "states st ! w \<noteq> Done"
  shows "\<exists>st'. sim_step sc w st = Some st' \<and> timely (T + pace sc) st'"
proof -
  let ?a = "advance w st"
  have len: "length (states st) = workers sc" "length (wake_at st) = workers sc"
    and ok: "worker_ok (sc_ttl_ms sc) (entry (store st)) w (wake_at st ! w) (states st ! w)"
    and time: "worker_timely T (wake_at st ! w) (states st ! w)"
    using t(1,2) w(1) by (auto simp: workers_ok_def timely_def)
  have a: "timely T ?a" "length (wake_at ?a) = length (states ?a)"
    using timely_advance [OF t(1)] w len by simp_all
  have past: "wake_at st ! w \<le> now_ms (store ?a)" by (simp add: advance_def)
  show ?thesis
  proof (cases "states st ! w")
    case (Idle n)
    with step_idle_total [OF a t(3), of w n] time len w(1) show ?thesis
      by (auto simp: sim_step_def worker_timely_def)
  next
    case (Holding f ra wp b)
    with step_holding_total [OF a t(3), of ra w f wp b] time len w(1) show ?thesis
      by (auto simp: sim_step_def worker_timely_def)
  next
    case (Paused f b)
    have "\<exists>st'. step_paused w f b ?a = Some st' \<and> timely (T + pace sc) st'"
      by (rule step_paused_total [OF a t(3)]) (use Paused ok past in \<open>auto simp: worker_ok_def\<close>)
    with Paused len w(1) show ?thesis by (auto simp: sim_step_def)
  qed (use w in simp)
qed

lemma min_by_key_in: "min_by_key key xs = Some x \<Longrightarrow> x \<in> set xs"
  by (induction xs arbitrary: x) (auto split: option.splits if_splits)

lemma run_loop_total:
  assumes "timely T st" "workers_ok sc st" "T + pace sc * remaining st < 2 ^ 64"
  shows "\<exists>st'. run_loop sc st = Some st'"
  using assms
proof (induction sc st arbitrary: T rule: run_loop.induct)
  case (1 sc st)
  show ?case
  proof (cases "next_worker sc st")
    case None
    then show ?thesis by (simp add: run_loop.simps)
  next
    case (Some w)
    then have w: "w < workers sc" "states st ! w \<noteq> Done"
      by (auto simp: next_worker_def dest: min_by_key_in)
    have "states st ! w \<noteq> Done \<Longrightarrow> weight (wake_at st ! w) (states st ! w) > 0"
      by (auto simp: weight_def split: State.splits)
    then have "0 < remaining st"
      using w "1.prems"(2) unfolding remaining_def workers_ok_def
      by (auto intro!: sum_pos2 [of _ w])
    then have "T + pace sc < 2 ^ 64" using "1.prems"(3)
      by (metis add_le_cancel_left le_less_trans mult.commute mult_le_mono1 nat_mult_1 One_nat_def Suc_leI)
    then obtain st' where st': "sim_step sc w st = Some st'" "timely (T + pace sc) st'"
      using sim_step_total [OF "1.prems"(1,2) _ w] by blast
    have "Suc (remaining st') \<le> remaining st" using sim_step_remaining [OF st'(1)] by simp
    then have "pace sc * Suc (remaining st') \<le> pace sc * remaining st" by (rule mult_le_mono2)
    then have "T + pace sc + pace sc * remaining st' < 2 ^ 64" using "1.prems"(3) by simp
    with "1.IH" [OF Some st'(1) st'(2) sim_step_workers [OF st'(1) "1.prems"(2)]] Some st'(1)
    show ?thesis by (simp add: run_loop.simps [of sc st])
  qed
qed

lemma run_loop_invariant:
  assumes "run_loop sc st = Some st'" "workers_ok sc st" "tracked (sc_ttl_ms sc) (events st) (store st)"
    and "\<not> sc_broken_cas sc" "\<not> sc_broken_fencing sc"
  shows "tracked (sc_ttl_ms sc) (events st') (store st')"
  using assms
proof (induction sc st rule: run_loop.induct)
  case (1 sc st)
  then show ?case
    using sim_step_workers sim_step_tracked
    by (auto simp: run_loop.simps [of sc st] split: option.splits)
qed

lemma remaining_init: "remaining (sim_init sc) = workers sc * (4 * unat (steps_per_worker sc) + 1)"
  by (simp add: remaining_def sim_init_def weight_def)

lemma workers_ok_init: "workers_ok sc (sim_init sc)"
  by (simp add: workers_ok_def sim_init_def worker_ok_def)

lemma timely_init: "timely 0 (sim_init sc)"
  by (simp add: timely_def sim_init_def worker_timely_def)

lemma tracked_init: "tracked ttl (events (sim_init sc)) (store (sim_init sc))"
  by (simp add: tracked_def sim_init_def check_init_def active_retain live_holds_def)

lemma simulate_some:
  assumes "2 \<le> workers sc"
    and "pace sc * (workers sc * (4 * unat (steps_per_worker sc) + 1)) < 2 ^ 64"
  shows "\<exists>st. run_loop sc (sim_init sc) = Some st \<and> simulate sc = Some (sort_key t_ms (events st))"
proof -
  have "\<exists>st. run_loop sc (sim_init sc) = Some st"
    by (rule run_loop_total [OF timely_init workers_ok_init]) (use assms(2) in \<open>simp add: remaining_init\<close>)
  with assms(1) show ?thesis by (auto simp: simulate_def sim_run_def)
qed

section \<open>Properties\<close>

text \<open>Property C9. Every clean simulation is accepted by the checker. Whatever the seed, the number
  of workers and steps, the lease and the pause probability, as long as the virtual clock of the
  run fits 64 bits the event loop ends without a panic, and the checker finds no violation in
  the history: no grant during another worker's lease, no stale accepted write, no release lost
  inside its own window, even though workers freeze past the end of their leases.\<close>

theorem clean_simulation_passes:
  assumes "2 \<le> workers sc" "\<not> sc_broken_cas sc" "\<not> sc_broken_fencing sc"
    and "pace sc * (workers sc * (4 * unat (steps_per_worker sc) + 1)) < 2 ^ 64"
  shows "\<exists>evs. simulate sc = Some evs \<and> check evs (sc_ttl_ms sc) = Some (Inr ())"
proof -
  obtain st where st: "run_loop sc (sim_init sc) = Some st" "simulate sc = Some (sort_key t_ms (events st))"
    using simulate_some [OF assms(1,4)] by blast
  have "tracked (sc_ttl_ms sc) (events st) (store st)"
    by (rule run_loop_invariant [OF st(1) workers_ok_init tracked_init assms(2,3)])
  then have "sorted (map t_ms (events st))" "check (events st) (sc_ttl_ms sc) = Some (Inr ())"
    by (auto simp: tracked_def check_accepts)
  then show ?thesis using st(2) by (simp add: sort_key_id_if_sorted)
qed

theorem clean_simulation_passes_witness:
  "\<exists>evs. simulate (clean 42) = Some evs \<and> check evs 100 = Some (Inr ())"
  using clean_simulation_passes [of "clean 42"] by (simp add: clean_def pace_def)

text \<open>Property C36. The event loop always ends, with the bug-injection flags too. A run with at
  least two workers whose virtual clock fits 64 bits never panics, in particular a worker that
  wakes after its pause never finds its own lease alive, and fewer than two workers are
  refused.\<close>

theorem simulate_ends:
  assumes "pace sc * (workers sc * (4 * unat (steps_per_worker sc) + 1)) < 2 ^ 64"
  shows "(\<exists>evs. simulate sc = Some evs) \<longleftrightarrow> 2 \<le> workers sc"
  using simulate_some [OF _ assms] by (auto simp: simulate_def sim_run_def)

theorem simulate_ends_witness:
  "(\<exists>evs. simulate ((clean 7)\<lparr>sc_broken_cas := True\<rparr>) = Some evs) \<and>
   \<not> (\<exists>evs. simulate ((clean 7)\<lparr>workers := 1\<rparr>) = Some evs)"
  using simulate_ends [of "(clean 7)\<lparr>sc_broken_cas := True\<rparr>"] simulate_ends [of "(clean 7)\<lparr>workers := 1\<rparr>"]
  by (simp add: clean_def pace_def)

end
