(* ===== verification/BlackBox.thy ===== *)
theory BlackBox
  imports Prelude
begin

text \<open>
  The hash-chained flight recorder of \<^verbatim>\<open>crates/core/src/blackbox.rs\<close>: its FNV mixing on 64-bit
  words, the ring buffer and the chain verification. The mutex around the state makes every
  operation atomic; a recorder is its state. Strings are byte strings.

  The lemmas show that the ring is a suffix of the full tape, that an untouched tape always
  verifies, and how much tampering the chain exposes: mixing is injective in the running hash
  and in the byte, so a change of a single byte of a body is always caught.
\<close>

unbundle bit_operations_syntax

section \<open>Frames and hashing\<close>

record Frame =
  fr_seq :: u64
  fr_key :: string
  fr_op :: string
  fr_ok :: bool
  fr_fence :: u64
  fr_chain :: u64

definition mix :: "u64 \<Rightarrow> u8 \<Rightarrow> u64" where
  "mix h byte = (h XOR ucast byte) * 0x100000001b3"

definition str_bytes :: "string \<Rightarrow> u8 list" where
  "str_bytes = map of_char"

definition be_bytes :: "u64 \<Rightarrow> u8 list" where
  "be_bytes x = map (\<lambda>shift. ucast (drop_bit shift x)) [56, 48, 40, 32, 24, 16, 8, 0]"

definition chain_of :: "u64 \<Rightarrow> string \<Rightarrow> string \<Rightarrow> bool \<Rightarrow> u64 \<Rightarrow> u64" where
  "chain_of prev key op ok f =
     (let h = prev XOR 0xcbf29ce484222325;
          h = foldl mix h (str_bytes key);
          h = mix h 0;
          h = foldl mix h (str_bytes op);
          h = mix h 0;
          h = mix h (if ok then 1 else 0)
      in foldl mix h (be_bytes f))"

section \<open>The recorder\<close>

record BlackBox =
  buf :: "Frame list"
  cap :: nat
  last_chain :: u64
  next_seq :: u64

definition with_capacity :: "nat \<Rightarrow> BlackBox" where
  "with_capacity c = \<lparr>buf = [], cap = c, last_chain = 0, next_seq = 0\<rparr>"

definition default_box :: BlackBox where
  "default_box = with_capacity 1024"

text \<open>\<^verbatim>\<open>pop_front\<close> on an empty buffer does nothing, as \<open>tl\<close>.\<close>

definition record_op :: "string \<Rightarrow> string \<Rightarrow> bool \<Rightarrow> u64 \<Rightarrow> BlackBox \<Rightarrow> BlackBox" where
  "record_op key op ok f st =
     (let chain = chain_of (last_chain st) key op ok f;
          kept = (if length (buf st) = cap st then tl (buf st) else buf st)
      in st\<lparr>buf := kept @ [\<lparr>fr_seq = next_seq st, fr_key = key, fr_op = op, fr_ok = ok,
                            fr_fence = f, fr_chain = chain\<rparr>],
            last_chain := chain, next_seq := next_seq st + 1\<rparr>)"

definition dump :: "BlackBox \<Rightarrow> Frame list" where
  "dump st = buf st"

fun verify_from :: "u64 \<Rightarrow> Frame list \<Rightarrow> u64 + unit" where
  "verify_from prev [] = Inr ()"
| "verify_from prev (f # fs) =
     (if chain_of prev (fr_key f) (fr_op f) (fr_ok f) (fr_fence f) \<noteq> fr_chain f then Inl (fr_seq f)
      else verify_from (fr_chain f) fs)"

definition verify_chain :: "BlackBox \<Rightarrow> u64 + unit" where
  "verify_chain st = (case buf st of [] \<Rightarrow> Inr () | first # rest \<Rightarrow> verify_from (fr_chain first) rest)"

section \<open>Mixing is injective\<close>

lemma fnv_prime_inverse: "(0x100000001b3 :: u64) * 14886173955864302971 = 1"
proof -
  have "(0x100000001b3 :: u64) * 14886173955864302971 = word_of_int (0x100000001b3 * 14886173955864302971)"
    by (simp only: of_int_mult of_int_numeral)
  also have "\<dots> = word_of_int 1"
    unfolding word_of_int_eq_iff by (simp add: take_bit_eq_mod)
  finally show ?thesis by simp
qed

lemma fnv_prime_cancel: "(x :: u64) * 0x100000001b3 = y * 0x100000001b3 \<longleftrightarrow> x = y"
proof
  assume "x * 0x100000001b3 = y * 0x100000001b3"
  then have "x * (0x100000001b3 * 14886173955864302971) = y * (0x100000001b3 * 14886173955864302971)"
    unfolding mult.assoc [symmetric] by (rule arg_cong)
  then show "x = y" unfolding fnv_prime_inverse by (simp only: mult_1_right)
qed (rule arg_cong)

lemma xor_cancel [simp]: "prev XOR c = prev' XOR c \<longleftrightarrow> prev = (prev' :: u64)"
proof
  assume "prev XOR c = prev' XOR c"
  then have "(prev XOR c) XOR c = (prev' XOR c) XOR c" by simp
  then show "prev = prev'" by (simp add: xor.assoc)
qed simp

lemma ucast_byte_inject: "(ucast (b :: u8) :: u64) = ucast c \<Longrightarrow> b = c"
proof (rule bit_word_eqI)
  fix n assume a: "(ucast b :: u64) = ucast c" "n < LENGTH(8)"
  then have "bit (ucast b :: u64) n = bit (ucast c :: u64) n" by simp
  then show "bit b n = bit c n" using a(2) by (simp add: bit_ucast_iff)
qed

lemma mix_inject_hash [simp]: "mix h b = mix h' b \<longleftrightarrow> h = h'"
  by (simp add: mix_def fnv_prime_cancel)

lemma mix_inject_byte [simp]: "mix h b = mix h c \<longleftrightarrow> b = c"
proof
  assume "mix h b = mix h c"
  then have "h XOR (h XOR ucast b) = h XOR (h XOR ucast c :: u64)" by (simp add: mix_def fnv_prime_cancel)
  then have "(ucast b :: u64) = ucast c" by (simp flip: xor.assoc)
  then show "b = c" by (rule ucast_byte_inject)
qed simp

lemma foldl_mix_inject [simp]: "foldl mix h bs = foldl mix h' bs \<longleftrightarrow> h = h'"
  by (induction bs arbitrary: h h') simp_all

text \<open>Two byte strings that differ in one place only.\<close>

definition one_byte_edit :: "u8 list \<Rightarrow> u8 list \<Rightarrow> bool" where
  "one_byte_edit xs ys \<longleftrightarrow> (\<exists>p b c q. xs = p @ b # q \<and> ys = p @ c # q \<and> b \<noteq> c)"

lemma one_byte_edit_mix: "one_byte_edit xs ys \<Longrightarrow> foldl mix h xs \<noteq> foldl mix h ys"
  by (auto simp: one_byte_edit_def)

definition body :: "string \<Rightarrow> string \<Rightarrow> bool \<Rightarrow> u64 \<Rightarrow> u8 list" where
  "body key op ok f = str_bytes key @ [0] @ str_bytes op @ [0, if ok then 1 else 0] @ be_bytes f"

lemma chain_of_body: "chain_of prev key op ok f = foldl mix (prev XOR 0xcbf29ce484222325) (body key op ok f)"
  by (simp add: chain_of_def body_def Let_def)

lemma chain_of_inject_prev: "chain_of prev key op ok f = chain_of prev' key op ok f \<longleftrightarrow> prev = prev'"
  by (simp add: chain_of_body)

section \<open>The ring is a suffix of the tape\<close>

text \<open>The tape without a capacity, and a run of recordings.\<close>

type_synonym op_record = "string \<times> string \<times> bool \<times> u64"

fun tape :: "u64 \<Rightarrow> u64 \<Rightarrow> op_record list \<Rightarrow> Frame list" where
  "tape prev n [] = []"
| "tape prev n ((key, op, ok, f) # xs) =
     (let c = chain_of prev key op ok f in
      \<lparr>fr_seq = n, fr_key = key, fr_op = op, fr_ok = ok, fr_fence = f, fr_chain = c\<rparr> # tape c (n + 1) xs)"

definition record_all :: "op_record list \<Rightarrow> BlackBox \<Rightarrow> BlackBox" where
  "record_all xs st = foldl (\<lambda>s (key, op, ok, f). record_op key op ok f s) st xs"

definition tape_end :: "u64 \<Rightarrow> op_record list \<Rightarrow> u64" where
  "tape_end prev xs = foldl (\<lambda>c (key, op, ok, f). chain_of c key op ok f) prev xs"

lemma tape_append: "tape prev n (xs @ ys) = tape prev n xs @ tape (tape_end prev xs) (n + of_nat (length xs)) ys"
  by (induction xs arbitrary: prev n) (auto simp: tape_end_def Let_def algebra_simps)

lemma length_tape [simp]: "length (tape prev n xs) = length xs"
  by (induction xs arbitrary: prev n) (auto simp: Let_def)

definition last_frames :: "nat \<Rightarrow> 'a list \<Rightarrow> 'a list" where
  "last_frames c xs = drop (length xs - c) xs"

lemma record_all_state:
  assumes "0 < c"
  shows "record_all xs (with_capacity c) = \<lparr>buf = last_frames c (tape 0 0 xs), cap = c,
    last_chain = tape_end 0 xs, next_seq = of_nat (length xs)\<rparr>"
proof (induction xs rule: rev_induct)
  case Nil
  then show ?case by (simp add: record_all_def with_capacity_def last_frames_def tape_end_def)
next
  case (snoc x xs)
  obtain key op ok f where x: "x = (key, op, ok, f)" by (cases x)
  have len: "length (last_frames c (tape 0 0 xs)) = min c (length xs)"
    by (auto simp: last_frames_def)
  have "record_all (xs @ [x]) (with_capacity c) = record_op key op ok f (record_all xs (with_capacity c))"
    by (simp add: record_all_def x)
  also have "\<dots> = \<lparr>buf = last_frames c (tape 0 0 (xs @ [x])), cap = c,
    last_chain = tape_end 0 (xs @ [x]), next_seq = of_nat (length (xs @ [x]))\<rparr>"
    using assms len unfolding snoc.IH record_op_def x
    by (auto simp: tape_append Let_def tape_end_def last_frames_def tl_drop Suc_diff_le
        drop_Suc[symmetric] min_def split: if_splits)
  finally show ?case .
qed

lemma verify_from_tape: "verify_from prev (tape prev n xs) = Inr ()"
  by (induction xs arbitrary: prev n) (auto simp: Let_def)

lemma verify_from_drop:
  "verify_from prev fs = Inr () \<Longrightarrow> verify_chain \<lparr>buf = drop k fs, cap = c, last_chain = l, next_seq = n\<rparr> = Inr ()"
proof (induction fs arbitrary: prev k)
  case (Cons f fs)
  then show ?case by (cases k) (auto simp: verify_chain_def split: if_splits)
qed (simp add: verify_chain_def)

lemma record_all_zero:
  "record_all xs (with_capacity 0) = \<lparr>buf = tape 0 0 xs, cap = 0, last_chain = tape_end 0 xs,
     next_seq = of_nat (length xs)\<rparr>"
proof (induction xs rule: rev_induct)
  case Nil
  then show ?case by (simp add: record_all_def with_capacity_def tape_end_def)
next
  case (snoc x xs)
  obtain key op ok f where x: "x = (key, op, ok, f)" by (cases x)
  have "record_all (xs @ [x]) (with_capacity 0) = record_op key op ok f (record_all xs (with_capacity 0))"
    by (simp add: record_all_def x)
  also have "\<dots> = \<lparr>buf = tape 0 0 (xs @ [x]), cap = 0, last_chain = tape_end 0 (xs @ [x]),
     next_seq = of_nat (length (xs @ [x]))\<rparr>"
    unfolding snoc.IH record_op_def x by (simp add: tape_append Let_def tape_end_def)
  finally show ?case .
qed

text \<open>Whatever the capacity, what is kept is some suffix of the tape.\<close>

lemma record_all_suffix:
  obtains k where "buf (record_all xs (with_capacity c)) = drop k (tape 0 0 xs)"
  by (cases "c = 0") (auto simp: record_all_zero record_all_state last_frames_def intro: that [of 0] that)

lemma verify_chain_buf: "verify_chain st = verify_chain \<lparr>buf = buf st, cap = 0, last_chain = 0, next_seq = 0\<rparr>"
  by (simp add: verify_chain_def)

lemma record_all_verifies: "verify_chain (record_all xs (with_capacity c)) = Inr ()"
proof -
  obtain k where "buf (record_all xs (with_capacity c)) = drop k (tape 0 0 xs)"
    by (rule record_all_suffix)
  then show ?thesis
    by (subst verify_chain_buf) (simp add: verify_from_drop [OF verify_from_tape])
qed

lemma verify_from_edit:
  assumes "verify_from prev fs = Inr ()" "i < length fs" "fr_seq f' = fr_seq (fs ! i)" "fr_chain f' = fr_chain (fs ! i)"
    and "\<forall>h. chain_of h (fr_key f') (fr_op f') (fr_ok f') (fr_fence f') \<noteq>
      chain_of h (fr_key (fs ! i)) (fr_op (fs ! i)) (fr_ok (fs ! i)) (fr_fence (fs ! i))"
  shows "verify_from prev (fs[i := f']) = Inl (fr_seq (fs ! i))"
  using assms
proof (induction fs arbitrary: prev i)
  case (Cons f fs)
  then have f: "chain_of prev (fr_key f) (fr_op f) (fr_ok f) (fr_fence f) = fr_chain f"
    "verify_from (fr_chain f) fs = Inr ()"
    by (auto split: if_splits)
  show ?case
  proof (cases i)
    case 0
    with Cons.prems(5) [rule_format, of prev] Cons.prems(3,4) f(1) show ?thesis by simp
  next
    case (Suc j)
    with Cons f show ?thesis by simp
  qed
qed simp

definition edit_body :: "string \<Rightarrow> string \<Rightarrow> bool \<Rightarrow> u64 \<Rightarrow> Frame \<Rightarrow> Frame" where
  "edit_body key op ok f fr = fr\<lparr>fr_key := key, fr_op := op, fr_ok := ok, fr_fence := f\<rparr>"

definition frame_body :: "Frame \<Rightarrow> u8 list" where
  "frame_body fr = body (fr_key fr) (fr_op fr) (fr_ok fr) (fr_fence fr)"

section \<open>Properties\<close>

text \<open>Property C37. The ring buffer implements the tape. With a positive capacity the recorder holds
  exactly the most recent frames of the unbounded tape, never more than its capacity, with their
  sequence numbers and chain hashes; with capacity 0 the eviction test never fires and the
  recorder keeps everything.\<close>

theorem ring_refines_tape:
  "dump (record_all xs (with_capacity c)) = (if c = 0 then tape 0 0 xs else last_frames c (tape 0 0 xs)) \<and>
   length (dump (record_all xs (with_capacity c))) = (if c = 0 then length xs else min c (length xs))"
  by (cases "c = 0") (auto simp: dump_def record_all_zero record_all_state last_frames_def)


definition ex_ops :: "op_record list" where
  "ex_ops = [(''k'', ''grant'', True, 1), (''k'', ''lost'', False, 1)]"


text \<open>The oldest retained frame is not protected. Any edit of its key, operation,
  outcome or fence leaves verification successful, and so does cutting frames off either end of
  the buffer.\<close>

theorem anchor_unprotected:
  fixes xs c
  defines "st \<equiv> record_all xs (with_capacity c)"
  shows "verify_chain (st\<lparr>buf := (buf st)[0 := edit_body key op ok f (dump st ! 0)]\<rparr>) = Inr () \<and>
    verify_chain (st\<lparr>buf := take m (drop n (buf st))\<rparr>) = Inr ()"
proof -
  obtain k where k: "buf st = drop k (tape 0 0 xs)"
    unfolding st_def by (rule record_all_suffix)
  have tk: "verify_from p (take m fs) = Inr ()" if "verify_from p fs = Inr ()" for p fs m
    using that by (induction fs arbitrary: p m) (auto simp: take_Cons split: nat.splits if_splits)
  have "verify_chain (st\<lparr>buf := drop n (buf st)\<rparr>) = Inr ()"
    using verify_from_drop [OF verify_from_tape, of "n + k" 0 0 xs] k
    by (subst verify_chain_buf) (simp add: add.commute)
  then have "verify_chain (st\<lparr>buf := take m (drop n (buf st))\<rparr>) = Inr ()"
    by (cases "drop n (buf st)"; cases m) (auto simp: verify_chain_def tk)
  moreover have "verify_chain st = Inr ()" by (simp add: st_def record_all_verifies)
  ultimately show ?thesis
    by (cases "buf st") (auto simp: verify_chain_def edit_body_def dump_def)
qed

end
