(* ===== verification/Seal.thy ===== *)
theory Seal
  imports BlackBox
begin

text \<open>
  Fence seals (\<^verbatim>\<open>crates/core/src/seal.rs\<close>): the keyed digest over secret, key, fence and issue
  time, sealing, verification with its replay window, and the constant-time comparison. The wall
  clock is an argument of \<open>seal_verify\<close>.
\<close>

unbundle bit_operations_syntax

definition fnv_step :: "u64 \<Rightarrow> u8 \<Rightarrow> u64" where
  "fnv_step h b = (h XOR ucast b) * 0x100000001b3"

definition hmac :: "u8 list \<Rightarrow> u8 list \<Rightarrow> u64 \<Rightarrow> u64 \<Rightarrow> u8 list" where
  "hmac key key_id f ts =
     (let block = key @ key_id @ be_bytes f @ be_bytes ts
      in be_bytes (foldl fnv_step 0xcbf29ce484222325 block))"

definition seal :: "u8 list \<Rightarrow> string \<Rightarrow> u64 \<Rightarrow> u8 list" where
  "seal secret key f = hmac secret (str_bytes key) f 0"

fun diff_bytes :: "u8 \<Rightarrow> (u8 \<times> u8) list \<Rightarrow> u8" where
  "diff_bytes d [] = d"
| "diff_bytes d ((x, y) # r) = diff_bytes (d OR (x XOR y)) r"

definition constant_time_eq :: "u8 list \<Rightarrow> u8 list \<Rightarrow> bool" where
  "constant_time_eq a b = (if length a \<noteq> length b then False else diff_bytes 0 (zip a b) = 0)"

definition saturating_sub :: "u64 \<Rightarrow> u64 \<Rightarrow> u64" where
  "saturating_sub a b = (if a < b then 0 else a - b)"

definition seal_verify :: "u64 \<Rightarrow> u8 list \<Rightarrow> string \<Rightarrow> u64 \<Rightarrow> u8 list \<Rightarrow> u64 \<Rightarrow> u64 \<Rightarrow> bool" where
  "seal_verify now secret key f seal_bytes issued_at_ms max_age_ms =
     (if max_age_ms > 0 \<and> saturating_sub now issued_at_ms > max_age_ms then False
      else constant_time_eq (hmac secret (str_bytes key) f issued_at_ms) seal_bytes)"

section \<open>Digest and comparison\<close>

lemma fnv_step_mix: "fnv_step = mix"
  by (intro ext) (simp add: fnv_step_def mix_def)

lemma be_bytes_bit: "q < 8 \<Longrightarrow> r < 8 \<Longrightarrow> bit x (8 * q + r) = bit (be_bytes x ! (7 - q)) r"
proof -
  assume q: "q < 8" "r < 8"
  then have "q \<in> {0, 1, 2, 3, 4, 5, 6, 7}" by auto
  with q show ?thesis unfolding be_bytes_def
    by (auto simp: bit_ucast_iff bit_drop_bit_eq)
qed

lemma be_bytes_inject [simp]: "be_bytes x = be_bytes y \<longleftrightarrow> x = y"
proof
  assume eq: "be_bytes x = be_bytes y"
  show "x = y"
  proof (rule bit_word_eqI)
    fix n assume "n < LENGTH(64)"
    then have "n div 8 < 8" "n mod 8 < 8" by auto
    from be_bytes_bit [OF this, of x] be_bytes_bit [OF this, of y] eq show "bit x n = bit y n" by simp
  qed
qed simp

lemma or_zero_iff: "(x :: u8) OR y = 0 \<longleftrightarrow> x = 0 \<and> y = 0"
  by (auto simp: bit_eq_iff bit_simps)

lemma xor_zero_iff: "(x :: u8) XOR y = 0 \<longleftrightarrow> x = y"
  by (auto simp: bit_eq_iff bit_simps)

lemma diff_bytes_zero: "diff_bytes d ps = 0 \<longleftrightarrow> d = 0 \<and> (\<forall>(x, y) \<in> set ps. x = y)"
  by (induction d ps rule: diff_bytes.induct) (auto simp: or_zero_iff xor_zero_iff)

lemma zip_all_eq: "length a = length b \<Longrightarrow> (\<forall>(x, y) \<in> set (zip a b). x = y) \<longleftrightarrow> a = b"
  by (induction a b rule: list_induct2) auto

lemma constant_time_eq_iff: "constant_time_eq a b \<longleftrightarrow> a = b"
  by (auto simp: constant_time_eq_def diff_bytes_zero zip_all_eq)

lemma hmac_one_byte:
  assumes "one_byte_edit (k @ i @ be_bytes f @ be_bytes t) (k' @ i' @ be_bytes f' @ be_bytes t')"
  shows "hmac k i f t \<noteq> hmac k' i' f' t'"
  using one_byte_edit_mix [OF assms, of "0xcbf29ce484222325"]
  by (simp add: hmac_def Let_def fnv_step_mix)

section \<open>Properties\<close>


text \<open>Tampering with one byte is caught. If the secret, key, fence and issue time
  claimed to the verifier differ from the sealed ones in a single byte of the digested block, the
  seal is rejected, whatever the window.\<close>

theorem seal_one_byte_rejected:
  assumes "one_byte_edit (secret @ str_bytes key @ be_bytes f @ be_bytes 0)
    (secret' @ str_bytes key' @ be_bytes f' @ be_bytes issued)"
  shows "\<not> seal_verify now secret' key' f' (seal secret key f) issued max_age"
  using hmac_one_byte [OF assms] by (auto simp: seal_verify_def constant_time_eq_iff seal_def)

theorem seal_one_byte_rejected_witness:
  "\<not> seal_verify 5 (str_bytes ''s'') ''k'' 2 (seal (str_bytes ''s'') ''k'' 1) 0 0"
proof (rule seal_one_byte_rejected)
  have "be_bytes 1 = [0, 0, 0, 0, 0, 0, 0, 1]" "be_bytes 2 = [0, 0, 0, 0, 0, 0, 0, 2]"
    by (simp_all add: be_bytes_def)
  then show "one_byte_edit (str_bytes ''s'' @ str_bytes ''k'' @ be_bytes 1 @ be_bytes 0)
      (str_bytes ''s'' @ str_bytes ''k'' @ be_bytes 2 @ be_bytes 0)"
    unfolding one_byte_edit_def
    by (intro exI [of _ "str_bytes ''s'' @ str_bytes ''k'' @ [0, 0, 0, 0, 0, 0, 0]"] exI [of _ 1] exI [of _ 2]
        exI [of _ "be_bytes 0"]) simp
qed

text \<open>The replay window rejects what \<open>seal\<close> issues. Seals carry issue time 0, so
  presenting one with its true issue time under a window fails as soon as the wall clock exceeds
  the window; and since the digest does not separate its parts, moving bytes between the end of the
  secret and the front of the key leaves the seal unchanged.\<close>

theorem seal_weaknesses:
  "(0 < max_age \<and> max_age < now \<longrightarrow> \<not> seal_verify now secret key f (seal secret key f) 0 max_age) \<and>
   seal (secret @ str_bytes pre) key f = seal secret (pre @ key) f"
  by (auto simp: seal_verify_def saturating_sub_def seal_def hmac_def str_bytes_def)

theorem seal_weaknesses_witness:
  "\<not> seal_verify 1700000000000 [1] ''k'' 7 (seal [1] ''k'' 7) 0 60000 \<and>
   seal (str_bytes ''ab'') ''c'' 1 = seal (str_bytes ''a'') ''bc'' 1"
  using seal_weaknesses [of 60000 1700000000000 "[1]" "''k''" 7]
    seal_weaknesses [of 0 0 "str_bytes ''a''" "''c''" 1 "''b''"]
  by (simp add: str_bytes_def)

end
