(* ===== verification/Spec2Isabelle.thy ===== *)
theory Spec2Isabelle
  imports Mutex Watchdog Reentrant Latch Semaphore RwLock Fair Testament Semantic Multi RingLease Client LockApi Predictor ConsoleApi Exclusion Fencing SimCheck Seal
begin

text \<open>
  Palisade is a distributed lock service. Its crates are a vocabulary (\<^verbatim>\<open>crates/core\<close>), lock managers
  over Redis (\<^verbatim>\<open>crates/redis\<close>, which sends Lua scripts to the store) and etcd (\<^verbatim>\<open>crates/etcd\<close>), a gRPC
  server in front of the Redis manager (\<^verbatim>\<open>crates/server\<close>), a client for it (\<^verbatim>\<open>crates/client\<close>), and a
  testing crate with a simulator and a history checker (\<^verbatim>\<open>crates/testing\<close>). Paths below are relative
  to \<^verbatim>\<open>src/crates\<close>.

  \<^bold>\<open>How the model is built.\<close> Every operation is a function from the state it
  changes to its answer and the new state; a Rust \<^verbatim>\<open>Result\<close> is a sum with the error on the left. A Lua
  script is a function over the monad of theory \<open>Link\<close>'s scripts and runs
  atomically; everything between two calls of an operation, what other clients do and the time that
  passes included, is an argument, so that a theorem about an operation covers every interleaving.
  Redis and etcd are not part of the repository: they are parameters, and the
  locales \<open>redis_server\<close> and \<open>etcd_server\<close> state the documented behaviour the code relies on; an in-memory
  server in the same theory satisfies each. Whether a call arrives, and whether its answer does, is
  its \<open>delivery\<close>. Tokens, instants and random identifiers are arguments. Machine integers are
  words of their width, durations are numbers of nanoseconds, floating-point numbers are reals rounded after every operation
  as binary64 prescribes. A panic is a value too. Metrics, traces and audit lines are left out.

  \<^bold>\<open>Shared theories.\<close>
  \<^item> \<open>Prelude\<close>: the proof collections, durations, results, decimal numerals and list lemmas.
  \<^item> \<open>Redis\<close>: commands, replies, their documented effect on a keyspace with expiry, the locale \<open>redis_server\<close>.
  \<^item> \<open>Link\<close>: deliveries, script calls, instants and the polling loop that the waiting operations share. \<open>Refine\<close>: the
    contract between an abstract lock and its scripts, as the locale \<open>refinement\<close>.
  \<^item> \<open>Float64\<close>: rounding to nearest, with the locales \<open>rounding\<close> and \<open>averaging\<close> for what the moving averages need of it, relative
    errors and the conversion of durations to seconds.
  \<^item> \<open>Core\<close>: errors, fencing tokens (with their order), owners, options, safety policies and the SQL generator
    (\<^verbatim>\<open>core/src\<close>: \<^verbatim>\<open>error\<close>, \<^verbatim>\<open>fencing\<close>, \<^verbatim>\<open>owner\<close>, \<^verbatim>\<open>lock\<close>, \<^verbatim>\<open>safety\<close>, \<^verbatim>\<open>fence_pg\<close>).
    \<open>Predictor\<close>: the hold-time forecasts of \<^verbatim>\<open>predictor.rs\<close>, when one is given and how its three times are ordered.

  \<^bold>\<open>Locks over Redis\<close> (\<^verbatim>\<open>redis/src\<close>).
  \<^item> \<open>Single\<close> holds the mutex of \<^verbatim>\<open>single.rs\<close> with its scripts, handle and watchdog; \<open>Mutex\<close> shows that
    in every interleaving of operations of any number of clients at most one unexpired lease exists, that fences increase while the
    counter lives (and that they restart when it does not), and what each branch of releasing does; \<open>Watchdog\<close>
    shows how long renewal survives; \<open>Ownership\<close> collects the facts that clients of the mutex use.
  \<^item> \<open>Reentrant\<close>, \<open>RwLock\<close>: the scripts refine abstract locks over arbitrary sequences of operations.
  \<^item> \<open>Semaphore\<close>: at most the maximum number of permits. \<open>Fair\<close>: hand-over to the oldest
    living waiter. \<open>Latch\<close>, \<open>Testament\<close>, \<open>Semantic\<close>: counting, guarded wills, grants exactly when
    all predicates hold. \<open>Multi\<close>: all keys or none.
  \<^item> \<open>Config\<close>: settings and connecting. \<open>Redlock\<close>: rounds over several nodes; the locale \<open>quorum_system\<close>
    states why two grants cannot coexist, and majorities satisfy it. \<open>RingLease\<close> puts its rounds in time: a grant or a
    confirmed extension is valid for what the lease has left when it returns, every other use of the ring
    is an inductive relation on each node's life, and two tokens are never valid at once. The code's handle does not carry
    its validity, and a run with two owners shows what follows.

  \<^bold>\<open>Locks over etcd\<close> (\<^verbatim>\<open>etcd/src/lib.rs\<close>): theory \<open>Etcd\<close>. Exclusion while the lease lives, fences that
    increase across all keys, and failed attempts that leave nothing behind.

  \<^bold>\<open>What the backends share.\<close> \<open>LockApi\<close> states the two traits of \<^verbatim>\<open>core/src/lock.rs\<close> as locales
    and interprets them on the three managers and the four handles: bounded waits answer, a released handle is inert, and
    waiting without bound panics on two of the managers. \<open>Fencing\<close> puts a resource that checks fencing tokens beside a lock
    manager (locale \<open>fence_source\<close>, provided by the Redis mutex and by etcd).

  \<^bold>\<open>Server\<close> (\<^verbatim>\<open>server/src\<close>). \<open>Auth\<close>, \<open>Registry\<close>, \<open>Sessions\<close> and \<open>WatchHub\<close> are the four books the
    service keeps; each has its own invariant (the registry through the locale \<open>quota_ledger\<close>). \<open>Service\<close>
    is the handlers of \<^verbatim>\<open>service.rs\<close> over them and the mutex: a grant is all or nothing, nothing changes without
    permission, and the books stay consistent in every reachable state (an inductive step relation over
    all handlers, sweeps and foreign changes of the store). \<open>Exclusion\<close> shows that every run of the service is a run of
    the mutex, so that its clients exclude each other. \<open>Server\<close> is the process of \<^verbatim>\<open>main.rs\<close>: arguments,
    start-up with its failures, draining and exit. \<open>Pressure\<close> is the store pressure index of \<^verbatim>\<open>lattice.rs\<close>: its range, and that outages
    raise and recoveries lower its tier.

  \<^bold>\<open>Client\<close> (\<^verbatim>\<open>client/src/lib.rs\<close>): theory \<open>Client\<close>, over the handlers of the service. Remote locks
    behave as local ones; the session task keeps its session exactly when the granted budget covers its
    cadence.

  \<^bold>\<open>Console\<close> (\<^verbatim>\<open>server/src/demo.rs\<close>): theory \<open>Console\<close>, the HTTP handlers over every primitive with the handles the
    console stores. A stored handle is a live handle of the key and fence it is filed under, in every reachable state; entering a
    reentrant lock again is undone by the drop of the replaced handle. \<open>ConsoleApi\<close> is the HTTP side: request and answer
    records, the route table, the dispatch to the handlers and the process of \<^verbatim>\<open>bin/palisade-demo.rs\<close>; a request that is answered
    as malformed has changed nothing.

  \<^bold>\<open>Testing\<close> (\<^verbatim>\<open>testing/src\<close>). \<open>Sim\<close> is the simulator, \<open>Checker\<close> the history checker with what an accepted history
    means, and \<open>SimCheck\<close> shows that every clean run ends and is accepted. \<open>BlackBox\<close> and \<open>Seal\<close> are the
    tamper-evident recorder and the fence seals of \<^verbatim>\<open>core/src\<close>.

  \<^bold>\<open>Loops.\<close> Polling loops recurse over the list of their attempts, and \<open>None\<close> means still polling;
    that they answer by the deadline is proved. All but the Redis manager's own loop add the wait to the present instant
    and panic when there is no such instant. The discard loop of the fair lock has one unit of fuel more than its queue is
    long, which is enough on every conforming server. The simulator's loop has fuel bounded by its
    scenario, and is shown never to use it up.

  \<^bold>\<open>Not modelled.\<close> Library code: TLS, HTTP, JSON, argument parsing, files and sockets are parameters or environments of the
    start-up and dispatch functions; the logarithm of the pressure index is any function. \<^verbatim>\<open>proto\<close> is
    generated; the UUIDs that \<^verbatim>\<open>core/src/owner.rs\<close> wraps are arguments, as are the tokens made from them;
    \<^verbatim>\<open>redis/src/scripts.rs\<close> and the crate roots only embed and re-export. The example programs, tests and benchmarks exercise the
    library and define nothing of it. Debug formatting of handles and managers, logging and metrics are
    left out. Real time appears as the instants read, not as the scheduling of tasks.

  The properties below span components; the others are in the theories of their components.
\<close>

section \<open>Fenced resources\<close>



section \<open>Exclusion through the server\<close>



end
